(* ===== verification/Prelude.thy ===== *)
theory Prelude
  imports Main "HOL-Library.Word"
begin

unbundle bit_operations_syntax

text \<open>
  Shared vocabulary of the development: the integer types of \<^verbatim>\<open>include/types.h\<close>, the result
  type of code that may panic, and the generic facts on words, lists and results that the
  component theories use.

  \<^item> A call of \<^verbatim>\<open>panic()\<close> never returns (\<^verbatim>\<open>panic/panic.c\<close> loops forever after printing), so a
    function that may panic returns \<open>fault + 'a\<close>: \<open>Inl (Panic msg)\<close> is the panic with its
    message, \<open>Inr\<close> an ordinary return.
  \<^item> A loop of the source that the environment can keep running forever takes fuel; running
    out of it is \<open>Inl Diverge\<close>. Where the loop ends by itself a lemma says how much fuel is enough;
    where its end is up to the security monitor the theorems say for which answers it ends.
  \<^item> Reading through a null pointer is \<open>Inl NullDeref\<close>.
\<close>

section \<open>Types\<close>

type_synonym u8 = "8 word"
type_synonym u16 = "16 word"
type_synonym u32 = "32 word"
type_synonym u64 = "64 word"
type_synonym u128 = "128 word"
type_synonym usize = u64
type_synonym paddr = u64
type_synonym vaddr = u64

datatype fault = Panic string | Diverge | NullDeref

type_synonym 'a res = "fault + 'a"

section \<open>Sequencing of results\<close>

definition rbind :: "'a res \<Rightarrow> ('a \<Rightarrow> 'b res) \<Rightarrow> 'b res" where
  "rbind m f = (case m of Inl e \<Rightarrow> Inl e | Inr x \<Rightarrow> f x)"

definition panic :: "string \<Rightarrow> 'a res" where
  "panic msg = Inl (Panic msg)"

named_theorems layout_defs \<open>the size and shift constants of the memory layout\<close>

lemma rbind_simps [simp]:
  "rbind (Inl e) f = Inl e"
  "rbind (Inr x) f = f x"
  by (simp_all add: rbind_def)

lemma rbind_Inr_iff [simp]:
  "rbind m f = Inr y \<longleftrightarrow> (\<exists>x. m = Inr x \<and> f x = Inr y)"
  by (cases m) auto

lemma rbind_InrE:
  assumes "rbind m f = Inr y"
  obtains x where "m = Inr x" and "f x = Inr y"
  using assms by auto

lemma rbind_Inl_iff:
  "rbind m f = Inl e \<longleftrightarrow> m = Inl e \<or> (\<exists>x. m = Inr x \<and> f x = Inl e)"
  by (cases m) auto

lemma rbind_assoc: "rbind (rbind m f) g = rbind m (\<lambda>x. rbind (f x) g)"
  by (cases m) simp_all

lemma panic_not_Inr [simp]: "panic msg \<noteq> Inr x"
  by (simp add: panic_def)

section \<open>Counted loops over a state\<close>

text \<open>
  \<^verbatim>\<open>for (i = 0; i < n; i++) body(i);\<close> where the body may panic: \<open>rfor i k f s\<close> runs the body at
  \<open>i\<close>, \<open>i + 1\<close>, \ldots, \<open>i + k - 1\<close>.
\<close>

fun rfor :: "nat \<Rightarrow> nat \<Rightarrow> (nat \<Rightarrow> 's \<Rightarrow> 's res) \<Rightarrow> 's \<Rightarrow> 's res" where
  "rfor i 0 f s = Inr s"
| "rfor i (Suc k) f s = rbind (f i s) (rfor (Suc i) k f)"

lemma rfor_invariant:
  assumes "rfor i k f s = Inr t" and "P i s"
    and step: "\<And>j s t. i \<le> j \<Longrightarrow> j < i + k \<Longrightarrow> P j s \<Longrightarrow> f j s = Inr t \<Longrightarrow> P (Suc j) t"
  shows "P (i + k) t"
  using assms
proof (induction k arbitrary: i s)
  case 0
  then show ?case by simp
next
  case (Suc k)
  from Suc.prems(1) obtain u where u: "f i s = Inr u" and t: "rfor (Suc i) k f u = Inr t"
    by auto
  from Suc.prems(3) [of i s u] Suc.prems(2) u have "P (Suc i) u" by simp
  from Suc.IH [OF t this] Suc.prems(3) have "P (Suc i + k) t" by simp
  then show ?case by simp
qed

lemma rfor_total:
  assumes "P i s"
    and step: "\<And>j s. i \<le> j \<Longrightarrow> j < i + k \<Longrightarrow> P j s \<Longrightarrow> \<exists>t. f j s = Inr t \<and> P (Suc j) t"
  shows "\<exists>t. rfor i k f s = Inr t \<and> P (i + k) t"
  using assms
proof (induction k arbitrary: i s)
  case 0
  then show ?case by simp
next
  case (Suc k)
  from Suc.prems(2) [of i s] Suc.prems(1)
  obtain u where u: "f i s = Inr u" and Pu: "P (Suc i) u" by auto
  from Suc.IH [of "Suc i" u] Pu Suc.prems(2)
  obtain t where "rfor (Suc i) k f u = Inr t" "P (Suc i + k) t" by auto
  with u show ?case by auto
qed

text \<open>A loop that carries a pointer advancing by a constant step.\<close>

lemma rfor_pointer:
  fixes p0 d :: "'a::len word"
  shows "rfor i k (\<lambda>j (p, s). rbind (f p s) (\<lambda>s'. Inr (p + d, s'))) (p0 + of_nat i * d, s)
    = rbind (rfor i k (\<lambda>j. f (p0 + of_nat j * d)) s) (\<lambda>s'. Inr (p0 + of_nat (i + k) * d, s'))"
proof (induction k arbitrary: i s)
  case (Suc k)
  show ?case
  proof (cases "f (p0 + of_nat i * d) s")
    case (Inr s')
    have e: "p0 + of_nat i * d + d = p0 + of_nat (Suc i) * d" by (simp add: algebra_simps)
    show ?thesis
      using Suc [of "Suc i" s'] by (simp only: rfor.simps Inr prod.case rbind_simps e) simp
  qed simp
qed simp

section \<open>Words\<close>

lemma unat_add_less: "unat (x :: 'a::len word) + unat y < 2 ^ LENGTH('a) \<Longrightarrow> unat (x + y) = unat x + unat y"
  by (simp add: unat_word_ariths)

lemma unat_mult_less: "unat (x :: 'a::len word) * unat y < 2 ^ LENGTH('a) \<Longrightarrow> unat (x * y) = unat x * unat y"
  by (simp add: unat_word_ariths)

lemma unat_lt64 [simp]: "unat (x :: u64) < 18446744073709551616"
  using unsigned_less [of x, where 'a = nat] by simp

lemma unat_div_u64: "unat (x div y :: u64) = unat x div unat y"
  by (simp add: unat_div)

lemma unat_mod_u64: "unat (x mod y :: u64) = unat x mod unat y"
  by (simp add: unat_mod)

lemma unat_of_nat64: "n < 2 ^ 64 \<Longrightarrow> unat (of_nat n :: u64) = n"
  by (simp add: unat_of_nat)

lemma unat_pow2: "n < 64 \<Longrightarrow> unat (2 ^ n :: u64) = 2 ^ n"
  using unat_of_nat64 [of "2 ^ n"] power_strict_increasing [of n 64 "2 :: nat"] by simp

lemma unat_ucast: "unat (ucast (x :: 'a::len word) :: 'b::len word) = unat x mod 2 ^ LENGTH('b)"
  by (simp add: unsigned_ucast_eq take_bit_eq_mod)

lemma unat_bound: "unat (x :: 'a::len word) < 2 ^ LENGTH('a)"
  by (rule unsigned_less)

end
