(* ===== verification/Layout.thy ===== *)
theory Layout
  imports Prelude
begin

text \<open>
  The memory layout shared by all components: the rounding macros and page and partition
  sizes of \<^verbatim>\<open>include/memory/memory.h\<close>, the Sv39 types and conversions of
  \<^verbatim>\<open>include/memory/page_table.h\<close> and the build-time constants of
  \<^verbatim>\<open>emodules/emod_manager/config.mk\<close>.

  The bit-field structs are records whose fields have the width of the bit-field; the casts
  \<^verbatim>\<open>*(sv39_vaddr_t *)&va\<close> and \<^verbatim>\<open>*(u64 *)&satp\<close> are the bit slices that the little-endian
  RISC-V layout of the struct gives them.
\<close>

section \<open>Rounding\<close>

definition ROUNDUP :: "u64 \<Rightarrow> u64 \<Rightarrow> u64" where
  "ROUNDUP a b = ((a - 1) div b + 1) * b"

definition ROUNDDOWN :: "u64 \<Rightarrow> u64 \<Rightarrow> u64" where
  "ROUNDDOWN a b = a div b * b"

definition PAGE_SHIFT :: nat where
  [layout_defs]: "PAGE_SHIFT = 12"

definition PAGE_SIZE :: u64 where
  [layout_defs]: "PAGE_SIZE = 4096"

definition PAGE_UP :: "u64 \<Rightarrow> u64" where
  "PAGE_UP addr = ROUNDUP addr PAGE_SIZE"

definition PAGE_DOWN :: "u64 \<Rightarrow> u64" where
  "PAGE_DOWN addr = addr AND NOT (PAGE_SIZE - 1)"

definition PARTITION_SHIFT :: nat where
  [layout_defs]: "PARTITION_SHIFT = 21"

definition PARTITION_SIZE :: u64 where
  [layout_defs]: "PARTITION_SIZE = 0x200000"

definition PARTITION_UP :: "u64 \<Rightarrow> u64" where
  "PARTITION_UP addr = ROUNDUP addr PARTITION_SIZE"

definition PARTITION_DOWN :: "u64 \<Rightarrow> u64" where
  "PARTITION_DOWN addr = addr AND NOT (PARTITION_SIZE - 1)"

section \<open>Build-time constants\<close>

definition EMOD_MANAGER_VA_START :: vaddr where
  "EMOD_MANAGER_VA_START = 0xffffffe000000000"

definition EMOD_INIT_BRK :: vaddr where
  "EMOD_INIT_BRK = 0xfffffff000000000"

definition EUSR_HEAP_START_ALIGNED :: vaddr where
  "EUSR_HEAP_START_ALIGNED = 0x100000000"

definition UMODE_STACK_TOP_VA :: vaddr where
  "UMODE_STACK_TOP_VA = 0x3fff000000"

definition UMODE_STACK_SIZE :: usize where
  "UMODE_STACK_SIZE = 0x20000"

definition SMODE_STACK_SIZE :: usize where
  "SMODE_STACK_SIZE = 0x10000"

definition linear_map_start :: paddr where
  "linear_map_start = 0x140000000"

definition linear_map_size :: paddr where
  "linear_map_size = 0x340000000"

definition linear_map_offset :: paddr where
  "linear_map_offset = 0xffffffc000000000"

section \<open>Sv39 addresses and entries\<close>

definition SV39_LEVEL_PAGE :: u8 where
  [layout_defs]: "SV39_LEVEL_PAGE = 2"

definition SV39_LEVEL_MEGA :: u8 where
  [layout_defs]: "SV39_LEVEL_MEGA = 1"

definition SV39_LEVEL_GIGA :: u8 where
  [layout_defs]: "SV39_LEVEL_GIGA = 0"

definition SV39_VPN_LEN :: nat where
  [layout_defs]: "SV39_VPN_LEN = 9"

definition PTE_V :: u8 where [layout_defs]: "PTE_V = 1"
definition PTE_R :: u8 where [layout_defs]: "PTE_R = 2"
definition PTE_W :: u8 where [layout_defs]: "PTE_W = 4"
definition PTE_X :: u8 where [layout_defs]: "PTE_X = 8"
definition PTE_U :: u8 where [layout_defs]: "PTE_U = 16"
definition PTE_G :: u8 where [layout_defs]: "PTE_G = 32"

record csr_satp =
  satp_ppn :: "44 word"
  satp_asid :: "16 word"
  satp_mode :: "4 word"

definition SATP_SV39 :: "4 word" where
  "SATP_SV39 = 8"

definition satp_of_u64 :: "u64 \<Rightarrow> csr_satp" where
  "satp_of_u64 x = \<lparr>satp_ppn = ucast x, satp_asid = ucast (drop_bit 44 x),
     satp_mode = ucast (drop_bit 60 x)\<rparr>"

definition satp_to_u64 :: "csr_satp \<Rightarrow> u64" where
  "satp_to_u64 r = ucast (satp_ppn r) OR push_bit 44 (ucast (satp_asid r))
     OR push_bit 60 (ucast (satp_mode r))"

record pte_t =
  pte_v :: bool
  pte_r :: bool
  pte_w :: bool
  pte_x :: bool
  pte_u :: bool
  pte_g :: bool
  pte_a :: bool
  pte_d :: bool
  pte_rsw0 :: "2 word"
  pte_ppn :: "44 word"
  pte_rsw1 :: "10 word"

definition zero_pte :: pte_t where
  "zero_pte = \<lparr>pte_v = False, pte_r = False, pte_w = False, pte_x = False, pte_u = False,
     pte_g = False, pte_a = False, pte_d = False, pte_rsw0 = 0, pte_ppn = 0, pte_rsw1 = 0\<rparr>"

record sv39_vaddr =
  va_offset :: "12 word"
  vpn0 :: "9 word"
  vpn1 :: "9 word"
  vpn2 :: "9 word"
  va_extension :: "25 word"

record sv39_paddr =
  pa_offset :: "12 word"
  pa_ppn :: "44 word"
  pa_rsw :: "8 word"

definition get_vpn :: "sv39_vaddr \<Rightarrow> u8 \<Rightarrow> u64" where
  "get_vpn va level =
     (if level = 0 then ucast (vpn0 va)
      else if level = 1 then ucast (vpn1 va)
      else if level = 2 then ucast (vpn2 va)
      else 0)"

definition va_to_sv39 :: "vaddr \<Rightarrow> sv39_vaddr" where
  "va_to_sv39 va =
     (let extended_va = signed_drop_bit 25 (push_bit 25 va) in
      \<lparr>va_offset = ucast extended_va, vpn0 = ucast (drop_bit 12 extended_va),
       vpn1 = ucast (drop_bit 21 extended_va), vpn2 = ucast (drop_bit 30 extended_va),
       va_extension = ucast (drop_bit 39 extended_va)\<rparr>)"

definition sv39_to_va :: "sv39_vaddr \<Rightarrow> vaddr" where
  "sv39_to_va a = ucast (va_offset a) OR push_bit 12 (ucast (vpn0 a))
     OR push_bit 21 (ucast (vpn1 a)) OR push_bit 30 (ucast (vpn2 a))
     OR push_bit 39 (ucast (va_extension a))"

definition pa_to_sv39 :: "paddr \<Rightarrow> sv39_paddr" where
  "pa_to_sv39 pa = \<lparr>pa_offset = ucast pa, pa_ppn = ucast (drop_bit 12 pa),
     pa_rsw = ucast (drop_bit 56 pa)\<rparr>"

definition sv39_to_pa :: "sv39_paddr \<Rightarrow> paddr" where
  "sv39_to_pa a = ucast (pa_offset a) OR push_bit 12 (ucast (pa_ppn a))
     OR push_bit 56 (ucast (pa_rsw a))"

section \<open>Facts on rounding\<close>

lemma and_not_mask_eq_div: "x AND NOT (2 ^ n - 1) = x div 2 ^ n * 2 ^ n" for x :: u64
proof -
  have "x AND NOT (mask n) = push_bit n (drop_bit n x)"
    by (rule bit_word_eqI) (auto simp: bit_simps)
  then show ?thesis
    by (simp add: mask_eq_exp_minus_1 push_bit_eq_mult drop_bit_eq_div)
qed

lemma ROUNDUP_pow2:
  assumes "n < 64"
  shows "ROUNDUP a (2 ^ n) = (a + (2 ^ n - 1)) AND NOT (2 ^ n - 1)"
proof -
  define b where "b = a - 1"
  define K :: nat where "K = 2 ^ (64 - n)"
  have M: "(18446744073709551616 :: nat) = 2 ^ n * K"
    using assms by (simp add: K_def flip: power_add)
  have pow: "unat (2 ^ n :: u64) = 2 ^ n"
    using assms by (rule unat_pow2)
  have "(b + 2 ^ n) div 2 ^ n * 2 ^ n = (b div 2 ^ n + 1) * 2 ^ n"
  proof (rule word_unat_eq_iff [THEN iffD2])
    have "(unat b + 2 ^ n) mod (2 ^ n * K) div 2 ^ n = (unat b div 2 ^ n + 1) mod K"
      by (simp add: mod_mult2_eq div_add_self2)
    then show "unat ((b + 2 ^ n) div 2 ^ n * 2 ^ n) = unat ((b div 2 ^ n + 1) * 2 ^ n)"
      by (simp add: unat_word_ariths unat_div_u64 pow M mult.commute [of _ "2 ^ n"]
          mod_mod_cancel mod_Suc_eq flip: mult_mod_right)
  qed
  then have "(a + (2 ^ n - 1)) div 2 ^ n * 2 ^ n = ((a - 1) div 2 ^ n + 1) * 2 ^ n"
    by (simp add: b_def algebra_simps)
  then show ?thesis by (simp add: ROUNDUP_def and_not_mask_eq_div)
qed

lemma unat_div_mult: "n < 64 \<Longrightarrow> unat (x div 2 ^ n * 2 ^ n :: u64) = unat x div 2 ^ n * 2 ^ n"
proof -
  assume n: "n < 64"
  have "unat x div 2 ^ n * 2 ^ n \<le> unat x" by simp
  also have "\<dots> < 2 ^ 64" using unat_lt64 [of x] by simp
  finally show ?thesis using n by (simp add: unat_mult_less unat_div_u64 unat_pow2)
qed

lemma unat_PAGE_UP: "unat (PAGE_UP a) = unat (a + 4095) div 4096 * 4096"
proof -
  have "PAGE_UP a = (a + (2 ^ 12 - 1)) div 2 ^ 12 * 2 ^ 12"
    using ROUNDUP_pow2 [of 12 a] unfolding and_not_mask_eq_div by (simp add: PAGE_UP_def PAGE_SIZE_def)
  then show ?thesis using unat_div_mult [of 12 "a + (2 ^ 12 - 1)"] by simp
qed

lemma PAGE_UP_dvd: "4096 dvd unat (PAGE_UP a)"
  by (simp add: unat_PAGE_UP)

lemma PAGE_UP_bounds:
  assumes "unat a + 4095 < 2 ^ 64"
  shows "unat a \<le> unat (PAGE_UP a)" "unat (PAGE_UP a) < unat a + 4096"
proof -
  have u: "unat (a + 4095) = unat a + 4095" by (subst unat_add_less) (use assms in simp_all)
  have "n \<le> (n + 4095) div 4096 * 4096" "(n + 4095) div 4096 * 4096 < n + 4096" for n :: nat
    using div_mult_mod_eq [of "n + 4095" 4096] mod_less_divisor [of 4096 "n + 4095"] by linarith+
  then show "unat a \<le> unat (PAGE_UP a)" "unat (PAGE_UP a) < unat a + 4096"
    by (simp_all only: unat_PAGE_UP u)
qed

lemma unat_PARTITION_UP: "unat (PARTITION_UP a) = unat (a + 0x1fffff) div 0x200000 * 0x200000"
proof -
  have "PARTITION_UP a = (a + (2 ^ 21 - 1)) div 2 ^ 21 * 2 ^ 21"
    using ROUNDUP_pow2 [of 21 a] unfolding and_not_mask_eq_div by (simp add: PARTITION_UP_def PARTITION_SIZE_def)
  then show ?thesis using unat_div_mult [of 21 "a + (2 ^ 21 - 1)"] by simp
qed

lemma unat_drop_page: "unat (drop_bit PAGE_SHIFT x :: u64) = unat x div 4096"
  by (simp add: PAGE_SHIFT_def drop_bit_eq_div unat_div_u64)

lemma unat_drop_page_less: "unat (drop_bit PAGE_SHIFT x :: u64) < 2 ^ 52"
  using unat_lt64 [of x] by (simp add: unat_drop_page less_mult_imp_div_less)

end
