(* ===== verification/Page_Pool.thy ===== *)
theory Page_Pool
  imports Layout
begin

text \<open>
  The two page pools of \<^verbatim>\<open>emod_manager/memory/page_pool.c\<close>, together with the global variables
  of the memory subsystem (\<^verbatim>\<open>page_pool.c\<close>, \<^verbatim>\<open>page_table.c\<close>, \<^verbatim>\<open>memory.c\<close>) as one record and the
  getters of \<^verbatim>\<open>memory.c\<close> that the pools use.

  The pools only ever grow: \<open>alloc_page\<close> bumps a page counter. The contract is the locale
  \<open>page_allocator\<close>: an allocator owns a set of free bytes, a successful request removes one
  block of whole pages from it, and a request that fits does not panic. Everything a client
  needs about several requests (the blocks are pairwise disjoint and lay in the pool) is
  proved once from that contract; both pools are instances.
\<close>

section \<open>State\<close>

record pool_desc_t =
  pool_offset :: usize
  pool_size :: usize
  used_page_count :: usize

record mm_state =
  umode_pool_desc :: pool_desc_t
  smode_pool_desc :: pool_desc_t
  emod_manager_pa_start :: paddr
  umode_pool_pa_aligned :: paddr
  emodule_brk :: vaddr
  prog_brk :: vaddr
  satp :: u64
  page_table_root :: paddr
  pte_mem :: "paddr \<Rightarrow> pte_t"
  ebi_log :: "usize list"

definition UMODE_POOL :: u8 where "UMODE_POOL = 0"
definition SMODE_POOL :: u8 where "SMODE_POOL = 1"

section \<open>Getters and setters of memory.c\<close>

definition set_emod_manager_pa_start :: "paddr \<Rightarrow> mm_state \<Rightarrow> mm_state" where
  "set_emod_manager_pa_start pa_start s = s\<lparr>emod_manager_pa_start := pa_start\<rparr>"

definition get_emod_manager_pa_start :: "mm_state \<Rightarrow> paddr" where
  "get_emod_manager_pa_start s =
     (let satp_value = satp s; r = satp_of_u64 satp_value in
      if satp_value \<noteq> 0 then PARTITION_DOWN (push_bit PAGE_SHIFT (ucast (satp_ppn r)))
      else emod_manager_pa_start s)"

definition set_umode_pool_pa_aligned :: "paddr \<Rightarrow> mm_state \<Rightarrow> mm_state" where
  "set_umode_pool_pa_aligned pa_start s = s\<lparr>umode_pool_pa_aligned := pa_start\<rparr>"

definition get_umode_pool_pa_aligned :: "mm_state \<Rightarrow> paddr" where
  "get_umode_pool_pa_aligned s = umode_pool_pa_aligned s"

section \<open>Pool operations\<close>

definition init_smode_page_pool :: "usize \<Rightarrow> usize \<Rightarrow> mm_state \<Rightarrow> mm_state" where
  "init_smode_page_pool offset sz s =
     s\<lparr>smode_pool_desc := \<lparr>pool_offset = offset, pool_size = sz, used_page_count = 0\<rparr>\<rparr>"

definition init_umode_page_pool :: "usize \<Rightarrow> usize \<Rightarrow> mm_state \<Rightarrow> mm_state" where
  "init_umode_page_pool offset sz s =
     s\<lparr>umode_pool_desc := \<lparr>pool_offset = offset, pool_size = sz, used_page_count = 0\<rparr>\<rparr>"

definition get_used_page_count :: "u8 \<Rightarrow> mm_state \<Rightarrow> usize res" where
  "get_used_page_count mode s =
     (if mode = SMODE_POOL then Inr (used_page_count (smode_pool_desc s))
      else if mode = UMODE_POOL then Inr (used_page_count (umode_pool_desc s))
      else panic ''Invalid mode!'')"

definition set_used_page_count :: "usize \<Rightarrow> u8 \<Rightarrow> mm_state \<Rightarrow> mm_state res" where
  "set_used_page_count count mode s =
     (if mode = SMODE_POOL then
        Inr (s\<lparr>smode_pool_desc := (smode_pool_desc s)\<lparr>used_page_count := count\<rparr>\<rparr>)
      else if mode = UMODE_POOL then
        Inr (s\<lparr>umode_pool_desc := (umode_pool_desc s)\<lparr>used_page_count := count\<rparr>\<rparr>)
      else panic ''Invalid mode!'')"

definition get_pool_top :: "u8 \<Rightarrow> mm_state \<Rightarrow> paddr res" where
  "get_pool_top mode s =
     rbind (get_used_page_count mode s) (\<lambda>used_page_count.
     rbind (if mode = SMODE_POOL then
              Inr (get_emod_manager_pa_start s + pool_offset (smode_pool_desc s))
            else if mode = UMODE_POOL then
              Inr (get_umode_pool_pa_aligned s + pool_offset (umode_pool_desc s))
            else panic ''Invalid mode!'') (\<lambda>pool_start.
     Inr (pool_start + used_page_count * PAGE_SIZE)))"

definition alloc_page :: "usize \<Rightarrow> u8 \<Rightarrow> mm_state \<Rightarrow> (paddr \<times> mm_state) res" where
  "alloc_page number_of_pages mode s =
     rbind (get_pool_top mode s) (\<lambda>pool_top.
     rbind (if mode = SMODE_POOL then Inr (pool_size (smode_pool_desc s))
            else if mode = UMODE_POOL then Inr (pool_size (umode_pool_desc s))
            else panic ''Invalid mode!'') (\<lambda>sz.
     rbind (get_used_page_count mode s) (\<lambda>used_number_of_pages.
     let expected_number_of_pages = used_number_of_pages + number_of_pages in
     if expected_number_of_pages * PAGE_SIZE > sz then panic ''Pool out of pages!''
     else rbind (set_used_page_count expected_number_of_pages mode s) (\<lambda>s'.
       Inr (pool_top, s')))))"

definition alloc_smode_page :: "usize \<Rightarrow> mm_state \<Rightarrow> (paddr \<times> mm_state) res" where
  "alloc_smode_page number_of_pages s = alloc_page number_of_pages SMODE_POOL s"

definition alloc_umode_page :: "usize \<Rightarrow> mm_state \<Rightarrow> (paddr \<times> mm_state) res" where
  "alloc_umode_page number_of_pages s = alloc_page number_of_pages UMODE_POOL s"

definition get_smode_page_pool_avail_size :: "mm_state \<Rightarrow> usize" where
  "get_smode_page_pool_avail_size s =
     pool_size (smode_pool_desc s) - used_page_count (smode_pool_desc s) * PAGE_SIZE"

definition get_umode_page_pool_avail_size :: "mm_state \<Rightarrow> usize" where
  "get_umode_page_pool_avail_size s =
     pool_size (umode_pool_desc s) - used_page_count (umode_pool_desc s) * PAGE_SIZE"

section \<open>The contract of a page allocator\<close>

text \<open>The bytes of \<open>n\<close> pages from physical address \<open>pa\<close>.\<close>

definition page_block :: "paddr \<Rightarrow> nat \<Rightarrow> nat set" where
  "page_block pa n = {unat pa ..< unat pa + 4096 * n}"

text \<open>A sequence of requests to an allocator.\<close>

fun alloc_seq :: "(usize \<Rightarrow> 's \<Rightarrow> (paddr \<times> 's) res) \<Rightarrow> usize list \<Rightarrow> 's \<Rightarrow> ((paddr \<times> nat) list \<times> 's) res"
where
  "alloc_seq alloc [] s = Inr ([], s)"
| "alloc_seq alloc (n # ns) s =
     rbind (alloc n s) (\<lambda>(pa, s').
     rbind (alloc_seq alloc ns s') (\<lambda>(bs, s'').
     Inr ((pa, unat n) # bs, s'')))"

text \<open>
  \<open>free_bytes\<close> is what the allocator still owns and \<open>pages_left\<close> how many pages that is. Requests
  are bounded by \<open>2 ^ 51\<close> pages, beyond which the multiplication by the page size in the
  source wraps around.
\<close>

locale page_allocator =
  fixes alloc :: "usize \<Rightarrow> 's \<Rightarrow> (paddr \<times> 's) res"
    and inv :: "'s \<Rightarrow> bool"
    and free_bytes :: "'s \<Rightarrow> nat set"
    and pages_left :: "'s \<Rightarrow> nat"
  assumes alloc_step: "inv s \<Longrightarrow> unat n < 2 ^ 51 \<Longrightarrow> alloc n s = Inr (pa, s') \<Longrightarrow>
      inv s' \<and> page_block pa (unat n) \<subseteq> free_bytes s
        \<and> free_bytes s' = free_bytes s - page_block pa (unat n)
        \<and> pages_left s = pages_left s' + unat n"
    and alloc_fits: "inv s \<Longrightarrow> unat n < 2 ^ 51 \<Longrightarrow>
      (\<exists>pa s'. alloc n s = Inr (pa, s')) \<longleftrightarrow> unat n \<le> pages_left s"
begin

lemma seq_sound:
  assumes "inv s" and "\<forall>n \<in> set ns. unat n < 2 ^ 51" and "alloc_seq alloc ns s = Inr (bs, s')"
  shows "inv s' \<and> map snd bs = map unat ns \<and> pages_left s = pages_left s' + sum_list (map unat ns)
    \<and> (\<forall>(p, n) \<in> set bs. page_block p n \<subseteq> free_bytes s - free_bytes s')
    \<and> free_bytes s' \<subseteq> free_bytes s
    \<and> sorted_wrt (\<lambda>(p, n) (q, m). page_block p n \<inter> page_block q m = {}) bs"
  using assms
proof (induction ns arbitrary: s bs)
  case Nil
  then show ?case by simp
next
  case (Cons n ns)
  from Cons.prems(3) obtain pa u cs where a: "alloc n s = Inr (pa, u)"
    and r: "alloc_seq alloc ns u = Inr (cs, s')" and bs: "bs = (pa, unat n) # cs"
    by auto
  from alloc_step [OF Cons.prems(1) _ a] Cons.prems(2)
  have u: "inv u" "page_block pa (unat n) \<subseteq> free_bytes s"
    "free_bytes u = free_bytes s - page_block pa (unat n)" "pages_left s = pages_left u + unat n"
    by simp_all
  from Cons.IH [OF u(1) _ r] Cons.prems(2)
  have ih: "inv s'" "map snd cs = map unat ns" "pages_left u = pages_left s' + sum_list (map unat ns)"
    "\<forall>(p, n) \<in> set cs. page_block p n \<subseteq> free_bytes u - free_bytes s'"
    "free_bytes s' \<subseteq> free_bytes u"
    "sorted_wrt (\<lambda>(p, n) (q, m). page_block p n \<inter> page_block q m = {}) cs"
    by simp_all
  then show ?case using u by (fastforce simp: bs)
qed

lemma seq_total:
  assumes "inv s" and "\<forall>n \<in> set ns. unat n < 2 ^ 51"
    and "sum_list (map unat ns) \<le> pages_left s"
  shows "\<exists>bs s'. alloc_seq alloc ns s = Inr (bs, s')"
  using assms
proof (induction ns arbitrary: s)
  case Nil
  then show ?case by simp
next
  case (Cons n ns)
  from alloc_fits [of s n] Cons.prems obtain pa u where a: "alloc n s = Inr (pa, u)" by auto
  from alloc_step [OF Cons.prems(1) _ a] Cons.prems Cons.IH [of u] show ?case
    by (fastforce simp: a)
qed

end

section \<open>Both pools satisfy the contract\<close>

text \<open>
  A descriptor over the memory at \<open>base\<close> is well-formed when the pool is page aligned, lies in the
  56-bit physical address space and the used pages fit into it.
\<close>

definition desc_ok :: "paddr \<Rightarrow> pool_desc_t \<Rightarrow> bool" where
  "desc_ok base d \<longleftrightarrow>
     unat base + unat (pool_offset d) + unat (pool_size d) \<le> 2 ^ 56 \<and>
     4096 dvd unat base + unat (pool_offset d) \<and> 4096 dvd unat (pool_size d) \<and>
     4096 * unat (used_page_count d) \<le> unat (pool_size d)"

definition desc_free :: "paddr \<Rightarrow> pool_desc_t \<Rightarrow> nat set" where
  "desc_free base d =
     {unat base + unat (pool_offset d) + 4096 * unat (used_page_count d)
      ..< unat base + unat (pool_offset d) + unat (pool_size d)}"

definition desc_left :: "pool_desc_t \<Rightarrow> nat" where
  "desc_left d = unat (pool_size d) div 4096 - unat (used_page_count d)"

definition smode_inv :: "mm_state \<Rightarrow> bool" where
  "smode_inv s \<longleftrightarrow> desc_ok (get_emod_manager_pa_start s) (smode_pool_desc s)"

definition smode_free :: "mm_state \<Rightarrow> nat set" where
  "smode_free s = desc_free (get_emod_manager_pa_start s) (smode_pool_desc s)"

definition umode_inv :: "mm_state \<Rightarrow> bool" where
  "umode_inv s \<longleftrightarrow> desc_ok (get_umode_pool_pa_aligned s) (umode_pool_desc s)"

definition umode_free :: "mm_state \<Rightarrow> nat set" where
  "umode_free s = desc_free (get_umode_pool_pa_aligned s) (umode_pool_desc s)"

lemma used_plus:
  assumes "desc_ok base d" and "unat n < 2 ^ 51"
  shows "unat (used_page_count d + n) = unat (used_page_count d) + unat n"
    and "unat ((used_page_count d + n) * PAGE_SIZE) = 4096 * (unat (used_page_count d) + unat n)"
proof -
  have u: "unat (used_page_count d) < 2 ^ 45"
    using assms(1) by (simp add: desc_ok_def)
  show *: "unat (used_page_count d + n) = unat (used_page_count d) + unat n"
    by (rule unat_add_less) (use u assms(2) in simp)
  show "unat ((used_page_count d + n) * PAGE_SIZE) = 4096 * (unat (used_page_count d) + unat n)"
    by (subst unat_mult_less) (use u assms(2) in \<open>simp_all add: * layout_defs\<close>)
qed

lemma desc_overflow_iff:
  assumes "desc_ok base d" and "unat n < 2 ^ 51"
  shows "(used_page_count d + n) * PAGE_SIZE > pool_size d \<longleftrightarrow> desc_left d < unat n"
proof -
  obtain k where k: "unat (pool_size d) = 4096 * k"
    using assms(1) by (auto simp: desc_ok_def)
  then show ?thesis using assms
    by (auto simp: word_less_nat_alt used_plus [OF assms] desc_left_def desc_ok_def)
qed

lemma pool_top_unat:
  assumes "desc_ok base d"
  shows "unat (base + pool_offset d + used_page_count d * PAGE_SIZE)
    = unat base + unat (pool_offset d) + 4096 * unat (used_page_count d)"
proof -
  have m: "unat (used_page_count d * PAGE_SIZE) = 4096 * unat (used_page_count d)"
    using used_plus(2) [OF assms, of 0] by simp
  have a: "unat (base + pool_offset d) = unat base + unat (pool_offset d)"
    by (rule unat_add_less) (use assms in \<open>simp add: desc_ok_def\<close>)
  show ?thesis
    by (subst unat_add_less) (use assms in \<open>simp_all add: m a desc_ok_def\<close>)
qed

lemma desc_take:
  assumes "desc_ok base d" and "unat n < 2 ^ 51" and "unat n \<le> desc_left d"
  defines "pa \<equiv> base + pool_offset d + used_page_count d * PAGE_SIZE"
    and "d' \<equiv> d\<lparr>used_page_count := used_page_count d + n\<rparr>"
  shows "desc_ok base d' \<and> page_block pa (unat n) \<subseteq> desc_free base d
    \<and> desc_free base d' = desc_free base d - page_block pa (unat n)
    \<and> desc_left d = desc_left d' + unat n"
proof -
  obtain k where k: "unat (pool_size d) = 4096 * k"
    using assms(1) by (auto simp: desc_ok_def)
  note eqs = used_plus(1) [OF assms(1,2)] pool_top_unat [OF assms(1), folded pa_def]
  show ?thesis using assms(1,3) k
    by (auto simp: desc_ok_def desc_free_def desc_left_def page_block_def eqs d'_def)
qed

lemma alloc_smode_page_eq:
  "alloc_smode_page n s =
    (let d = smode_pool_desc s in
     if (used_page_count d + n) * PAGE_SIZE > pool_size d then panic ''Pool out of pages!''
     else Inr (get_emod_manager_pa_start s + pool_offset d + used_page_count d * PAGE_SIZE,
       s\<lparr>smode_pool_desc := d\<lparr>used_page_count := used_page_count d + n\<rparr>\<rparr>))"
  by (simp add: alloc_smode_page_def alloc_page_def get_pool_top_def get_used_page_count_def
      set_used_page_count_def Let_def)

lemma alloc_umode_page_eq:
  "alloc_umode_page n s =
    (let d = umode_pool_desc s in
     if (used_page_count d + n) * PAGE_SIZE > pool_size d then panic ''Pool out of pages!''
     else Inr (get_umode_pool_pa_aligned s + pool_offset d + used_page_count d * PAGE_SIZE,
       s\<lparr>umode_pool_desc := d\<lparr>used_page_count := used_page_count d + n\<rparr>\<rparr>))"
  by (simp add: alloc_umode_page_def alloc_page_def get_pool_top_def get_used_page_count_def
      set_used_page_count_def Let_def SMODE_POOL_def UMODE_POOL_def)

lemma get_emod_manager_pa_start_cong:
  "satp s' = satp s \<Longrightarrow> emod_manager_pa_start s' = emod_manager_pa_start s \<Longrightarrow>
   get_emod_manager_pa_start s' = get_emod_manager_pa_start s"
  by (simp add: get_emod_manager_pa_start_def Let_def)

lemma smode_pool_upd_base [simp]:
  "get_emod_manager_pa_start (s\<lparr>smode_pool_desc := d\<rparr>) = get_emod_manager_pa_start s"
  "get_emod_manager_pa_start (s\<lparr>umode_pool_desc := d\<rparr>) = get_emod_manager_pa_start s"
  "get_emod_manager_pa_start (s\<lparr>pte_mem := m\<rparr>) = get_emod_manager_pa_start s"
  by (simp_all add: get_emod_manager_pa_start_def Let_def)

interpretation smode: page_allocator alloc_smode_page smode_inv smode_free
  "\<lambda>s. desc_left (smode_pool_desc s)"
proof (unfold_locales, goal_cases)
  case (1 s n pa s')
  then show ?case
    using desc_take [of "get_emod_manager_pa_start s" "smode_pool_desc s" n]
    by (auto simp: alloc_smode_page_eq Let_def smode_inv_def smode_free_def not_less
        desc_overflow_iff split: if_splits)
next
  case (2 s n)
  then show ?case
    by (auto simp: alloc_smode_page_eq Let_def smode_inv_def desc_overflow_iff not_less)
qed

interpretation umode: page_allocator alloc_umode_page umode_inv umode_free
  "\<lambda>s. desc_left (umode_pool_desc s)"
proof (unfold_locales, goal_cases)
  case (1 s n pa s')
  then show ?case
    using desc_take [of "get_umode_pool_pa_aligned s" "umode_pool_desc s" n]
    by (auto simp: alloc_umode_page_eq Let_def umode_inv_def umode_free_def not_less
        get_umode_pool_pa_aligned_def desc_overflow_iff split: if_splits)
next
  case (2 s n)
  then show ?case
    by (auto simp: alloc_umode_page_eq Let_def umode_inv_def desc_overflow_iff not_less)
qed


section \<open>Properties\<close>

definition sample_mm :: mm_state where
  "sample_mm = \<lparr>umode_pool_desc = \<lparr>pool_offset = 0x100000, pool_size = 0x100000, used_page_count = 0\<rparr>,
     smode_pool_desc = \<lparr>pool_offset = 0x10000, pool_size = 0x1f0000, used_page_count = 0\<rparr>,
     emod_manager_pa_start = 0x180000000, umode_pool_pa_aligned = 0x190000000,
     emodule_brk = EMOD_INIT_BRK, prog_brk = 0xfff00000, satp = 0, page_table_root = 0x180008000,
     pte_mem = (\<lambda>a. zero_pte), ebi_log = []\<rparr>"

text \<open>
  C2. Serving any sequence of page requests that fits into a pool succeeds, and the blocks it
  returns are pairwise disjoint, come out of the free bytes of the pool, are never handed out
  again, and leave exactly the remaining pages free. This holds for the S-mode pool, from
  which page tables, module code and stacks come, and for the U-mode pool of the payload.
\<close>

theorem pool_requests_disjoint:
  assumes "smode_inv s" and "umode_inv s" and "\<forall>n \<in> set ns. unat n < 2 ^ 51"
  shows "(sum_list (map unat ns) \<le> desc_left (smode_pool_desc s) \<longrightarrow>
      (\<exists>bs s'. alloc_seq alloc_smode_page ns s = Inr (bs, s') \<and> smode_inv s' \<and>
        map snd bs = map unat ns \<and>
        desc_left (smode_pool_desc s) = desc_left (smode_pool_desc s') + sum_list (map unat ns) \<and>
        (\<forall>(p, n) \<in> set bs. page_block p n \<subseteq> smode_free s - smode_free s') \<and>
        sorted_wrt (\<lambda>(p, n) (q, m). page_block p n \<inter> page_block q m = {}) bs)) \<and>
     (sum_list (map unat ns) \<le> desc_left (umode_pool_desc s) \<longrightarrow>
      (\<exists>bs s'. alloc_seq alloc_umode_page ns s = Inr (bs, s') \<and> umode_inv s' \<and>
        map snd bs = map unat ns \<and>
        desc_left (umode_pool_desc s) = desc_left (umode_pool_desc s') + sum_list (map unat ns) \<and>
        (\<forall>(p, n) \<in> set bs. page_block p n \<subseteq> umode_free s - umode_free s') \<and>
        sorted_wrt (\<lambda>(p, n) (q, m). page_block p n \<inter> page_block q m = {}) bs))"
  using smode.seq_total [OF assms(1,3)] smode.seq_sound [OF assms(1,3)]
    umode.seq_total [OF assms(2,3)] umode.seq_sound [OF assms(2,3)] by blast

lemma sample_mm_inv: "smode_inv sample_mm" "umode_inv sample_mm"
  "desc_left (smode_pool_desc sample_mm) = 0x1f0" "desc_left (umode_pool_desc sample_mm) = 0x100"
  by (simp_all add: sample_mm_def smode_inv_def umode_inv_def desc_ok_def desc_left_def
      get_emod_manager_pa_start_def get_umode_pool_pa_aligned_def)

theorem pool_requests_disjoint_witness:
  "smode_inv sample_mm \<and> umode_inv sample_mm \<and>
   (\<exists>bs s'. alloc_seq alloc_smode_page [3, 5] sample_mm = Inr (bs, s') \<and> map snd bs = [3, 5] \<and>
      sorted_wrt (\<lambda>(p, n) (q, m). page_block p n \<inter> page_block q m = {}) bs) \<and>
   (\<exists>bs s'. alloc_seq alloc_umode_page [3, 5] sample_mm = Inr (bs, s') \<and> map snd bs = [3, 5] \<and>
      sorted_wrt (\<lambda>(p, n) (q, m). page_block p n \<inter> page_block q m = {}) bs)"
  using pool_requests_disjoint [of sample_mm "[3, 5]"] by (auto simp: sample_mm_inv)

text \<open>
  C13. A request whose page count together with the pages already in use reaches
  \<open>2 ^ 52\<close> makes the byte count in the bounds check of \<open>alloc_page\<close> wrap around to 0: the check
  passes whatever the size of the pool, and the counter of used pages is set to \<open>2 ^ 52\<close>, so the
  available size that the pool reports afterwards is again its whole size.
\<close>

theorem alloc_page_wraps:
  assumes "n = 2 ^ 52 - used_page_count (smode_pool_desc s)"
  shows "\<exists>pa s'. alloc_smode_page n s = Inr (pa, s') \<and>
    get_smode_page_pool_avail_size s' = pool_size (smode_pool_desc s)"
proof -
  have "(2 ^ 52 * PAGE_SIZE :: u64) = 0" by (simp add: PAGE_SIZE_def)
  then show ?thesis
    by (simp add: assms alloc_smode_page_eq Let_def get_smode_page_pool_avail_size_def del: power_numeral)
qed

theorem alloc_page_wraps_witness:
  "\<exists>pa s'. alloc_smode_page (2 ^ 52) sample_mm = Inr (pa, s') \<and>
    get_smode_page_pool_avail_size s' = 0x1f0000"
  using alloc_page_wraps [of "2 ^ 52" sample_mm] by (simp add: sample_mm_def)

end
