(* ===== verification/Page_Table.thy ===== *)
theory Page_Table
  imports Page_Pool "HOL-Library.Sublist"
begin

text \<open>
  The Sv39 page table of \<^verbatim>\<open>emod_manager/memory/page_table.c\<close>: descending to the leaf entry of an
  address (allocating tables on the way), mapping, unmapping, the linear map, and the walk
  that translates an address.

  Entries live in \<open>pte_mem\<close>, keyed by their physical address. Once \<^verbatim>\<open>satp\<close> is set the code adds
  \<open>linear_map_offset\<close> to the physical address of a table before it dereferences the pointer, and
  the linear map (see \<open>setup_linear_map\<close>) translates that address back; the model names an
  entry by the physical address in both cases. The TLB is not part of the state: every
  update of an entry is followed by the \<^verbatim>\<open>sfence.vma\<close> of its address.

  The page table is a trie: \<open>view s [vpn0, vpn1, vpn2]\<close> is the entry that the code finds when it
  descends along the indices. \<open>pt_inv\<close> says that the tables are distinct pages outside the free part
  of the S-mode pool and that free pages and invalid entries are all zero, which the code
  relies on as it never clears a fresh table. Under \<open>pt_inv\<close> each operation is an update of
  the trie at one path.
\<close>

section \<open>Operations\<close>

definition GET_PTE_NO_ALLOC :: u8 where "GET_PTE_NO_ALLOC = 0"
definition GET_PTE_ALLOC :: u8 where "GET_PTE_ALLOC = 1"

definition entry :: "paddr \<Rightarrow> u64 \<Rightarrow> paddr" where
  "entry table_root vpn = table_root + 8 * vpn"

definition write_pte :: "paddr \<Rightarrow> pte_t \<Rightarrow> mm_state \<Rightarrow> mm_state" where
  "write_pte a x s = s\<lparr>pte_mem := (pte_mem s)(a := x)\<rparr>"

definition pte_next :: "pte_t \<Rightarrow> paddr" where
  "pte_next pte = push_bit PAGE_SHIFT (ucast (pte_ppn pte))"

text \<open>
  The loop of \<open>get_leaf_pte\<close>, which runs \<open>level\<close> times; the loop variable starts at 2 and is
  truncated to a byte by the call of \<open>get_vpn\<close>.
\<close>

fun leaf_table :: "sv39_vaddr \<Rightarrow> u8 \<Rightarrow> nat \<Rightarrow> u8 \<Rightarrow> paddr \<Rightarrow> mm_state \<Rightarrow> (paddr \<times> mm_state) res" where
  "leaf_table va alloc 0 i table_root s = Inr (table_root, s)"
| "leaf_table va alloc (Suc k) i table_root s =
     (let pte = entry table_root (get_vpn va i) in
      if \<not> pte_v (pte_mem s pte) then
        if alloc \<noteq> GET_PTE_ALLOC then panic ''Page not mapped!''
        else rbind (alloc_smode_page 1 s) (\<lambda>(next_table_pa, s').
          leaf_table va alloc k (i - 1) next_table_pa
            (write_pte pte ((pte_mem s' pte)\<lparr>pte_ppn := ucast (drop_bit PAGE_SHIFT next_table_pa),
               pte_v := True\<rparr>) s'))
      else leaf_table va alloc k (i - 1) (pte_next (pte_mem s pte)) s)"

definition get_leaf_pte :: "vaddr \<Rightarrow> u8 \<Rightarrow> u8 \<Rightarrow> mm_state \<Rightarrow> (paddr \<times> mm_state) res" where
  "get_leaf_pte vaddr level alloc s =
     (let va = va_to_sv39 vaddr in
      rbind (leaf_table va alloc (unat level) 2 (page_table_root s) s) (\<lambda>(table_root, s').
      let vpn = get_vpn va (2 - level); pte = entry table_root vpn in
      if \<not> pte_v (pte_mem s' pte) \<and> alloc \<noteq> GET_PTE_ALLOC then panic ''Page not mapped!''
      else Inr (pte, s')))"

definition init_satp :: "mm_state \<Rightarrow> u64" where
  "init_satp s =
     satp_to_u64 \<lparr>satp_ppn = ucast (drop_bit PAGE_SHIFT (page_table_root s)), satp_asid = 0,
       satp_mode = SATP_SV39\<rparr>"

definition set_leaf :: "u8 \<Rightarrow> paddr \<Rightarrow> pte_t \<Rightarrow> pte_t" where
  "set_leaf flags paddr pte =
     pte\<lparr>pte_r := (flags AND PTE_R \<noteq> 0 \<or> pte_r pte), pte_w := (flags AND PTE_W \<noteq> 0 \<or> pte_w pte),
       pte_x := (flags AND PTE_X \<noteq> 0 \<or> pte_x pte), pte_u := (flags AND PTE_U \<noteq> 0 \<or> pte_u pte),
       pte_g := (flags AND PTE_G \<noteq> 0 \<or> pte_g pte), pte_v := True, pte_a := True, pte_d := True,
       pte_ppn := pa_ppn (pa_to_sv39 paddr)\<rparr>"

definition map_page :: "vaddr \<Rightarrow> paddr \<Rightarrow> u8 \<Rightarrow> u8 \<Rightarrow> mm_state \<Rightarrow> mm_state res" where
  "map_page vaddr paddr flags level s =
     rbind (get_leaf_pte vaddr level GET_PTE_ALLOC s) (\<lambda>(pte, s').
     Inr (write_pte pte (set_leaf flags paddr (pte_mem s' pte)) s'))"

definition unmap_page :: "vaddr \<Rightarrow> u8 \<Rightarrow> mm_state \<Rightarrow> mm_state res" where
  "unmap_page vaddr level s =
     rbind (get_leaf_pte vaddr level GET_PTE_NO_ALLOC s) (\<lambda>(pte, s').
     Inr (write_pte pte zero_pte s'))"

definition GIGA_PAGE_SIZE :: u64 where "GIGA_PAGE_SIZE = 0x40000000"

definition setup_linear_map :: "mm_state \<Rightarrow> mm_state res" where
  "setup_linear_map s =
     rbind (rfor 0 (unat (ROUNDUP linear_map_size GIGA_PAGE_SIZE div GIGA_PAGE_SIZE))
       (\<lambda>i (paddr, s).
         let vaddr = paddr + linear_map_offset in
         rbind (map_page vaddr paddr (PTE_R OR PTE_W) SV39_LEVEL_GIGA s) (\<lambda>s'.
         Inr (paddr + GIGA_PAGE_SIZE, s')))
       (linear_map_start, s)) (\<lambda>(paddr, s').
     Inr s')"

text \<open>
  The loop \<^verbatim>\<open>for (i = 0; i < n; i++) map_page(va + i * step, pa + i * step, flags, level)\<close> that
  \<^verbatim>\<open>memory.c\<close>, \<^verbatim>\<open>page_pool.c\<close> and \<^verbatim>\<open>elf_loader.c\<close> write out for each region they map.
\<close>

definition map_range :: "vaddr \<Rightarrow> paddr \<Rightarrow> u8 \<Rightarrow> u8 \<Rightarrow> u64 \<Rightarrow> nat \<Rightarrow> mm_state \<Rightarrow> mm_state res" where
  "map_range va pa flags level step n s =
     rfor 0 n (\<lambda>i. map_page (va + of_nat i * step) (pa + of_nat i * step) flags level) s"

record walk_page_table_result =
  res_level :: u8
  res_pte :: pte_t

definition MASK_L0 :: u64 where "MASK_L0 = 0x1ff000"
definition MASK_L1 :: u64 where "MASK_L1 = 0x3fe00000"
definition MASK_L2 :: u64 where "MASK_L2 = 0x7fc0000000"

definition layer_offset :: "vaddr \<Rightarrow> nat \<Rightarrow> u64" where
  "layer_offset va i =
     (if i = 0 then drop_bit 30 (va AND MASK_L2)
      else if i = 1 then drop_bit 21 (va AND MASK_L1)
      else drop_bit 12 (va AND MASK_L0))"

definition not_valid :: walk_page_table_result where
  "not_valid = \<lparr>res_level = -1, res_pte = zero_pte\<rparr>"

text \<open>The loop of \<open>walk_page_table\<close> from iteration \<open>i\<close>, with \<open>k\<close> iterations to go.\<close>

fun walk_loop :: "vaddr \<Rightarrow> nat \<Rightarrow> nat \<Rightarrow> paddr \<Rightarrow> mm_state \<Rightarrow> walk_page_table_result" where
  "walk_loop va i 0 root s = not_valid"
| "walk_loop va i (Suc k) root s =
     (let tmp_entry = pte_mem s (entry root (layer_offset va i)) in
      if \<not> pte_v tmp_entry then not_valid
      else if pte_r tmp_entry \<or> pte_w tmp_entry \<or> pte_x tmp_entry then
        \<lparr>res_level = of_nat i, res_pte = tmp_entry\<rparr>
      else walk_loop va (Suc i) k (pte_next tmp_entry) s)"

definition walk_page_table :: "vaddr \<Rightarrow> mm_state \<Rightarrow> walk_page_table_result" where
  "walk_page_table va s = walk_loop va 0 3 (page_table_root s) s"

definition get_pa :: "vaddr \<Rightarrow> mm_state \<Rightarrow> paddr" where
  "get_pa va s =
     (let result = walk_page_table va s in
      if res_level result = -1 then 0
      else
        let level = res_level result; pte = res_pte result;
            base = pte_next pte;
            number_of_ones = of_nat PAGE_SHIFT + (2 - level) * of_nat SV39_VPN_LEN :: u8;
            mask = scast (push_bit (unat number_of_ones) (1 :: u32) - 1) :: u64;
            offset = mask AND va
        in base + offset)"

section \<open>The table as a trie\<close>

definition is_leaf :: "pte_t \<Rightarrow> bool" where
  "is_leaf e \<longleftrightarrow> pte_v e \<and> (pte_r e \<or> pte_w e \<or> pte_x e)"

definition is_table :: "pte_t \<Rightarrow> bool" where
  "is_table e \<longleftrightarrow> pte_v e \<and> \<not> (pte_r e \<or> pte_w e \<or> pte_x e)"

fun table_at :: "mm_state \<Rightarrow> 9 word list \<Rightarrow> paddr option" where
  "table_at s [] = Some (page_table_root s)"
| "table_at s (i # p) =
     (case table_at s p of
        None \<Rightarrow> None
      | Some t \<Rightarrow> let e = pte_mem s (entry t (ucast i)) in
          if is_table e then Some (pte_next e) else None)"

fun view :: "mm_state \<Rightarrow> 9 word list \<Rightarrow> pte_t" where
  "view s [] = zero_pte"
| "view s (i # p) =
     (case table_at s p of None \<Rightarrow> zero_pte | Some t \<Rightarrow> pte_mem s (entry t (ucast i)))"

definition pt_inv :: "mm_state \<Rightarrow> bool" where
  "pt_inv s \<longleftrightarrow>
     smode_inv s \<and> 4096 dvd unat (page_table_root s) \<and> unat (page_table_root s) < 2 ^ 56 \<and>
     (\<forall>p t. length p \<le> 2 \<longrightarrow> table_at s p = Some t \<longrightarrow> page_block t 1 \<inter> smode_free s = {}) \<and>
     (\<forall>p q t. length p \<le> 2 \<longrightarrow> length q \<le> 2 \<longrightarrow> table_at s p = Some t \<longrightarrow> table_at s q = Some t \<longrightarrow> p = q) \<and>
     (\<forall>a. unat a \<in> smode_free s \<longrightarrow> pte_mem s a = zero_pte) \<and>
     (\<forall>q. length q \<le> 3 \<longrightarrow> \<not> pte_v (view s q) \<longrightarrow> view s q = zero_pte) \<and>
     (\<forall>q. length q = 3 \<longrightarrow> \<not> is_table (view s q))"

lemma zero_pte_simps [simp]: "\<not> pte_v zero_pte" "\<not> is_table zero_pte" "\<not> is_leaf zero_pte"
  by (simp_all add: zero_pte_def is_table_def is_leaf_def)

lemma table_at_view: "table_at s (i # p) = (if is_table (view s (i # p)) then Some (pte_next (view s (i # p))) else None)"
  by (simp add: Let_def split: option.splits)

declare table_at.simps(2) [simp del]

lemma unat_pte_next: "unat (pte_next e) = 4096 * unat (pte_ppn e)"
proof -
  have "unat (pte_ppn e) < 2 ^ 44" using unat_bound [of "pte_ppn e"] by simp
  then show ?thesis
    by (simp add: pte_next_def PAGE_SHIFT_def push_bit_eq_mult unat_word_ariths unat_ucast)
qed

lemma table_aligned:
  assumes "pt_inv s" and "table_at s p = Some t"
  shows "4096 dvd unat t \<and> unat t + 4096 \<le> 2 ^ 56"
proof (cases p)
  case Nil
  then show ?thesis using assms by (auto simp: pt_inv_def)
next
  case (Cons i p')
  then have t: "t = pte_next (view s p)" using assms by (auto simp: table_at_view split: if_splits)
  have "unat (pte_ppn (view s p)) < 2 ^ 44" using unat_bound [of "pte_ppn (view s p)"] by simp
  then show ?thesis by (simp add: t unat_pte_next)
qed

lemma unat_entry:
  assumes "unat t + 4096 \<le> 2 ^ 56"
  shows "unat (entry t (ucast (i :: 9 word))) = unat t + 8 * unat i"
proof -
  have i: "unat i < 512" using unat_bound [of i] by simp
  have u: "unat (ucast i :: u64) = unat i" using i by (simp add: unat_ucast)
  have m: "unat (8 * ucast i :: u64) = 8 * unat i"
    by (subst unat_mult_less) (use i u in simp_all)
  show ?thesis unfolding entry_def
    by (subst unat_add_less) (use assms i m in simp_all)
qed

lemma entry_inj:
  assumes "4096 dvd unat t \<and> unat t + 4096 \<le> 2 ^ 56" "4096 dvd unat t' \<and> unat t' + 4096 \<le> 2 ^ 56"
  shows "entry t (ucast (i :: 9 word)) = entry t' (ucast (j :: 9 word)) \<longleftrightarrow> t = t' \<and> i = j"
proof
  assume "entry t (ucast i) = entry t' (ucast j)"
  then have "unat (entry t (ucast i)) = unat (entry t' (ucast j))" by simp
  then have e: "unat t + 8 * unat i = unat t' + 8 * unat j" using assms by (simp add: unat_entry)
  have ij: "unat i < 512" "unat j < 512"
    using unat_bound [of i] unat_bound [of j] by simp_all
  obtain k k' where k: "unat t = 4096 * k" "unat t' = 4096 * k'" using assms by (meson dvdE)
  with e ij have "k = k'" by linarith
  with e k have "unat t = unat t'" "unat i = unat j" by simp_all
  then show "t = t' \<and> i = j" by (simp add: word_unat_eq_iff)
qed simp

lemma entry_in_block:
  assumes "unat t + 4096 \<le> 2 ^ 56"
  shows "unat (entry t (ucast (i :: 9 word))) \<in> page_block t 1"
  using unat_bound [of i] by (simp add: unat_entry [OF assms] page_block_def)

text \<open>Distinct paths lead to distinct entries.\<close>

lemma entry_path_inj:
  assumes "pt_inv s" "table_at s p = Some t" "table_at s q = Some t'" "length p \<le> 2" "length q \<le> 2"
  shows "entry t (ucast i) = entry t' (ucast j) \<longleftrightarrow> i # p = j # q"
proof
  assume "entry t (ucast i) = entry t' (ucast j)"
  then have "t = t'" "i = j" using entry_inj table_aligned assms by metis+
  then show "i # p = j # q" using assms unfolding pt_inv_def by blast
next
  assume "i # p = j # q"
  then show "entry t (ucast i) = entry t' (ucast j)" using assms by simp
qed

lemma write_pte_simps [simp]:
  "pte_mem (write_pte a x s) = (pte_mem s)(a := x)"
  "page_table_root (write_pte a x s) = page_table_root s"
  "smode_pool_desc (write_pte a x s) = smode_pool_desc s"
  "smode_inv (write_pte a x s) = smode_inv s"
  "smode_free (write_pte a x s) = smode_free s"
  by (simp_all add: write_pte_def smode_inv_def smode_free_def)

lemma table_at_write:
  assumes "pt_inv s" "table_at s p = Some t" "length p \<le> 2"
    and nt: "length p < 2 \<longrightarrow> \<not> is_table (view s (i # p)) \<and> \<not> is_table x"
  shows "length q \<le> 2 \<Longrightarrow> table_at (write_pte (entry t (ucast i)) x s) q = table_at s q"
proof (induction q)
  case (Cons j q)
  show ?case
  proof (cases "table_at s q")
    case None
    with Cons show ?thesis by (simp add: table_at.simps(2))
  next
    case (Some t')
    have "length q < 2" using Cons.prems by simp
    with entry_path_inj [OF assms(1) Some assms(2), of j i] assms(3) nt
    have "entry t' (ucast j) = entry t (ucast i) \<Longrightarrow> \<not> is_table (pte_mem s (entry t' (ucast j))) \<and> \<not> is_table x"
      using Some by auto
    with Cons Some show ?thesis by (auto simp: table_at.simps(2))
  qed
qed simp

lemma view_write:
  assumes "pt_inv s" "table_at s p = Some t" "length p \<le> 2"
    and nt: "length p < 2 \<longrightarrow> \<not> is_table (view s (i # p)) \<and> \<not> is_table x"
    and q: "length q \<le> 3"
  shows "view (write_pte (entry t (ucast i)) x s) q = (if q = i # p then x else view s q)"
proof (cases q)
  case (Cons j q')
  then have "length q' \<le> 2" using q by simp
  with table_at_write [OF assms(1-4)] entry_path_inj [OF assms(1) _ assms(2), of q' _ j i] assms(2,3)
  show ?thesis by (auto simp: Cons split: option.splits)
qed simp

lemma pt_inv_write:
  assumes "pt_inv s" "table_at s p = Some t" "length p \<le> 2"
    and nt: "length p < 2 \<longrightarrow> \<not> is_table (view s (i # p)) \<and> \<not> is_table x"
    and x: "\<not> pte_v x \<longrightarrow> x = zero_pte" "\<not> is_table x"
  shows "pt_inv (write_pte (entry t (ucast i)) x s)"
proof -
  have "unat (entry t (ucast i)) \<notin> smode_free s"
    using entry_in_block [of t i] table_aligned [OF assms(1,2)] assms(1-3) by (auto simp: pt_inv_def)
  then show ?thesis
    using assms(1) x
    by (auto simp: pt_inv_def [of "write_pte _ _ _"] table_at_write [OF assms(1-4)] view_write [OF assms(1-4)])
      (auto simp: pt_inv_def)
qed

text \<open>Facts on the page that a successful allocation returns.\<close>

lemma alloc_one:
  assumes "smode_inv s" "alloc_smode_page 1 s = Inr (n, s1)"
  shows "smode_inv s1" "page_block n 1 \<subseteq> smode_free s" "smode_free s1 = smode_free s - page_block n 1"
    "desc_left (smode_pool_desc s) = Suc (desc_left (smode_pool_desc s1))"
    "pte_mem s1 = pte_mem s" "page_table_root s1 = page_table_root s"
    "4096 dvd unat n" "unat n + 4096 \<le> 2 ^ 56"
proof -
  have one: "unat (1 :: u64) < 2 ^ 51" by simp
  from smode.alloc_step [OF assms(1) one assms(2)]
  show "smode_inv s1" "page_block n 1 \<subseteq> smode_free s" "smode_free s1 = smode_free s - page_block n 1"
    "desc_left (smode_pool_desc s) = Suc (desc_left (smode_pool_desc s1))" by simp_all
  from assms(2) show "pte_mem s1 = pte_mem s" "page_table_root s1 = page_table_root s"
    by (auto simp: alloc_smode_page_eq Let_def split: if_splits)
  have n: "unat n = unat (get_emod_manager_pa_start s) + unat (pool_offset (smode_pool_desc s))
      + 4096 * unat (used_page_count (smode_pool_desc s))"
    using assms pool_top_unat [of "get_emod_manager_pa_start s" "smode_pool_desc s"]
    by (auto simp: alloc_smode_page_eq Let_def smode_inv_def split: if_splits)
  then show "4096 dvd unat n" using assms(1) by (simp add: smode_inv_def desc_ok_def)
  have "desc_left (smode_pool_desc s) \<ge> 1"
    using smode.alloc_fits [OF assms(1) one] assms(2) by auto
  then show "unat n + 4096 \<le> 2 ^ 56"
    using n assms(1) by (auto simp: smode_inv_def desc_ok_def desc_left_def)
qed

lemma pte_next_alloc:
  assumes "4096 dvd unat n" "unat n + 4096 \<le> 2 ^ 56"
  shows "pte_next (e\<lparr>pte_ppn := ucast (drop_bit PAGE_SHIFT n), pte_v := True\<rparr>) = n"
proof (rule word_unat_eq_iff [THEN iffD2])
  have "unat (drop_bit 12 n) = unat n div 4096"
    by (simp add: drop_bit_eq_div unat_div_u64)
  then have "unat (ucast (drop_bit 12 n) :: 44 word) = unat n div 4096"
    using assms(2) by (simp add: unat_ucast)
  then show "unat (pte_next (e\<lparr>pte_ppn := ucast (drop_bit PAGE_SHIFT n), pte_v := True\<rparr>)) = unat n"
    using assms(1) by (simp add: unat_pte_next PAGE_SHIFT_def)
qed

text \<open>
  Hanging a freshly allocated table below an invalid entry: the trie changes at that entry
  only, since the fresh page holds zero entries.
\<close>

definition link_table :: "paddr \<Rightarrow> paddr \<Rightarrow> mm_state \<Rightarrow> mm_state" where
  "link_table a n s = write_pte a ((pte_mem s a)\<lparr>pte_ppn := ucast (drop_bit PAGE_SHIFT n), pte_v := True\<rparr>) s"

lemma is_table_linked [simp]: "is_table (zero_pte\<lparr>pte_ppn := x, pte_v := True\<rparr>)"
  by (simp add: is_table_def zero_pte_def)

lemma pt_inv_zero: "pt_inv s \<Longrightarrow> length q \<le> 3 \<Longrightarrow> \<not> pte_v (view s q) \<Longrightarrow> view s q = zero_pte"
  unfolding pt_inv_def by blast

lemma fresh_entry:
  assumes "pt_inv s" "table_at s p = Some t" "length p \<le> 2" "alloc_smode_page 1 s = Inr (n, s1)"
  shows "unat (entry n (ucast (j :: 9 word))) \<in> smode_free s" "pte_mem s (entry n (ucast j)) = zero_pte"
    "entry n (ucast j) \<noteq> entry t (ucast (i :: 9 word))"
proof -
  have inv: "smode_inv s" using assms(1) by (simp add: pt_inv_def)
  note one = alloc_one [OF inv assms(4)]
  show free: "unat (entry n (ucast j)) \<in> smode_free s"
    using one(2) entry_in_block [OF one(8), of j] by auto
  then show "pte_mem s (entry n (ucast j)) = zero_pte" using assms(1) by (simp add: pt_inv_def)
  have "unat (entry t (ucast i)) \<in> page_block t 1" "page_block t 1 \<inter> smode_free s = {}"
    using entry_in_block [of t i] table_aligned [OF assms(1,2)] assms(1-3) by (auto simp: pt_inv_def)
  with free show "entry n (ucast j) \<noteq> entry t (ucast i)" by (metis disjoint_iff)
qed

lemma link_table_at:
  assumes "pt_inv s" "table_at s p = Some t" "length p \<le> 1" "\<not> pte_v (view s (i # p))"
    and al: "alloc_smode_page 1 s = Inr (n, s1)"
  shows "length q \<le> 2 \<Longrightarrow>
    table_at (link_table (entry t (ucast i)) n s1) q = (if q = i # p then Some n else table_at s q)"
proof (induction q)
  case Nil
  show ?case using alloc_one [OF _ al] assms(1) by (simp add: link_table_def pt_inv_def)
next
  case (Cons j q)
  have inv: "smode_inv s" using assms(1) by (simp add: pt_inv_def)
  note one = alloc_one [OF inv al]
  have zero: "view s (i # p) = zero_pte" using pt_inv_zero [OF assms(1) _ assms(4)] assms(3) by simp
  show ?case
  proof (cases "q = i # p")
    case True
    have "table_at (link_table (entry t (ucast i)) n s1) q = Some n" using Cons True by simp
    then have "table_at (link_table (entry t (ucast i)) n s1) (j # q) = None"
      using fresh_entry(2,3) [OF assms(1,2) _ al] assms(3) one(5)
      by (simp only: table_at.simps(2) [of _ j]) (simp add: link_table_def)
    moreover have "table_at s q = None" using True zero by (simp add: table_at_view)
    then have "table_at s (j # q) = None" by (simp only: table_at.simps(2) option.case)
    ultimately show ?thesis using True by simp
  next
    case False
    show ?thesis
    proof (cases "table_at s q")
      case None
      with Cons False assms(2) show ?thesis by (auto simp: table_at.simps(2))
    next
      case (Some t')
      with entry_path_inj [OF assms(1) Some assms(2), of j i] Cons False assms(2,3) one zero
        pte_next_alloc [OF one(7,8)]
      show ?thesis
        by (auto simp: table_at.simps(2) link_table_def Let_def)
    qed
  qed
qed

lemma link_view:
  assumes "pt_inv s" "table_at s p = Some t" "length p \<le> 1" "\<not> pte_v (view s (i # p))"
    and al: "alloc_smode_page 1 s = Inr (n, s1)" and q: "length q \<le> 3"
  shows "view (link_table (entry t (ucast i)) n s1) q =
    (if q = i # p then zero_pte\<lparr>pte_ppn := ucast (drop_bit PAGE_SHIFT n), pte_v := True\<rparr> else view s q)"
proof (cases q)
  case (Cons j q')
  have inv: "smode_inv s" using assms(1) by (simp add: pt_inv_def)
  note one = alloc_one [OF inv al]
  have zero: "view s (i # p) = zero_pte" using pt_inv_zero [OF assms(1) _ assms(4)] assms(3) by simp
  have len: "length q' \<le> 2" using q Cons by simp
  note tab = link_table_at [OF assms(1-5) len]
  show ?thesis
  proof (cases "q' = i # p")
    case True
    have "table_at s (i # p) = None" using zero by (simp add: table_at_view)
    then show ?thesis using Cons True fresh_entry(2,3) [OF assms(1,2) _ al] assms(3) one tab
      by (simp add: link_table_def)
  next
    case False
    with tab entry_path_inj [OF assms(1) _ assms(2), of q' _ j i] len assms(2,3) one zero
    show ?thesis by (auto simp: Cons link_table_def split: option.splits)
  qed
qed (simp add: link_table_def)

lemma link_inv:
  assumes "pt_inv s" "table_at s p = Some t" "length p \<le> 1" "\<not> pte_v (view s (i # p))"
    and al: "alloc_smode_page 1 s = Inr (n, s1)"
  shows "pt_inv (link_table (entry t (ucast i)) n s1)" (is "pt_inv ?s")
proof -
  have inv: "smode_inv s" using assms(1) by (simp add: pt_inv_def)
  note one = alloc_one [OF inv al]
  note tab = link_table_at [OF assms]
  have disj: "page_block t' 1 \<inter> smode_free s = {}" if "length q \<le> 2" "table_at s q = Some t'" for q t'
    using that assms(1) by (auto simp: pt_inv_def)
  have fresh: "t' \<noteq> n" if "length q \<le> 2" "table_at s q = Some t'" for q t'
  proof
    assume "t' = n"
    moreover have "unat n \<in> page_block n 1" by (simp add: page_block_def)
    ultimately show False using disj [OF that] one(2) by auto
  qed
  have inj: "q = r" if "length q \<le> 2" "length r \<le> 2" "table_at s q = Some t'" "table_at s r = Some t'" for q r t'
    using that assms(1) unfolding pt_inv_def by blast
  have free: "smode_free ?s = smode_free s - page_block n 1" "smode_inv ?s"
    "page_table_root ?s = page_table_root s"
    using one by (simp_all add: link_table_def)
  have mem: "pte_mem ?s a = zero_pte" if "unat a \<in> smode_free ?s" for a
  proof -
    have "unat (entry t (ucast i)) \<notin> smode_free s"
      using entry_in_block [of t i] table_aligned [OF assms(1,2)] disj [OF _ assms(2)] assms(3) by auto
    with that free have "a \<noteq> entry t (ucast i)" "unat a \<in> smode_free s" by auto
    then show ?thesis using assms(1) one(5) by (simp add: link_table_def pt_inv_def)
  qed
  have "page_block t' 1 \<inter> smode_free ?s = {}" if "length q \<le> 2" "table_at ?s q = Some t'" for q t'
    using that disj [of q t'] by (auto simp: tab free split: if_splits)
  moreover have "q = r"
    if "length q \<le> 2" "length r \<le> 2" "table_at ?s q = Some t'" "table_at ?s r = Some t'" for q r t'
    using that inj [of q r t'] fresh [of q n] fresh [of r n] by (auto simp: tab split: if_splits)
  moreover have "view ?s q = zero_pte" if "length q \<le> 3" "\<not> pte_v (view ?s q)" for q
    using that pt_inv_zero [OF assms(1), of q] by (simp add: link_view [OF assms] split: if_splits)
  moreover have "\<not> is_table (view ?s q)" if "length q = 3" for q
    using that assms(1,3) by (auto simp: link_view [OF assms] pt_inv_def)
  moreover have "4096 dvd unat (page_table_root ?s)" "unat (page_table_root ?s) < 2 ^ 56"
    using assms(1) free(3) by (simp_all add: pt_inv_def)
  ultimately show ?thesis
    using free(2) mem unfolding pt_inv_def by blast
qed

section \<open>Virtual addresses as paths\<close>

definition vidx :: "vaddr \<Rightarrow> nat \<Rightarrow> 9 word" where
  "vidx va l = (if l = 0 then vpn2 (va_to_sv39 va) else if l = 1 then vpn1 (va_to_sv39 va)
     else vpn0 (va_to_sv39 va))"

primrec vpath :: "vaddr \<Rightarrow> nat \<Rightarrow> 9 word list" where
  "vpath va 0 = []"
| "vpath va (Suc l) = vidx va l # vpath va l"

lemma length_vpath [simp]: "length (vpath va l) = l"
  by (induction l) simp_all

lemma vpath_3: "vpath va 3 = [vidx va 2, vidx va 1, vidx va 0]"
  by (simp add: numeral_eq_Suc)

lemma vpns:
  "vpn2 (va_to_sv39 va) = ucast (drop_bit 30 va)"
  "vpn1 (va_to_sv39 va) = ucast (drop_bit 21 va)"
  "vpn0 (va_to_sv39 va) = ucast (drop_bit 12 va)"
  by (rule bit_word_eqI; simp add: va_to_sv39_def bit_simps Let_def)+

lemma layer_offset_vidx: "l \<le> 2 \<Longrightarrow> layer_offset va l = ucast (vidx va l)"
proof -
  have m: "bit (511 :: int) n \<longleftrightarrow> n < 9" for n
    using bit_mask_iff [of 9 n, where 'a = int] by (simp add: mask_eq_exp_minus_1)
  show "l \<le> 2 \<Longrightarrow> ?thesis"
    unfolding layer_offset_def vidx_def vpns
    by (rule bit_word_eqI) (auto simp: bit_simps MASK_L0_def MASK_L1_def MASK_L2_def m)
qed

lemma get_vpn_vidx: "l \<le> 2 \<Longrightarrow> get_vpn (va_to_sv39 va) (2 - of_nat l) = ucast (vidx va l)"
  by (auto simp: get_vpn_def vidx_def numeral_2_eq_2 le_Suc_eq)

lemma walk_view:
  "walk_page_table va s =
    (if is_leaf (view s (vpath va 1)) then \<lparr>res_level = 0, res_pte = view s (vpath va 1)\<rparr>
     else if is_leaf (view s (vpath va 2)) then \<lparr>res_level = 1, res_pte = view s (vpath va 2)\<rparr>
     else if is_leaf (view s (vpath va 3)) then \<lparr>res_level = 2, res_pte = view s (vpath va 3)\<rparr>
     else not_valid)"
  by (auto simp: walk_page_table_def numeral_eq_Suc layer_offset_vidx [unfolded numeral_eq_Suc, simplified]
      table_at.simps(2) is_leaf_def is_table_def Let_def)

section \<open>The operations as trie updates\<close>

text \<open>
  \<open>pt_frame k s s'\<close>: only the entries and the counter of the S-mode pool change, and at most
  \<open>k\<close> pages are taken.
\<close>

definition pt_frame :: "nat \<Rightarrow> mm_state \<Rightarrow> mm_state \<Rightarrow> bool" where
  "pt_frame k s s' \<longleftrightarrow>
     (\<exists>u m. s' = s\<lparr>smode_pool_desc := (smode_pool_desc s)\<lparr>used_page_count := u\<rparr>, pte_mem := m\<rparr>) \<and>
     used_page_count (smode_pool_desc s) \<le> used_page_count (smode_pool_desc s') \<and>
     desc_left (smode_pool_desc s) \<le> desc_left (smode_pool_desc s') + k"

definition grown :: "vaddr \<Rightarrow> nat \<Rightarrow> mm_state \<Rightarrow> mm_state \<Rightarrow> bool" where
  "grown va L s s' \<longleftrightarrow>
     (\<forall>q. length q \<le> 3 \<longrightarrow> view s' q = view s q \<or>
        \<not> pte_v (view s q) \<and> is_table (view s' q) \<and> (\<exists>m. 0 < m \<and> m \<le> L \<and> q = vpath va m))"

definition mappable :: "mm_state \<Rightarrow> vaddr \<Rightarrow> nat \<Rightarrow> bool" where
  "mappable s va L \<longleftrightarrow>
     (\<forall>m. 0 < m \<longrightarrow> m \<le> L \<longrightarrow> \<not> is_leaf (view s (vpath va m))) \<and>
     (L < 2 \<longrightarrow> \<not> is_table (view s (vpath va (Suc L))))"

lemma pt_frame_refl: "pt_frame 0 s s"
proof -
  have "s = s\<lparr>smode_pool_desc := (smode_pool_desc s)\<lparr>used_page_count := used_page_count (smode_pool_desc s)\<rparr>,
      pte_mem := pte_mem s\<rparr>" by simp
  then show ?thesis unfolding pt_frame_def by (metis add_0_right order_refl)
qed

lemma pt_frame_trans: "pt_frame k s s' \<Longrightarrow> pt_frame l s' s'' \<Longrightarrow> pt_frame (k + l) s s''"
  by (fastforce simp: pt_frame_def)

lemma pt_frame_mono: "pt_frame k s s' \<Longrightarrow> k \<le> l \<Longrightarrow> pt_frame l s s'"
  by (auto simp: pt_frame_def)

lemma pt_frame_write: "pt_frame 0 s (write_pte a x s)"
proof -
  have "write_pte a x s = s\<lparr>smode_pool_desc :=
      (smode_pool_desc s)\<lparr>used_page_count := used_page_count (smode_pool_desc s)\<rparr>,
      pte_mem := (pte_mem s)(a := x)\<rparr>" by (simp add: write_pte_def)
  then show ?thesis unfolding pt_frame_def by (metis add_0_right order_refl write_pte_simps(3))
qed

lemma grown_trans:
  assumes "grown va l s s'" "grown va k s' s''"
  shows "grown va (max l k) s s''"
  unfolding grown_def
proof (intro allI impI)
  fix q :: "9 word list" assume q: "length q \<le> 3"
  from assms(1) q have 1: "view s' q = view s q \<or>
      \<not> pte_v (view s q) \<and> is_table (view s' q) \<and> (\<exists>m. 0 < m \<and> m \<le> l \<and> q = vpath va m)"
    unfolding grown_def by blast
  from assms(2) q have 2: "view s'' q = view s' q \<or>
      \<not> pte_v (view s' q) \<and> is_table (view s'' q) \<and> (\<exists>m. 0 < m \<and> m \<le> k \<and> q = vpath va m)"
    unfolding grown_def by blast
  from 1 2 show "view s'' q = view s q \<or>
      \<not> pte_v (view s q) \<and> is_table (view s'' q) \<and> (\<exists>m. 0 < m \<and> m \<le> max l k \<and> q = vpath va m)"
    by (auto simp: is_table_def intro: max.coboundedI1 max.coboundedI2)
qed

lemma grown_refl: "grown va l s s"
  by (simp add: grown_def)

text \<open>The number of tables missing on the path of \<open>va\<close> at depths \<open>l + 1\<close> to \<open>l + k\<close>.\<close>

fun missing :: "mm_state \<Rightarrow> vaddr \<Rightarrow> nat \<Rightarrow> nat \<Rightarrow> nat" where
  "missing s va l 0 = 0"
| "missing s va l (Suc k) = of_bool (\<not> is_table (view s (vpath va (Suc l)))) + missing s va (Suc l) k"

lemma missing_cong:
  "(\<And>m. l < m \<Longrightarrow> m \<le> l + k \<Longrightarrow> is_table (view s (vpath va m)) = is_table (view s' (vpath va m))) \<Longrightarrow>
   missing s va l k = missing s' va l k"
  by (induction k arbitrary: l) (simp_all del: view.simps vpath.simps)

lemma leaf_table_step:
  assumes "pt_inv s" "table_at s (vpath va l) = Some t" "l \<le> 1"
    and "\<not> is_leaf (view s (vpath va (Suc l)))" "of_bool (\<not> is_table (view s (vpath va (Suc l)))) \<le> desc_left (smode_pool_desc s)"
  shows "\<exists>t' s'. leaf_table (va_to_sv39 va) GET_PTE_ALLOC (Suc k) (2 - of_nat l) t s
      = leaf_table (va_to_sv39 va) GET_PTE_ALLOC k (2 - of_nat (Suc l)) t' s' \<and>
    pt_inv s' \<and> table_at s' (vpath va (Suc l)) = Some t' \<and> grown va (Suc l) s s' \<and>
    pt_frame (of_bool (\<not> is_table (view s (vpath va (Suc l))))) s s'"
proof (cases "pte_v (view s (vpath va (Suc l)))")
  case True
  then have v: "pte_v (pte_mem s (entry t (ucast (vidx va l))))" using assms(2) by simp
  with True assms(2,4) have "table_at s (vpath va (Suc l)) = Some (pte_next (pte_mem s (entry t (ucast (vidx va l)))))"
    by (simp add: table_at_view is_leaf_def is_table_def)
  moreover have "is_table (view s (vpath va (Suc l)))"
    using True assms(4) by (simp add: is_leaf_def is_table_def)
  ultimately show ?thesis
    using v assms(1,3) pt_frame_refl [of s] grown_refl [of va "Suc l" s]
    by (auto simp: get_vpn_vidx Let_def diff_diff_eq simp del: view.simps vpath.simps)
next
  case False
  then have v: "\<not> pte_v (pte_mem s (entry t (ucast (vidx va l))))" using assms(2) by simp
  have nt: "\<not> is_table (view s (vpath va (Suc l)))" using False by (simp add: is_table_def)
  have inv: "smode_inv s" using assms(1) by (simp add: pt_inv_def)
  from smode.alloc_fits [OF inv, of 1] assms(5) nt obtain n s1 where al: "alloc_smode_page 1 s = Inr (n, s1)"
    by (auto simp del: view.simps vpath.simps)
  note one = alloc_one [OF inv al]
  let ?s = "link_table (entry t (ucast (vidx va l))) n s1"
  have l: "length (vpath va l) \<le> 1" using assms(3) by simp
  have fl: "\<not> pte_v (view s (vidx va l # vpath va l))" using False by simp
  note link = link_inv [OF assms(1,2) l fl al] link_table_at [OF assms(1,2) l fl al]
    link_view [OF assms(1,2) l fl al]
  have "s1 = s\<lparr>smode_pool_desc := (smode_pool_desc s)\<lparr>used_page_count := used_page_count (smode_pool_desc s) + 1\<rparr>,
      pte_mem := pte_mem s\<rparr>"
    using al by (auto simp: alloc_smode_page_eq Let_def split: if_splits)
  moreover have "used_page_count (smode_pool_desc s) \<le> used_page_count (smode_pool_desc s) + 1"
    using used_plus(1) [of "get_emod_manager_pa_start s" "smode_pool_desc s" 1] inv
    by (simp add: word_le_nat_alt smode_inv_def)
  ultimately have "pt_frame 1 s s1" using one(4) unfolding pt_frame_def
    by (intro conjI exI [of _ "used_page_count (smode_pool_desc s) + 1"] exI [of _ "pte_mem s"]) simp_all
  then have "pt_frame 1 s ?s" using pt_frame_trans [OF _ pt_frame_write, of 1 s s1] by (simp add: link_table_def)
  moreover have "grown va (Suc l) s ?s" using link(3) False
    by (auto simp: grown_def intro!: exI [of _ "Suc l"])
  moreover have "table_at ?s (vpath va (Suc l)) = Some n" using link(2) assms(3) by simp
  moreover have "leaf_table (va_to_sv39 va) GET_PTE_ALLOC (Suc k) (2 - of_nat l) t s
      = leaf_table (va_to_sv39 va) GET_PTE_ALLOC k (2 - of_nat (Suc l)) n ?s"
    using v al one(5) assms(3) by (simp add: get_vpn_vidx Let_def link_table_def diff_diff_eq)
  ultimately show ?thesis using link(1) nt by (simp del: view.simps vpath.simps leaf_table.simps) blast
qed

lemma leaf_table_alloc:
  assumes "pt_inv s" "table_at s (vpath va l) = Some t" "l + k \<le> 2"
    and "\<forall>m. l < m \<longrightarrow> m \<le> l + k \<longrightarrow> \<not> is_leaf (view s (vpath va m))" "missing s va l k \<le> desc_left (smode_pool_desc s)"
  shows "\<exists>t' s'. leaf_table (va_to_sv39 va) GET_PTE_ALLOC k (2 - of_nat l) t s = Inr (t', s') \<and>
    pt_inv s' \<and> table_at s' (vpath va (l + k)) = Some t' \<and> grown va (l + k) s s' \<and>
    pt_frame (missing s va l k) s s'"
  using assms
proof (induction k arbitrary: l t s)
  case 0
  then show ?case by (simp add: grown_refl pt_frame_refl)
next
  case (Suc k)
  let ?b = "of_bool (\<not> is_table (view s (vpath va (Suc l)))) :: nat"
  have l: "l \<le> 1" "?b \<le> desc_left (smode_pool_desc s)" "\<not> is_leaf (view s (vpath va (Suc l)))"
    using Suc.prems by (auto simp del: view.simps vpath.simps)
  from leaf_table_step [OF Suc.prems(1,2) l(1,3,2), of k] obtain t1 s1
    where 1: "leaf_table (va_to_sv39 va) GET_PTE_ALLOC (Suc k) (2 - of_nat l) t s
      = leaf_table (va_to_sv39 va) GET_PTE_ALLOC k (2 - of_nat (Suc l)) t1 s1"
      "pt_inv s1" "table_at s1 (vpath va (Suc l)) = Some t1" "grown va (Suc l) s s1" "pt_frame ?b s s1"
    by blast
  have miss: "missing s1 va (Suc l) k = missing s va (Suc l) k"
  proof (rule missing_cong)
    fix m assume m: "Suc l < m" "m \<le> Suc l + k"
    have "length (vpath va m) \<le> 3" "\<And>j. j \<le> Suc l \<Longrightarrow> vpath va m \<noteq> vpath va j"
      using m Suc.prems(3) by (auto dest: arg_cong [where f = length])
    then have "view s1 (vpath va m) = view s (vpath va m)" using 1(4) unfolding grown_def by blast
    then show "is_table (view s1 (vpath va m)) = is_table (view s (vpath va m))" by simp
  qed
  have "missing s1 va (Suc l) k \<le> desc_left (smode_pool_desc s1)"
    using 1(5) Suc.prems(5) unfolding miss by (simp add: pt_frame_def del: view.simps vpath.simps)
  moreover have "\<forall>m. Suc l < m \<longrightarrow> m \<le> Suc l + k \<longrightarrow> \<not> is_leaf (view s1 (vpath va m))"
  proof (intro allI impI)
    fix m assume m: "Suc l < m" "m \<le> Suc l + k"
    with Suc.prems(3,4) have "length (vpath va m) \<le> 3" "\<not> is_leaf (view s (vpath va m))" by auto
    with 1(4) show "\<not> is_leaf (view s1 (vpath va m))"
      unfolding grown_def is_leaf_def is_table_def by metis
  qed
  ultimately obtain t' s' where 2: "leaf_table (va_to_sv39 va) GET_PTE_ALLOC k (2 - of_nat (Suc l)) t1 s1 = Inr (t', s')"
      "pt_inv s'" "table_at s' (vpath va (Suc l + k)) = Some t'" "grown va (Suc l + k) s1 s'" "pt_frame (missing s va (Suc l) k) s1 s'"
    using Suc.IH [OF 1(2,3)] Suc.prems(3) unfolding miss by (auto simp del: view.simps vpath.simps)
  have "grown va (l + Suc k) s s'" using grown_trans [OF 1(4) 2(4)] by simp
  then show ?case using 1(1) 2 pt_frame_trans [OF 1(5) 2(5)] by (auto simp del: view.simps vpath.simps leaf_table.simps)
qed

lemma get_leaf_pte_alloc:
  assumes "pt_inv s" "L \<le> 2" "mappable s va L" "missing s va 0 L \<le> desc_left (smode_pool_desc s)"
  shows "\<exists>t s'. get_leaf_pte va (of_nat L) GET_PTE_ALLOC s = Inr (entry t (ucast (vidx va L)), s') \<and>
    pt_inv s' \<and> table_at s' (vpath va L) = Some t \<and> grown va L s s' \<and> pt_frame (missing s va 0 L) s s'"
proof -
  have "unat (of_nat L :: u8) = L" using assms(2) by (simp add: unat_of_nat)
  with leaf_table_alloc [of s va 0 "page_table_root s" L] assms show ?thesis
    by (auto simp: get_leaf_pte_def mappable_def Let_def get_vpn_vidx)
qed

lemma set_leaf_is_leaf: "flags AND (PTE_R OR PTE_W OR PTE_X) \<noteq> 0 \<Longrightarrow> is_leaf (set_leaf flags pa e)"
  by (auto simp: is_leaf_def set_leaf_def bit.conj_disj_distrib)

lemma table_at_prefix:
  "table_at s (vpath va L) \<noteq> None \<Longrightarrow> 0 < m \<Longrightarrow> m \<le> L \<Longrightarrow> is_table (view s (vpath va m))"
proof (induction L)
  case (Suc L)
  then show ?case
    by (cases "m = Suc L") (auto simp: table_at.simps(2) Let_def split: option.splits if_splits)
qed simp

lemma map_page_view:
  assumes "pt_inv s" "L \<le> 2" "mappable s va L" "missing s va 0 L \<le> desc_left (smode_pool_desc s)"
    and rwx: "flags AND (PTE_R OR PTE_W OR PTE_X) \<noteq> 0"
  shows "\<exists>s'. map_page va pa flags (of_nat L) s = Inr s' \<and> pt_inv s' \<and> pt_frame (missing s va 0 L) s s' \<and>
    view s' (vpath va (Suc L)) = set_leaf flags pa (view s (vpath va (Suc L))) \<and>
    (\<forall>m. 0 < m \<longrightarrow> m \<le> L \<longrightarrow> is_table (view s' (vpath va m))) \<and>
    (\<forall>q. length q \<le> 3 \<longrightarrow> q \<noteq> vpath va (Suc L) \<longrightarrow> view s' q = view s q \<or>
       \<not> pte_v (view s q) \<and> is_table (view s' q) \<and> (\<exists>m. 0 < m \<and> m \<le> L \<and> q = vpath va m))"
proof -
  from get_leaf_pte_alloc [OF assms(1-4)] obtain t s1
    where 1: "get_leaf_pte va (of_nat L) GET_PTE_ALLOC s = Inr (entry t (ucast (vidx va L)), s1)"
      "pt_inv s1" "table_at s1 (vpath va L) = Some t" "grown va L s s1" "pt_frame (missing s va 0 L) s s1"
    by blast
  let ?x = "set_leaf flags pa (view s (vpath va (Suc L)))"
  have len: "length (vpath va L) \<le> 2" "length (vpath va (Suc L)) \<le> 3" using assms(2) by simp_all
  have same: "view s1 (vpath va (Suc L)) = view s (vpath va (Suc L))"
  proof -
    have "vpath va (Suc L) \<noteq> vpath va m" if "m \<le> L" for m
      using that by (metis length_vpath Suc_n_not_le_n)
    then show ?thesis using 1(4) len(2) unfolding grown_def by blast
  qed
  then have mem: "pte_mem s1 (entry t (ucast (vidx va L))) = view s (vpath va (Suc L))"
    using 1(3) by simp
  have leaf: "is_leaf ?x" using rwx by (rule set_leaf_is_leaf)
  have nt: "length (vpath va L) < 2 \<longrightarrow> \<not> is_table (view s1 (vidx va L # vpath va L)) \<and> \<not> is_table ?x"
    using assms(3) same leaf by (auto simp: mappable_def is_leaf_def is_table_def)
  let ?s = "write_pte (entry t (ucast (vidx va L))) ?x s1"
  have "map_page va pa flags (of_nat L) s = Inr ?s" using 1(1) mem by (simp add: map_page_def)
  moreover have "pt_inv ?s"
    by (rule pt_inv_write [OF 1(2,3) len(1) nt]) (use leaf in \<open>simp_all add: is_leaf_def is_table_def\<close>)
  moreover have "pt_frame (missing s va 0 L) s ?s" using pt_frame_trans [OF 1(5) pt_frame_write] by simp
  moreover have "view ?s q = (if q = vpath va (Suc L) then ?x else view s1 q)" if "length q \<le> 3" for q
    using view_write [OF 1(2,3) len(1) nt that] by (simp only: vpath.simps)
  moreover have "is_table (view s1 (vpath va m))" if "0 < m" "m \<le> L" for m
    using table_at_prefix [of s1 va L m] 1(3) that by simp
  moreover have "vpath va m \<noteq> vpath va (Suc L) \<and> length (vpath va m) \<le> 3" if "m \<le> L" for m
    using that assms(2) by (auto dest: arg_cong [where f = length])
  ultimately show ?thesis using 1(4) len(2) unfolding grown_def
    by (intro exI [of _ ?s]) (simp del: view.simps vpath.simps)
qed

lemma vpath_prefix: "vpath va k = vpath va' k \<Longrightarrow> m \<le> k \<Longrightarrow> vpath va m = vpath va' m"
proof (induction k)
  case (Suc k)
  then show ?case by (cases "m = Suc k") auto
qed simp

text \<open>Below an entry that is not a table nothing is mapped.\<close>

lemma view_below:
  assumes "\<not> is_table (view s (vpath va (Suc L)))" "Suc L < m"
  shows "view s (vpath va m) = zero_pte"
proof -
  have "table_at s (vpath va k) = None" if "Suc L \<le> k" for k
    using that
  proof (induction k rule: dec_induct)
    case base
    then show ?case using assms(1) by (simp only: vpath.simps table_at_view if_False)
  next
    case (step k)
    then show ?case by (simp add: table_at.simps(2))
  qed
  moreover obtain k where "m = Suc k" "Suc L \<le> k" using assms(2) by (cases m) auto
  ultimately show ?thesis by simp
qed

lemma walk_cong:
  assumes "\<And>m. 0 < m \<Longrightarrow> m \<le> 3 \<Longrightarrow>
    view s' (vpath va m) = view s (vpath va m) \<or> \<not> is_leaf (view s' (vpath va m)) \<and> \<not> is_leaf (view s (vpath va m))"
  shows "walk_page_table va s' = walk_page_table va s"
proof -
  define f g where "f m = view s' (vpath va m)" and "g m = view s (vpath va m)" for m
  have *: "f m = g m \<or> \<not> is_leaf (f m) \<and> \<not> is_leaf (g m)" if "0 < m" "m \<le> 3" for m
    using assms [OF that] by (simp only: f_def g_def)
  from * [of 1] * [of 2] * [of 3]
  have "f 1 = g 1 \<or> \<not> is_leaf (f 1) \<and> \<not> is_leaf (g 1)" "f 2 = g 2 \<or> \<not> is_leaf (f 2) \<and> \<not> is_leaf (g 2)"
    "f 3 = g 3 \<or> \<not> is_leaf (f 3) \<and> \<not> is_leaf (g 3)" by simp_all
  then show ?thesis unfolding walk_view f_def [symmetric] g_def [symmetric]
    by (elim disjE) simp_all
qed

lemma walk_at:
  assumes "L \<le> 2" "\<forall>m. 0 < m \<longrightarrow> m \<le> L \<longrightarrow> \<not> is_leaf (view s (vpath va m))" "is_leaf (view s (vpath va (Suc L)))"
  shows "walk_page_table va s = \<lparr>res_level = of_nat L, res_pte = view s (vpath va (Suc L))\<rparr>"
proof -
  define g where "g m = view s (vpath va m)" for m
  have "\<forall>m. 0 < m \<longrightarrow> m \<le> L \<longrightarrow> \<not> is_leaf (g m)" "is_leaf (g (Suc L))"
    using assms(2,3) by (simp_all only: g_def)
  moreover have "L = 0 \<or> L = 1 \<or> L = 2" using assms(1) by linarith
  ultimately show ?thesis unfolding walk_view g_def [symmetric]
    by (elim disjE) (simp_all add: eval_nat_numeral)
qed

section \<open>Mapping a range\<close>

declare view.simps(2) [simp del] vpath.simps(2) [simp del]

lemma vpath_length_ne: "m \<noteq> l \<Longrightarrow> vpath va m \<noteq> vpath va' l"
  by (metis length_vpath)

text \<open>The tables missing for a set of addresses.\<close>

definition need :: "mm_state \<Rightarrow> nat \<Rightarrow> vaddr set \<Rightarrow> 9 word list set" where
  "need s L vas = {vpath va m | va m. va \<in> vas \<and> 0 < m \<and> m \<le> L \<and> \<not> is_table (view s (vpath va m))}"

lemma need_Un: "need s L (A \<union> B) = need s L A \<union> need s L B"
  by (auto simp: need_def)

lemma finite_need: "finite A \<Longrightarrow> finite (need s L A)"
proof -
  assume "finite A"
  then have "finite ((\<lambda>(va, m). vpath va m) ` (A \<times> {..L}))" by simp
  moreover have "need s L A \<subseteq> (\<lambda>(va, m). vpath va m) ` (A \<times> {..L})"
    unfolding need_def by force
  ultimately show ?thesis by (rule rev_finite_subset)
qed

lemma missing_card: "missing s va l k = card {m. l < m \<and> m \<le> l + k \<and> \<not> is_table (view s (vpath va m))}"
proof (induction k arbitrary: l)
  case (Suc k)
  define S where "S l k = {m. l < m \<and> m \<le> l + k \<and> \<not> is_table (view s (vpath va m))}" for l k
  have split: "S l (Suc k) = (if is_table (view s (vpath va (Suc l))) then {} else {Suc l}) \<union> S (Suc l) k"
  proof (rule set_eqI)
    fix x
    have "l < x \<longleftrightarrow> x = Suc l \<or> Suc l < x" by auto
    then show "x \<in> S l (Suc k) \<longleftrightarrow>
        x \<in> (if is_table (view s (vpath va (Suc l))) then {} else {Suc l}) \<union> S (Suc l) k"
      unfolding S_def by auto
  qed
  have "finite (S (Suc l) k)" by (rule finite_subset [of _ "{..Suc l + k}"]) (auto simp: S_def)
  moreover have "Suc l \<notin> S (Suc l) k" by (simp add: S_def)
  ultimately have "card (S l (Suc k)) = of_bool (\<not> is_table (view s (vpath va (Suc l)))) + card (S (Suc l) k)"
    by (simp add: split)
  then show ?case using Suc.IH [of "Suc l"] by (simp add: S_def)
qed simp

lemma missing_need: "missing s va 0 L = card (need s L {va})"
proof -
  have "need s L {va} = vpath va ` {m. 0 < m \<and> m \<le> 0 + L \<and> \<not> is_table (view s (vpath va m))}"
    by (auto simp: need_def)
  moreover have "inj (vpath va)" by (rule injI) (metis length_vpath)
  ultimately show ?thesis by (simp add: missing_card card_image inj_on_subset)
qed

definition trie_keep :: "nat \<Rightarrow> vaddr set \<Rightarrow> mm_state \<Rightarrow> mm_state \<Rightarrow> bool" where
  "trie_keep L vas s s' \<longleftrightarrow>
     (\<forall>q. length q \<le> 3 \<longrightarrow> (\<forall>va \<in> vas. q \<noteq> vpath va (Suc L)) \<longrightarrow>
        view s' q = view s q \<or> \<not> pte_v (view s q) \<and> is_table (view s' q) \<and> q \<in> need s L vas)"

lemma trie_keep_leaf:
  assumes "trie_keep L vas s s'" "L \<le> 2" "\<forall>v \<in> vas. vpath va (Suc L) \<noteq> vpath v (Suc L)"
  shows "view s' (vpath va (Suc L)) = view s (vpath va (Suc L))"
proof -
  have "vpath va (Suc L) \<notin> need s L vas" by (auto simp: need_def vpath_length_ne)
  moreover have "length (vpath va (Suc L)) \<le> 3" using assms(2) by simp
  ultimately show ?thesis using assms(1,3) unfolding trie_keep_def by blast
qed

lemma trie_keep_table:
  assumes "trie_keep L vas s s'" "m \<le> L" "L \<le> 2" "is_table (view s (vpath va m))"
  shows "is_table (view s' (vpath va m))"
proof -
  have "\<forall>v \<in> vas. vpath va m \<noteq> vpath v (Suc L)" "length (vpath va m) \<le> 3"
    using assms(2,3) by (auto simp: vpath_length_ne)
  then have "view s' (vpath va m) = view s (vpath va m) \<or> is_table (view s' (vpath va m))"
    using assms(1) unfolding trie_keep_def by blast
  then show ?thesis using assms(4) by auto
qed

lemma mappable_keep:
  assumes "trie_keep L vas s s'" "L \<le> 2" "\<forall>v \<in> vas. vpath va (Suc L) \<noteq> vpath v (Suc L)" "mappable s va L"
  shows "mappable s' va L"
  unfolding mappable_def
proof (intro conjI allI impI)
  fix m assume m: "0 < m" "m \<le> L"
  then have "\<forall>v \<in> vas. vpath va m \<noteq> vpath v (Suc L)" "length (vpath va m) \<le> 3" "\<not> is_leaf (view s (vpath va m))"
    using assms(2,4) by (auto simp: mappable_def vpath_length_ne)
  moreover from this assms(1) have "view s' (vpath va m) = view s (vpath va m) \<or> is_table (view s' (vpath va m))"
    unfolding trie_keep_def by blast
  ultimately show "\<not> is_leaf (view s' (vpath va m))" by (auto simp: is_leaf_def is_table_def)
next
  assume "L < 2"
  then show "\<not> is_table (view s' (vpath va (Suc L)))"
    using trie_keep_leaf [OF assms(1-3)] assms(4) by (simp add: mappable_def)
qed

lemma walk_keep:
  assumes "trie_keep L vas s s'" "L \<le> 2" "\<forall>v \<in> vas. vpath va (Suc L) \<noteq> vpath v (Suc L)"
  shows "walk_page_table va s' = walk_page_table va s"
proof (rule walk_cong)
  fix m :: nat assume m: "0 < m" "m \<le> 3"
  have "\<forall>v \<in> vas. vpath va m \<noteq> vpath v (Suc L)"
    using assms(3) by (cases "m = Suc L") (auto simp: vpath_length_ne)
  moreover have "length (vpath va m) \<le> 3" using m by simp
  ultimately have "view s' (vpath va m) = view s (vpath va m) \<or>
      \<not> pte_v (view s (vpath va m)) \<and> is_table (view s' (vpath va m))"
    using assms(1) unfolding trie_keep_def by blast
  then show "view s' (vpath va m) = view s (vpath va m) \<or>
      \<not> is_leaf (view s' (vpath va m)) \<and> \<not> is_leaf (view s (vpath va m))"
    by (auto simp: is_leaf_def is_table_def)
qed

lemma walk_leaf:
  assumes "trie_keep L vas s s'" "L \<le> 2" "mappable s va L" "is_leaf (view s' (vpath va (Suc L)))"
    and eq: "vpath va' (Suc L) = vpath va (Suc L)"
  shows "walk_page_table va' s' = \<lparr>res_level = of_nat L, res_pte = view s' (vpath va (Suc L))\<rparr>"
proof -
  have "\<not> is_leaf (view s' (vpath va' m))" if m: "0 < m" "m \<le> L" for m
  proof -
    have p: "vpath va' m = vpath va m" using vpath_prefix [OF eq] m by simp
    have nl: "\<not> is_leaf (view s (vpath va m))" using assms(3) m by (simp add: mappable_def)
    have "\<forall>v \<in> vas. vpath va m \<noteq> vpath v (Suc L)" "length (vpath va m) \<le> 3"
      using m assms(2) by (auto simp: vpath_length_ne)
    then have "view s' (vpath va m) = view s (vpath va m) \<or> is_table (view s' (vpath va m))"
      using assms(1) unfolding trie_keep_def by blast
    then show ?thesis using nl by (auto simp: p is_leaf_def is_table_def)
  qed
  then show ?thesis using walk_at [OF assms(2), of s' va'] assms(4) by (simp add: eq)
qed

lemma map_page_keep:
  assumes "pt_inv s" "L \<le> 2" "mappable s va L" "card (need s L {va}) \<le> desc_left (smode_pool_desc s)"
    and rwx: "flags AND (PTE_R OR PTE_W OR PTE_X) \<noteq> 0"
  shows "\<exists>s'. map_page va pa flags (of_nat L) s = Inr s' \<and> pt_inv s' \<and>
    pt_frame (card (need s L {va})) s s' \<and> trie_keep L {va} s s' \<and> need s' L {va} = {} \<and>
    view s' (vpath va (Suc L)) = set_leaf flags pa (view s (vpath va (Suc L)))"
proof -
  have "missing s va 0 L \<le> desc_left (smode_pool_desc s)" using assms(4) by (simp add: missing_need)
  from map_page_view [OF assms(1-3) this rwx, of pa] obtain s' where
    1: "map_page va pa flags (of_nat L) s = Inr s'" "pt_inv s'" "pt_frame (card (need s L {va})) s s'"
      "view s' (vpath va (Suc L)) = set_leaf flags pa (view s (vpath va (Suc L)))"
    and 2: "\<forall>m. 0 < m \<longrightarrow> m \<le> L \<longrightarrow> is_table (view s' (vpath va m))"
    and 3: "\<forall>q. length q \<le> 3 \<longrightarrow> q \<noteq> vpath va (Suc L) \<longrightarrow> view s' q = view s q \<or>
       \<not> pte_v (view s q) \<and> is_table (view s' q) \<and> (\<exists>m. 0 < m \<and> m \<le> L \<and> q = vpath va m)"
    unfolding missing_need by blast
  have "trie_keep L {va} s s'"
    unfolding trie_keep_def
  proof (intro allI impI)
    fix q :: "9 word list" assume q: "length q \<le> 3" "\<forall>v \<in> {va}. q \<noteq> vpath v (Suc L)"
    from 3 q have "view s' q = view s q \<or>
       \<not> pte_v (view s q) \<and> is_table (view s' q) \<and> (\<exists>m. 0 < m \<and> m \<le> L \<and> q = vpath va m)" by blast
    then show "view s' q = view s q \<or> \<not> pte_v (view s q) \<and> is_table (view s' q) \<and> q \<in> need s L {va}"
      by (auto simp: need_def is_table_def)
  qed
  moreover have "need s' L {va} = {}" using 2 by (auto simp: need_def)
  ultimately show ?thesis using 1 by blast
qed

lemma need_shrink:
  assumes "trie_keep L {va} s s1" "L \<le> 2" "need s1 L {va} = {}" "finite A"
  shows "need s1 L A \<subseteq> need s L A" and "card (need s1 L A) + card (need s L {va}) \<le> card (need s L (insert va A))"
proof -
  show sub: "need s1 L A \<subseteq> need s L A"
    using trie_keep_table [OF assms(1) _ assms(2)] by (auto simp: need_def)
  have "need s1 L A \<inter> need s L {va} = {}" using assms(3) by (auto simp: need_def)
  then have "card (need s1 L A) + card (need s L {va}) = card (need s1 L A \<union> need s L {va})"
    using assms(4) by (simp add: card_Un_disjoint finite_need)
  also have "\<dots> \<le> card (need s L (insert va A))"
    using sub assms(4) by (intro card_mono) (auto simp: finite_need need_Un [of s L "{va}" A, simplified])
  finally show "card (need s1 L A) + card (need s L {va}) \<le> card (need s L (insert va A))" .
qed

lemma trie_keep_trans:
  assumes "trie_keep L {va} s s1" "trie_keep L A s1 s2" "need s1 L A \<subseteq> need s L A"
  shows "trie_keep L (insert va A) s s2"
  unfolding trie_keep_def
proof (intro allI impI)
  fix q :: "9 word list" assume q: "length q \<le> 3" "\<forall>v \<in> insert va A. q \<noteq> vpath v (Suc L)"
  from assms(1) q have "view s1 q = view s q \<or> \<not> pte_v (view s q) \<and> is_table (view s1 q) \<and> q \<in> need s L {va}"
    unfolding trie_keep_def by blast
  moreover from assms(2) q have "view s2 q = view s1 q \<or> \<not> pte_v (view s1 q) \<and> is_table (view s2 q) \<and> q \<in> need s1 L A"
    unfolding trie_keep_def by blast
  ultimately show "view s2 q = view s q \<or> \<not> pte_v (view s q) \<and> is_table (view s2 q) \<and> q \<in> need s L (insert va A)"
    using assms(3) need_Un [of s L "{va}" A] by (auto simp: is_table_def)
qed

lemma map_seq:
  assumes "pt_inv s" "L \<le> 2" "\<forall>j \<in> {i..<i + k}. mappable s (A j) L"
    and "inj_on (\<lambda>j. vpath (A j) (Suc L)) {i..<i + k}"
    and "card (need s L (A ` {i..<i + k})) \<le> desc_left (smode_pool_desc s)"
    and rwx: "flags AND (PTE_R OR PTE_W OR PTE_X) \<noteq> 0"
  shows "\<exists>s'. rfor i k (\<lambda>j. map_page (A j) (B j) flags (of_nat L)) s = Inr s' \<and> pt_inv s' \<and>
    pt_frame (card (need s L (A ` {i..<i + k}))) s s' \<and> trie_keep L (A ` {i..<i + k}) s s' \<and>
    (\<forall>j \<in> {i..<i + k}. view s' (vpath (A j) (Suc L)) = set_leaf flags (B j) (view s (vpath (A j) (Suc L))))"
  using assms
proof (induction k arbitrary: i s)
  case 0
  then show ?case by (simp add: pt_frame_refl trie_keep_def need_def)
next
  case (Suc k)
  let ?R = "{Suc i..<Suc i + k}"
  have sp: "{i..<i + Suc k} = insert i ?R" by auto
  note pr = Suc.prems(3-5) [unfolded sp image_insert]
  have card: "card (need s L (insert (A i) (A ` ?R))) \<le> desc_left (smode_pool_desc s)"
    using pr(3) .
  have "card (need s L {A i}) \<le> card (need s L (insert (A i) (A ` ?R)))"
    by (intro card_mono finite_need) (auto simp: need_def)
  then have c1: "card (need s L {A i}) \<le> desc_left (smode_pool_desc s)" using card by simp
  have m: "mappable s (A i) L" using pr(1) by blast
  from map_page_keep [OF Suc.prems(1,2) m c1 rwx, of "B i"] obtain s1 where
    1: "map_page (A i) (B i) flags (of_nat L) s = Inr s1" "pt_inv s1"
      "pt_frame (card (need s L {A i})) s s1" "trie_keep L {A i} s s1" "need s1 L {A i} = {}"
      "view s1 (vpath (A i) (Suc L)) = set_leaf flags (B i) (view s (vpath (A i) (Suc L)))"
    by blast
  have ne: "vpath (A j) (Suc L) \<noteq> vpath (A i) (Suc L)" if "j \<in> ?R" for j
    using pr(2) that by (auto simp: inj_on_def)
  have maps: "\<forall>j \<in> ?R. mappable s1 (A j) L"
    using mappable_keep [OF 1(4) Suc.prems(2)] ne pr(1) by blast
  note shr = need_shrink [OF 1(4) Suc.prems(2) 1(5), of "A ` ?R"]
  have "card (need s1 L (A ` ?R)) \<le> desc_left (smode_pool_desc s1)"
    using shr(2) card 1(3) by (simp add: pt_frame_def)
  from Suc.IH [OF 1(2) Suc.prems(2) maps inj_on_subset [OF pr(2)] this rwx] obtain s' where
    2: "rfor (Suc i) k (\<lambda>j. map_page (A j) (B j) flags (of_nat L)) s1 = Inr s'" "pt_inv s'"
      "pt_frame (card (need s1 L (A ` ?R))) s1 s'" "trie_keep L (A ` ?R) s1 s'"
      "\<forall>j \<in> ?R. view s' (vpath (A j) (Suc L)) = set_leaf flags (B j) (view s1 (vpath (A j) (Suc L)))"
    by blast
  have "pt_frame (card (need s L (insert (A i) (A ` ?R)))) s s'"
    by (rule pt_frame_mono [OF pt_frame_trans [OF 1(3) 2(3)]]) (use shr(2) in simp)
  moreover have "trie_keep L (insert (A i) (A ` ?R)) s s'"
    using trie_keep_trans [OF 1(4) 2(4)] shr(1) by simp
  moreover have "view s' (vpath (A i) (Suc L)) = set_leaf flags (B i) (view s (vpath (A i) (Suc L)))"
    using trie_keep_leaf [OF 2(4) Suc.prems(2), of "A i"] ne 1(6) by (metis imageE)
  moreover have "\<forall>j \<in> ?R. view s' (vpath (A j) (Suc L)) = set_leaf flags (B j) (view s (vpath (A j) (Suc L)))"
    using 2(5) trie_keep_leaf [OF 1(4) Suc.prems(2)] ne by simp
  ultimately show ?case using 1(1) 2(1,2) unfolding sp image_insert by auto
qed

end
