(* ===== verification/Page_Map.thy ===== *)
theory Page_Map
  imports Page_Table
begin

text \<open>
  What the page-table operations mean for translation: which addresses a mapped region covers,
  the physical address that \<open>get_pa\<close> returns for them, how many tables a range of pages costs,
  unmapping, and the linear map.
\<close>

section \<open>Regions of consecutive addresses\<close>

text \<open>
  The number of the page (\<open>L = 2\<close>), mega page (\<open>L = 1\<close>) or giga page (\<open>L = 0\<close>) of an address in the
  39-bit address space.
\<close>

definition region :: "vaddr \<Rightarrow> nat \<Rightarrow> nat" where
  "region va L = unat va mod 2 ^ 39 div 2 ^ (30 - 9 * L)"

lemma unat_vidx: "l \<le> 2 \<Longrightarrow> unat (vidx va l) = unat va div 2 ^ (30 - 9 * l) mod 512"
proof -
  have u: "unat (ucast (drop_bit n va) :: 9 word) = unat va div 2 ^ n mod 512" if "n < 64" for n
    using that by (simp add: unat_ucast drop_bit_eq_div unat_div_u64 unat_pow2)
  show "l \<le> 2 \<Longrightarrow> ?thesis"
    using u [of 30] u [of 21] u [of 12] by (auto simp: vidx_def vpns numeral_2_eq_2 le_Suc_eq)
qed

lemma mod_mult_div: "(a :: nat) mod (m * n) div m = a div m mod n"
  by (cases "m = 0") (simp_all add: mod_mult2_eq)

lemma region_simps:
  "region va 0 = unat va div 2 ^ 30 mod 512"
  "region va 1 = unat va div 2 ^ 21 mod 2 ^ 18"
  "region va 2 = unat va div 2 ^ 12 mod 2 ^ 27"
  using mod_mult_div [of "unat va" "2 ^ 30" 512] mod_mult_div [of "unat va" "2 ^ 21" "2 ^ 18"]
    mod_mult_div [of "unat va" "2 ^ 12" "2 ^ 27"]
  by (simp_all add: region_def)

lemma mod_512_iff: "(a :: nat) mod (512 * n) = b mod (512 * n) \<longleftrightarrow> a mod 512 = b mod 512 \<and> a div 512 mod n = b div 512 mod n"
proof
  assume e: "a mod (512 * n) = b mod (512 * n)"
  then have "a mod (512 * n) mod 512 = b mod (512 * n) mod 512" "a mod (512 * n) div 512 = b mod (512 * n) div 512"
    by simp_all
  then show "a mod 512 = b mod 512 \<and> a div 512 mod n = b div 512 mod n"
    by (simp add: mod_mod_cancel mod_mult_div)
qed (simp add: mod_mult2_eq)

lemma vpath_region: "L \<le> 2 \<Longrightarrow> vpath va (Suc L) = vpath va' (Suc L) \<longleftrightarrow> region va L = region va' L"
proof -
  have 0: "vidx va 0 = vidx va' 0 \<longleftrightarrow> region va 0 = region va' 0"
    by (simp add: word_unat_eq_iff unat_vidx region_simps)
  have 1: "vidx va 1 = vidx va' 1 \<and> vidx va 0 = vidx va' 0 \<longleftrightarrow> region va 1 = region va' 1"
    using mod_512_iff [of "unat va div 2 ^ 21" 512 "unat va' div 2 ^ 21"]
    by (simp add: word_unat_eq_iff unat_vidx region_simps flip: div_mult2_eq del: One_nat_def)
  have 2: "vidx va 2 = vidx va' 2 \<and> region va 1 = region va' 1 \<longleftrightarrow> region va 2 = region va' 2"
    using mod_512_iff [of "unat va div 2 ^ 12" "2 ^ 18" "unat va' div 2 ^ 12"]
    by (simp add: word_unat_eq_iff unat_vidx region_simps flip: div_mult2_eq del: One_nat_def)
  show "L \<le> 2 \<Longrightarrow> ?thesis"
    using 0 1 2 by (auto simp: vpath.simps numeral_2_eq_2 le_Suc_eq)
qed

text \<open>Consecutive regions, modulo the size of the address space.\<close>

lemma region_add:
  assumes "L \<le> 2"
  shows "region (va + of_nat i * 2 ^ (30 - 9 * L)) L = (region va L + i) mod 2 ^ (9 * Suc L)"
proof -
  define n where "n = 30 - 9 * L"
  have n: "n < 64" "39 = n + 9 * Suc L" using assms by (auto simp: n_def)
  have "unat (va + of_nat i * 2 ^ n) mod 2 ^ 39 = (unat va + i * 2 ^ n) mod 2 ^ 39"
  proof -
    have "unat (va + of_nat i * 2 ^ n) = (unat va + i * 2 ^ n) mod 2 ^ 64"
      using n by (simp add: unat_word_ariths unat_of_nat unat_pow2 mod_simps)
    then show ?thesis by (simp add: mod_mod_cancel)
  qed
  also have "\<dots> div 2 ^ n = (unat va + i * 2 ^ n) div 2 ^ n mod 2 ^ (9 * Suc L)"
    unfolding n(2) power_add by (rule mod_mult_div)
  also have "\<dots> = (unat va div 2 ^ n + i) mod 2 ^ (9 * Suc L)" by (simp add: add.commute)
  also have "\<dots> = (unat va mod 2 ^ 39 div 2 ^ n + i) mod 2 ^ (9 * Suc L)"
  proof -
    have "unat va mod 2 ^ 39 div 2 ^ n = unat va div 2 ^ n mod 2 ^ (9 * Suc L)"
      unfolding n(2) power_add by (rule mod_mult_div)
    then show ?thesis by (simp add: mod_simps)
  qed
  finally show ?thesis by (simp add: region_def n_def)
qed

lemma mod_add_inj:
  assumes "(r + i) mod M = (r + j) mod M" "i < M" "j < (M :: nat)"
  shows "i = j"
proof -
  have "x = y" if "x \<le> y" "(r + x) mod M = (r + y) mod M" "y < M" for x y
    using that mod_eq_dvd_iff_nat [of "r + x" "r + y" M] by (auto dest: dvd_imp_le)
  then show ?thesis using assms by (metis nat_le_linear)
qed

lemma region_inj:
  assumes "L \<le> 2" "k \<le> 2 ^ (9 * Suc L)"
  shows "inj_on (\<lambda>i. vpath (va + of_nat i * 2 ^ (30 - 9 * L)) (Suc L)) {0..<k}"
proof (rule inj_onI)
  fix i j assume ij: "i \<in> {0..<k}" "j \<in> {0..<k}"
    and "vpath (va + of_nat i * 2 ^ (30 - 9 * L)) (Suc L) = vpath (va + of_nat j * 2 ^ (30 - 9 * L)) (Suc L)"
  then have "(region va L + i) mod 2 ^ (9 * Suc L) = (region va L + j) mod 2 ^ (9 * Suc L)"
    using assms(1) by (simp add: vpath_region region_add)
  moreover have "i < 2 ^ (9 * Suc L)" "j < 2 ^ (9 * Suc L)" using ij assms(2) by auto
  ultimately show "i = j" by (metis mod_add_inj)
qed
lemma pte_next_set_leaf:
  assumes "4096 dvd unat pa" "unat pa < 2 ^ 56"
  shows "pte_next (set_leaf flags pa e) = pa"
proof (rule word_unat_eq_iff [THEN iffD2])
  have "unat (drop_bit 12 pa) = unat pa div 4096"
    by (simp add: drop_bit_eq_div unat_div_u64)
  then have "unat (ucast (drop_bit 12 pa) :: 44 word) = unat pa div 4096"
    using assms(2) by (simp add: unat_ucast)
  then show "unat (pte_next (set_leaf flags pa e)) = unat pa"
    using assms(1) by (simp add: unat_pte_next set_leaf_def pa_to_sv39_def)
qed

lemma get_pa_walk:
  assumes "walk_page_table va s = \<lparr>res_level = of_nat L, res_pte = e\<rparr>" "L \<le> 2"
  shows "get_pa va s = pte_next e + (va AND mask (30 - 9 * L))"
proof -
  have L: "L = 0 \<or> L = 1 \<or> L = 2" using assms(2) by linarith
  then have "(of_nat L :: u8) \<noteq> -1" by auto
  moreover have "unat (of_nat PAGE_SHIFT + (2 - of_nat L) * of_nat SV39_VPN_LEN :: u8) = 30 - 9 * L"
    using L by (auto simp: layout_defs)
  moreover have "(scast (push_bit (30 - 9 * L) (1 :: u32) - 1) :: u64) = mask (30 - 9 * L)"
    using L by (auto simp: mask_eq_exp_minus_1 push_bit_eq_mult)
  ultimately show ?thesis
    by (simp add: get_pa_def assms(1) and.commute)
qed

lemma unmapped_page:
  assumes "pt_inv s" "walk_page_table va s = not_valid"
  shows "mappable s va 2" "view s (vpath va 3) = zero_pte"
proof -
  have nl: "\<not> is_leaf (view s (vpath va 1))" "\<not> is_leaf (view s (vpath va 2))" "\<not> is_leaf (view s (vpath va 3))"
    using assms(2) unfolding walk_view by (auto simp: not_valid_def split: if_splits)
  have "m = 1 \<or> m = 2" if "0 < m" "m \<le> 2" for m :: nat using that by auto
  then show "mappable s va 2" using nl by (auto simp: mappable_def)
  have "\<not> is_table (view s (vpath va 3))" using assms(1) unfolding pt_inv_def by simp
  then have "\<not> pte_v (view s (vpath va 3))" using nl(3) by (auto simp: is_leaf_def is_table_def)
  then show "view s (vpath va 3) = zero_pte" using pt_inv_zero [OF assms(1)] by simp
qed

text \<open>Few tables serve many consecutive pages.\<close>

definition tables_bound :: "nat \<Rightarrow> nat" where
  "tables_bound n = n div 512 + n div 2 ^ 18 + 4"

lemma card_div_range: "card ((\<lambda>i. (r + i) div d) ` {0..<n}) \<le> n div d + 2" if "0 < d" for r d n :: nat
proof -
  have "(\<lambda>i. (r + i) div d) ` {0..<n} \<subseteq> {r div d..<r div d + (n div d + 2)}"
  proof
    fix x assume "x \<in> (\<lambda>i. (r + i) div d) ` {0..<n}"
    then obtain i where i: "i < n" "x = (r + i) div d" by auto
    have "r mod d + i mod d < 2 * d" using that by (simp add: add_less_le_mono mult_2 order.strict_implies_order)
    then have "(r mod d + i mod d) div d < 2" by (rule less_mult_imp_div_less)
    then have "(r + i) div d \<le> r div d + i div d + 1" unfolding div_add1_eq [of r i d] by linarith
    moreover have "i div d \<le> n div d" using i by (simp add: div_le_mono)
    moreover have "r div d \<le> x" using i(2) by (simp add: div_le_mono)
    ultimately show "x \<in> {r div d..<r div d + (n div d + 2)}" using i(2) by simp
  qed
  from card_mono [OF _ this] show ?thesis by simp
qed

lemma card_factor:
  assumes "finite S" "\<And>x y. x \<in> S \<Longrightarrow> y \<in> S \<Longrightarrow> g x = g y \<Longrightarrow> f x = f y"
  shows "card (f ` S) \<le> card (g ` S)"
proof -
  have "f ` S = (\<lambda>z. f (inv_into S g z)) ` g ` S"
    unfolding image_image by (intro image_cong refl assms(2) [symmetric]) (auto simp: inv_into_into f_inv_into_f)
  then show ?thesis using assms(1) by (metis card_image_le finite_imageI)
qed

lemma card_vpaths:
  assumes "l \<le> 1"
  shows "card ((\<lambda>i. vpath (va + of_nat i * 4096) (Suc l)) ` {0..<n}) \<le> n div 512 ^ (2 - l) + 2"
proof -
  have "card ((\<lambda>i. vpath (va + of_nat i * 4096) (Suc l)) ` {0..<n})
      \<le> card ((\<lambda>i. (region va 2 + i) div 512 ^ (2 - l)) ` {0..<n})"
  proof (rule card_factor)
    fix i j assume e: "(region va 2 + i) div 512 ^ (2 - l) = (region va 2 + j) div 512 ^ (2 - l)"
    have "region (va + of_nat k * 4096) l = (region va 2 + k) div 512 ^ (2 - l) mod 512 ^ Suc l" for k
    proof -
      have "region (va + of_nat k * 4096) l = region (va + of_nat k * 4096) 2 div 512 ^ (2 - l)"
        using assms by (auto simp: region_def le_Suc_eq div_mult2_eq [symmetric])
      also have "\<dots> = (region va 2 + k) mod (512 ^ (2 - l) * 512 ^ Suc l) div 512 ^ (2 - l)"
        using region_add [of 2 va k] assms by (auto simp: le_Suc_eq)
      finally show ?thesis by (simp only: mod_mult_div)
    qed
    with e show "vpath (va + of_nat i * 4096) (Suc l) = vpath (va + of_nat j * 4096) (Suc l)"
      using assms by (simp add: vpath_region)
  qed simp
  also have "\<dots> \<le> n div 512 ^ (2 - l) + 2" by (rule card_div_range) simp
  finally show ?thesis .
qed

lemma need_bound: "card (need s 2 ((\<lambda>i. va + of_nat i * 4096) ` {0..<n})) \<le> tables_bound n"
proof -
  let ?P = "\<lambda>l. (\<lambda>i. vpath (va + of_nat i * 4096) (Suc l)) ` {0..<n}"
  have m: "m = Suc 0 \<or> m = Suc 1" if "0 < m" "m \<le> 2" for m :: nat using that by auto
  have "need s 2 ((\<lambda>i. va + of_nat i * 4096) ` {0..<n}) \<subseteq> ?P 0 \<union> ?P 1"
  proof
    fix q assume "q \<in> need s 2 ((\<lambda>i. va + of_nat i * 4096) ` {0..<n})"
    then obtain i k where q: "i \<in> {0..<n}" "q = vpath (va + of_nat i * 4096) k" "0 < k" "k \<le> 2"
      unfolding need_def by blast
    from m [OF q(3,4)] show "q \<in> ?P 0 \<union> ?P 1" using q(1,2) by blast
  qed
  then have "card (need s 2 ((\<lambda>i. va + of_nat i * 4096) ` {0..<n})) \<le> card (?P 0 \<union> ?P 1)"
    by (rule card_mono [rotated]) simp
  also have "\<dots> \<le> card (?P 0) + card (?P 1)" by (rule card_Un_le)
  also have "\<dots> \<le> tables_bound n"
    using card_vpaths [of 0 va n] card_vpaths [of 1 va n] by (simp add: tables_bound_def)
  finally show ?thesis .
qed
lemma map_range_walk:
  fixes va pa :: u64
  defines "A L \<equiv> \<lambda>i. va + of_nat i * 2 ^ (30 - 9 * L)" and "B L \<equiv> \<lambda>i. pa + of_nat i * 2 ^ (30 - 9 * L)"
  assumes inv: "pt_inv s" and L: "L \<le> 2" and n: "n \<le> 2 ^ (9 * Suc L)"
    and mp: "\<forall>i<n. mappable s (A L i) L"
    and left: "card (need s L (A L ` {0..<n})) \<le> desc_left (smode_pool_desc s)"
    and rwx: "flags AND (PTE_R OR PTE_W OR PTE_X) \<noteq> 0"
  shows "\<exists>s'. map_range va pa flags (of_nat L) (2 ^ (30 - 9 * L)) n s = Inr s' \<and> pt_inv s' \<and>
    pt_frame (card (need s L (A L ` {0..<n}))) s s' \<and> trie_keep L (A L ` {0..<n}) s s' \<and>
    (\<forall>i va'. i < n \<longrightarrow> region va' L = region (A L i) L \<longrightarrow>
       walk_page_table va' s' = \<lparr>res_level = of_nat L, res_pte = set_leaf flags (B L i) (view s (vpath va' (Suc L)))\<rparr>) \<and>
    (\<forall>va'. (\<forall>i<n. region va' L \<noteq> region (A L i) L) \<longrightarrow> walk_page_table va' s' = walk_page_table va' s)"
proof -
  have "\<forall>j \<in> {0..<0 + n}. mappable s (A L j) L" using mp by simp
  from map_seq [OF inv L this, of flags "B L"] region_inj [OF L n, of va] left rwx
  obtain s' where 1: "map_range va pa flags (of_nat L) (2 ^ (30 - 9 * L)) n s = Inr s'" "pt_inv s'"
      "pt_frame (card (need s L (A L ` {0..<n}))) s s'" "trie_keep L (A L ` {0..<n}) s s'"
      "\<forall>j \<in> {0..<n}. view s' (vpath (A L j) (Suc L)) = set_leaf flags (B L j) (view s (vpath (A L j) (Suc L)))"
    by (auto simp: map_range_def A_def B_def)
  have "walk_page_table va' s' = \<lparr>res_level = of_nat L, res_pte = set_leaf flags (B L i) (view s (vpath va' (Suc L)))\<rparr>"
    if "i < n" "region va' L = region (A L i) L" for i va'
  proof -
    have eq: "vpath va' (Suc L) = vpath (A L i) (Suc L)" using that L by (simp add: vpath_region)
    show ?thesis using walk_leaf [OF 1(4) L, of "A L i" va'] 1(5) that(1) mp set_leaf_is_leaf [OF rwx] eq by simp
  qed
  moreover have "walk_page_table va' s' = walk_page_table va' s" if "\<forall>i<n. region va' L \<noteq> region (A L i) L" for va'
    using walk_keep [OF 1(4) L, of va'] that L by (auto simp: vpath_region)
  ultimately show ?thesis using 1(1-4) by blast
qed

definition leaf_of :: "u8 \<Rightarrow> paddr \<Rightarrow> pte_t" where
  "leaf_of flags pa = set_leaf flags pa zero_pte"

text \<open>A range of pages that are all unmapped.\<close>

lemma map_range_pages:
  assumes inv: "pt_inv s" and n: "n \<le> 2 ^ 27"
    and un: "\<forall>i<n. walk_page_table (va + of_nat i * 4096) s = not_valid"
    and left: "tables_bound n \<le> desc_left (smode_pool_desc s)"
    and rwx: "flags AND (PTE_R OR PTE_W OR PTE_X) \<noteq> 0"
  shows "\<exists>s'. map_range va pa flags SV39_LEVEL_PAGE PAGE_SIZE n s = Inr s' \<and> pt_inv s' \<and>
    pt_frame (tables_bound n) s s' \<and>
    (\<forall>i va'. i < n \<longrightarrow> region va' 2 = region (va + of_nat i * 4096) 2 \<longrightarrow>
       walk_page_table va' s' = \<lparr>res_level = 2, res_pte = leaf_of flags (pa + of_nat i * 4096)\<rparr>) \<and>
    (\<forall>va'. (\<forall>i<n. region va' 2 \<noteq> region (va + of_nat i * 4096) 2) \<longrightarrow> walk_page_table va' s' = walk_page_table va' s)"
proof -
  have mp: "\<forall>i<n. mappable s (va + of_nat i * 2 ^ (30 - 9 * 2)) 2"
    using unmapped_page(1) [OF inv] un by simp
  have left': "card (need s 2 ((\<lambda>i. va + of_nat i * 2 ^ (30 - 9 * 2)) ` {0..<n})) \<le> desc_left (smode_pool_desc s)"
    using need_bound [of s va n] left by simp
  have n': "n \<le> 2 ^ (9 * Suc 2)" using n by simp
  from map_range_walk [OF inv order_refl n' mp left' rwx, of pa] obtain s' where
    1: "map_range va pa flags SV39_LEVEL_PAGE PAGE_SIZE n s = Inr s'" "pt_inv s'"
      "pt_frame (card (need s 2 ((\<lambda>i. va + of_nat i * 4096) ` {0..<n}))) s s'"
    and 2: "\<And>i va'. i < n \<Longrightarrow> region va' 2 = region (va + of_nat i * 4096) 2 \<Longrightarrow> walk_page_table va' s' =
        \<lparr>res_level = 2, res_pte = set_leaf flags (pa + of_nat i * 4096) (view s (vpath va' (Suc 2)))\<rparr>"
    and 3: "\<And>va'. \<forall>i<n. region va' 2 \<noteq> region (va + of_nat i * 4096) 2 \<Longrightarrow>
        walk_page_table va' s' = walk_page_table va' s"
    by (auto simp: layout_defs)
  have "view s (vpath va' (Suc 2)) = zero_pte" if "i < n" "region va' 2 = region (va + of_nat i * 4096) 2" for i va'
  proof -
    have "vpath va' (Suc 2) = vpath (va + of_nat i * 4096) (Suc 2)" 
      using that(2) vpath_region [of 2 va' "va + of_nat i * 4096"] by simp
    then show ?thesis using unmapped_page(2) [OF inv] un that(1) by simp
  qed
  then show ?thesis using 1 2 3 pt_frame_mono [OF 1(3) need_bound] unfolding leaf_of_def by metis
qed

lemma region_offset_gen:
  assumes "L \<le> 2" "2 ^ (30 - 9 * L) dvd unat va"
  shows "region (va + of_nat x) L = region (va + of_nat (x div 2 ^ (30 - 9 * L)) * 2 ^ (30 - 9 * L)) L"
proof -
  define n where "n = 30 - 9 * L"
  have n: "n < 64" "39 = n + 9 * Suc L" using assms(1) by (auto simp: n_def)
  obtain k where k: "unat va = 2 ^ n * k" using assms(2) unfolding n_def by (rule dvdE)
  have "unat (va + of_nat x) = (unat va + x) mod 2 ^ 64" by (simp add: unat_word_ariths unat_of_nat mod_simps)
  then have "unat (va + of_nat x) mod 2 ^ 39 = (2 ^ n * k + x) mod 2 ^ 39" by (simp add: k mod_mod_cancel)
  also have "\<dots> div 2 ^ n = (2 ^ n * k + x) div 2 ^ n mod 2 ^ (9 * Suc L)"
    unfolding n(2) power_add by (rule mod_mult_div)
  also have "\<dots> = (k + x div 2 ^ n) mod 2 ^ (9 * Suc L)" by simp
  also have "\<dots> = (unat va mod 2 ^ 39 div 2 ^ n + x div 2 ^ n) mod 2 ^ (9 * Suc L)"
  proof -
    have "unat va mod 2 ^ 39 div 2 ^ n = unat va div 2 ^ n mod 2 ^ (9 * Suc L)"
      unfolding n(2) power_add by (rule mod_mult_div)
    then show ?thesis by (simp add: k mod_simps)
  qed
  finally show ?thesis using region_add [OF assms(1), of va "x div 2 ^ n"] by (simp add: region_def n_def)
qed

lemma page_offset_gen:
  fixes va :: u64
  assumes "n < 64" "2 ^ n dvd unat va"
  shows "(va + of_nat x) AND mask n = of_nat (x mod 2 ^ n)"
proof (rule word_unat_eq_iff [THEN iffD2])
  have d: "(2 :: nat) ^ n dvd 2 ^ 64" using assms(1) by (intro le_imp_power_dvd) simp
  have "unat (va + of_nat x) = (unat va + x) mod 2 ^ 64" by (simp add: unat_word_ariths unat_of_nat mod_simps)
  then have "unat (va + of_nat x) mod 2 ^ n = (unat va + x) mod 2 ^ n" using d by (simp add: mod_mod_cancel)
  also have "\<dots> = x mod 2 ^ n" using assms(2) by (metis mod_add_left_eq dvd_imp_mod_0 add_0)
  finally have e: "unat (va + of_nat x) mod 2 ^ n = x mod 2 ^ n" .
  have "x mod 2 ^ n < 2 ^ 64"
    using order_less_trans [OF mod_less_divisor [of "2 ^ n" x] power_strict_increasing [of n 64 "2 :: nat"]] assms(1)
    by simp
  with e assms(1) show "unat ((va + of_nat x) AND mask n) = unat (of_nat (x mod 2 ^ n) :: u64)"
    by (simp add: unat_of_nat unat_mod_u64 unat_pow2 take_bit_eq_mod flip: take_bit_eq_mask)
qed

text \<open>The physical addresses of a range that has been mapped.\<close>

lemma range_get_pa:
  fixes va pa :: u64
  assumes L: "L \<le> 2" and al: "2 ^ (30 - 9 * L) dvd unat va" "2 ^ (30 - 9 * L) dvd unat pa"
    and pa: "unat pa + 2 ^ (30 - 9 * L) * n \<le> 2 ^ 56"
    and w: "\<forall>i va'. i < n \<longrightarrow> region va' L = region (va + of_nat i * 2 ^ (30 - 9 * L)) L \<longrightarrow>
       (\<exists>e. walk_page_table va' s = \<lparr>res_level = of_nat L, res_pte = set_leaf flags (pa + of_nat i * 2 ^ (30 - 9 * L)) e\<rparr>)"
    and x: "x < 2 ^ (30 - 9 * L) * n"
  shows "get_pa (va + of_nat x) s = pa + of_nat x"
proof -
  define m where "m = 30 - 9 * L"
  have m: "m < 64" "12 \<le> m" using L by (auto simp: m_def)
  let ?i = "x div 2 ^ m"
  have i: "?i < n" using x by (simp add: m_def less_mult_imp_div_less mult.commute)
  have le: "x div 2 ^ m * 2 ^ m \<le> x" by simp
  then have lt: "unat pa + ?i * 2 ^ m < 2 ^ 56" using x pa unfolding m_def by linarith
  have u: "unat (pa + of_nat ?i * 2 ^ m) = unat pa + ?i * 2 ^ m"
    using lt m(1) by (simp add: unat_word_ariths unat_of_nat unat_pow2 mod_simps)
  have "(4096 :: nat) dvd 2 ^ m" using m(2) le_imp_power_dvd [of 12 m "2 :: nat"] by simp
  then have d: "4096 dvd unat (pa + of_nat ?i * 2 ^ m)"
    using al(2) by (auto simp: u m_def [symmetric] intro: dvd_add dvd_mult dvd_trans)
  obtain e where "walk_page_table (va + of_nat x) s = \<lparr>res_level = of_nat L, res_pte = set_leaf flags (pa + of_nat ?i * 2 ^ m) e\<rparr>"
    using w i region_offset_gen [OF L al(1), of x] unfolding m_def by blast
  then have "get_pa (va + of_nat x) s = pa + of_nat ?i * 2 ^ m + of_nat (x mod 2 ^ m)"
    using get_pa_walk [OF _ L, of "va + of_nat x" s] page_offset_gen [OF m(1), of va x] al(1)
      pte_next_set_leaf [OF d, of flags e] lt by (simp add: u m_def [symmetric])
  also have "\<dots> = pa + of_nat (?i * 2 ^ m + x mod 2 ^ m)" by (simp only: of_nat_add of_nat_mult of_nat_power of_nat_numeral add.assoc)
  also have "?i * 2 ^ m + x mod 2 ^ m = x" by (rule div_mult_mod_eq)
  finally show ?thesis .
qed

section \<open>Descending without allocation\<close>

lemma leaf_table_found:
  assumes "table_at s (vpath va l) = Some t" "l + k \<le> 2" "table_at s (vpath va (l + k)) = Some t'"
  shows "leaf_table (va_to_sv39 va) a k (2 - of_nat l) t s = Inr (t', s)"
  using assms
proof (induction k arbitrary: l t)
  case (Suc k)
  have l: "l \<le> 2" using Suc.prems(2) by simp
  have tab: "is_table (view s (vpath va (Suc l)))"
    using table_at_prefix [of s va "l + Suc k" "Suc l"] Suc.prems(3) by simp
  then have "table_at s (vpath va (Suc l)) = Some (pte_next (view s (vpath va (Suc l))))"
    by (simp add: vpath.simps table_at_view)
  with tab Suc.IH [of "Suc l"] Suc.prems l show ?case
    by (simp add: vpath.simps view.simps get_vpn_vidx Let_def is_table_def diff_diff_eq)
qed simp

lemma leaf_table_missing:
  assumes "table_at s (vpath va l) = Some t" "l + k \<le> 2" "table_at s (vpath va (l + k)) = None"
    and "\<forall>m. l < m \<longrightarrow> m \<le> l + k \<longrightarrow> \<not> is_leaf (view s (vpath va m))"
  shows "leaf_table (va_to_sv39 va) GET_PTE_NO_ALLOC k (2 - of_nat l) t s = panic ''Page not mapped!''"
  using assms
proof (induction k arbitrary: l t)
  case (Suc k)
  have l: "l \<le> 2" using Suc.prems(2) by simp
  have nl: "\<not> is_leaf (view s (vpath va (Suc l)))" using Suc.prems(4) by simp
  show ?case
  proof (cases "pte_v (view s (vpath va (Suc l)))")
    case True
    then have "table_at s (vpath va (Suc l)) = Some (pte_next (view s (vpath va (Suc l))))"
      using nl by (simp add: vpath.simps table_at_view is_leaf_def is_table_def)
    with True Suc.IH [of "Suc l"] Suc.prems l show ?thesis
      by (simp add: vpath.simps view.simps get_vpn_vidx Let_def diff_diff_eq)
  next
    case False
    with Suc.prems(1) l show ?thesis
      by (simp add: vpath.simps view.simps get_vpn_vidx Let_def GET_PTE_NO_ALLOC_def GET_PTE_ALLOC_def)
  qed
qed simp

lemma walk_level:
  assumes "pt_inv s" "L \<le> 2" "res_level (walk_page_table va s) = of_nat L"
  shows "is_leaf (view s (vpath va (Suc L))) \<and> mappable s va L"
proof -
  define g where "g m = view s (vpath va m)" for m
  define lv where "lv = res_level (walk_page_table va s)"
  have lv: "(lv = 0 \<longrightarrow> is_leaf (g 1)) \<and> (lv = 1 \<longrightarrow> \<not> is_leaf (g 1) \<and> is_leaf (g 2)) \<and>
      (lv = 2 \<longrightarrow> \<not> is_leaf (g 1) \<and> \<not> is_leaf (g 2) \<and> is_leaf (g 3))"
    unfolding lv_def walk_view g_def [symmetric] by (simp add: not_valid_def)
  have "is_leaf (g (Suc L)) \<and> (\<forall>m. 0 < m \<longrightarrow> m \<le> L \<longrightarrow> \<not> is_leaf (g m))"
  proof -
    consider "L = 0" | "L = 1" | "L = 2" using assms(2) by linarith
    then show ?thesis
    proof cases
      case 3
      have "m = 1 \<or> m = 2" if "0 < m" "m \<le> 2" for m :: nat using that by auto
      then show ?thesis using lv assms(3) 3 unfolding lv_def [symmetric] by auto
    qed (use lv assms(3) in \<open>auto simp: lv_def [symmetric] le_Suc_eq numeral_2_eq_2\<close>)
  qed
  then show ?thesis by (auto simp: mappable_def g_def is_leaf_def is_table_def)
qed

lemma unmap_page_found:
  assumes "pt_inv s" "L \<le> 2" "mappable s va L" "is_leaf (view s (vpath va (Suc L)))"
  shows "\<exists>s'. unmap_page va (of_nat L) s = Inr s' \<and> pt_inv s' \<and> pt_frame 0 s s' \<and>
    (\<forall>q. length q \<le> 3 \<longrightarrow> view s' q = (if q = vpath va (Suc L) then zero_pte else view s q))"
proof -
  have "pte_v (view s (vpath va (Suc L)))" using assms(4) by (simp add: is_leaf_def)
  then obtain t where t: "table_at s (vpath va L) = Some t"
    by (cases "table_at s (vpath va L)") (simp_all add: vpath.simps view.simps)
  let ?a = "entry t (ucast (vidx va L))"
  have "unat (of_nat L :: u8) = L" using assms(2) by (simp add: unat_of_nat)
  with leaf_table_found [of s va 0 "page_table_root s" L t GET_PTE_NO_ALLOC] t assms
  have "unmap_page va (of_nat L) s = Inr (write_pte ?a zero_pte s)"
    by (simp add: unmap_page_def get_leaf_pte_def Let_def get_vpn_vidx vpath.simps view.simps is_leaf_def)
  moreover have nt: "length (vpath va L) < 2 \<longrightarrow> \<not> is_table (view s (vidx va L # vpath va L)) \<and> \<not> is_table zero_pte"
    using assms(4) by (auto simp: vpath.simps is_leaf_def is_table_def)
  moreover have len: "length (vpath va L) \<le> 2" using assms(2) by simp
  ultimately show ?thesis
    using pt_inv_write [OF assms(1) t len nt] view_write [OF assms(1) t len nt] pt_frame_write
    by (auto simp: vpath.simps)
qed

lemma unmap_page_walk:
  assumes "pt_inv s" "L \<le> 2" "res_level (walk_page_table va s) = of_nat L"
  shows "\<exists>s'. unmap_page va (of_nat L) s = Inr s' \<and> pt_inv s' \<and> pt_frame 0 s s' \<and>
    (\<forall>va'. walk_page_table va' s' = (if region va' L = region va L then not_valid else walk_page_table va' s))"
proof -
  from walk_level [OF assms] have lf: "is_leaf (view s (vpath va (Suc L)))" and mp: "mappable s va L" by simp_all
  from unmap_page_found [OF assms(1,2) mp lf] obtain s' where
    1: "unmap_page va (of_nat L) s = Inr s'" "pt_inv s'" "pt_frame 0 s s'"
    and 2: "\<And>q. length q \<le> 3 \<Longrightarrow> view s' q = (if q = vpath va (Suc L) then zero_pte else view s q)"
    by blast
  have nt: "\<not> is_table (view s (vpath va (Suc L)))" using lf by (auto simp: is_leaf_def is_table_def)
  have "walk_page_table va' s' = not_valid" if "region va' L = region va L" for va'
  proof -
    have eq: "vpath va' (Suc L) = vpath va (Suc L)" using that assms(2) by (simp add: vpath_region)
    have "\<not> is_leaf (view s' (vpath va' m))" if m: "0 < m" "m \<le> 3" for m
    proof (cases "m \<le> L")
      case True
      then have "vpath va' m = vpath va m" using vpath_prefix [OF eq] by simp
      then show ?thesis using 2 [of "vpath va' m"] m True mp by (auto simp: mappable_def)
    next
      case False
      then show ?thesis
        using 2 [of "vpath va' m"] m eq view_below [of s va' L m] nt
        by (cases "m = Suc L") simp_all
    qed
    then show ?thesis by (simp add: walk_view)
  qed
  moreover have "walk_page_table va' s' = walk_page_table va' s" if "region va' L \<noteq> region va L" for va'
  proof (rule walk_cong)
    fix m :: nat assume m: "0 < m" "m \<le> 3"
    have "vpath va' m \<noteq> vpath va (Suc L)"
      using that assms(2) by (cases "m = Suc L") (simp_all add: vpath_region vpath_length_ne)
    then show "view s' (vpath va' m) = view s (vpath va' m) \<or>
        \<not> is_leaf (view s' (vpath va' m)) \<and> \<not> is_leaf (view s (vpath va' m))"
      using 2 [of "vpath va' m"] m by simp
  qed
  ultimately show ?thesis using 1 by (intro exI [of _ s']) simp
qed

section \<open>The linear map\<close>

lemma setup_linear_map_eq:
  "setup_linear_map s = map_range (linear_map_start + linear_map_offset) linear_map_start (PTE_R OR PTE_W)
     SV39_LEVEL_GIGA (2 ^ 30) 13 s"
proof -
  have n: "unat (ROUNDUP linear_map_size GIGA_PAGE_SIZE div GIGA_PAGE_SIZE) = 13"
    by (simp add: ROUNDUP_def linear_map_size_def GIGA_PAGE_SIZE_def)
  have d: "GIGA_PAGE_SIZE = 2 ^ 30" by (simp add: GIGA_PAGE_SIZE_def)
  let ?f = "\<lambda>p. map_page (p + linear_map_offset) p (PTE_R OR PTE_W) SV39_LEVEL_GIGA"
  let ?g = "\<lambda>j. ?f (linear_map_start + of_nat j * GIGA_PAGE_SIZE)"
  have "rfor 0 13 (\<lambda>i (p, s). rbind (?f p s) (\<lambda>s'. Inr (p + GIGA_PAGE_SIZE, s'))) (linear_map_start, s)
      = rbind (rfor 0 13 ?g s) (\<lambda>s'. Inr (linear_map_start + of_nat (0 + 13) * GIGA_PAGE_SIZE, s'))"
    using rfor_pointer [of 0 13 ?f GIGA_PAGE_SIZE linear_map_start s] by simp
  then have "setup_linear_map s = rfor 0 13 ?g s"
    unfolding setup_linear_map_def n Let_def by (cases "rfor 0 13 ?g s") simp_all
  then show ?thesis by (simp add: map_range_def d add.assoc add.commute [of linear_map_offset] del: power_numeral)
qed

lemma linear_region:
  assumes "linear_map_start \<le> pa" "pa < linear_map_start + linear_map_size"
  defines "i \<equiv> (unat pa - unat linear_map_start) div 2 ^ 30"
  shows "i < 13" "region (pa + linear_map_offset) 0 = region (linear_map_start + linear_map_offset + of_nat i * 2 ^ 30) 0"
    "linear_map_start + of_nat i * 2 ^ 30 + (pa + linear_map_offset AND mask 30) = pa"
    "unat (linear_map_start + of_nat i * 2 ^ 30) = 5368709120 + i * 2 ^ 30"
proof -
  have b: "5368709120 \<le> unat pa" "unat pa < 19327352832"
    using assms(1,2) by (simp_all add: word_le_nat_alt word_less_nat_alt linear_map_start_def linear_map_size_def)
  have idef: "i = (unat pa - 5368709120) div 2 ^ 30" by (simp add: i_def linear_map_start_def)
  show i: "i < 13" unfolding idef using b by (simp add: less_mult_imp_div_less)
  show u: "unat (linear_map_start + of_nat i * 2 ^ 30) = 5368709120 + i * 2 ^ 30"
    using i by (simp add: linear_map_start_def unat_word_ariths unat_of_nat)
  have u2: "unat (pa + linear_map_offset) = unat pa + 18446743798831644672"
    using b by (simp add: linear_map_offset_def unat_word_ariths)
  have u3: "unat (linear_map_start + linear_map_offset + of_nat i * 2 ^ 30) = 18446743804200353792 + i * 2 ^ 30"
    using i by (simp add: linear_map_start_def linear_map_offset_def unat_word_ariths unat_of_nat)
  have e: "(unat pa + 18446743798831644672) div 2 ^ 30 = (18446743804200353792 + i * 2 ^ 30) div 2 ^ 30"
    using b unfolding idef by simp
  show "region (pa + linear_map_offset) 0 = region (linear_map_start + linear_map_offset + of_nat i * 2 ^ 30) 0"
    unfolding region_simps u2 u3 e ..
  have "unat (pa + linear_map_offset AND mask 30) = unat pa mod 2 ^ 30"
  proof -
    have "unat (pa + linear_map_offset AND mask 30) = unat (pa + linear_map_offset) mod 2 ^ 30"
      by (simp add: unat_mod_u64 take_bit_eq_mod flip: take_bit_eq_mask)
    also have "\<dots> = unat pa mod 2 ^ 30" 
      using mod_mult_self2 [of "unat pa" "2 ^ 30" 17179868928] by (simp add: u2)
    finally show ?thesis .
  qed
  moreover have "5368709120 + i * 2 ^ 30 + unat pa mod 2 ^ 30 = unat pa"
  proof -
    obtain y where y: "unat pa = 5368709120 + y" using b(1) by (metis le_Suc_ex)
    then show ?thesis using mod_mult_self2 [of y "2 ^ 30" 5] unfolding idef by (simp add: add.commute)
  qed
  ultimately show "linear_map_start + of_nat i * 2 ^ 30 + (pa + linear_map_offset AND mask 30) = pa"
    using b(2) u unat_add_less [of "linear_map_start + of_nat i * 2 ^ 30" "pa + linear_map_offset AND mask 30"]
    by (simp only: word_unat_eq_iff) simp
qed

lemma linear_map_walk:
  assumes "pt_inv s"
    and "\<forall>i<13. \<not> is_table (view s (vpath (linear_map_start + linear_map_offset + of_nat i * 2 ^ 30) 1))"
  shows "\<exists>s'. setup_linear_map s = Inr s' \<and> pt_inv s' \<and> pt_frame 0 s s' \<and>
    (\<forall>i va'. i < 13 \<longrightarrow> region va' 0 = region (linear_map_start + linear_map_offset + of_nat i * 2 ^ 30) 0 \<longrightarrow>
       (\<exists>e. walk_page_table va' s' = \<lparr>res_level = of_nat 0, res_pte = set_leaf (PTE_R OR PTE_W) (linear_map_start + of_nat i * 2 ^ 30) e\<rparr>)) \<and>
    (\<forall>va'. (\<forall>i<13. region va' 0 \<noteq> region (linear_map_start + linear_map_offset + of_nat i * 2 ^ 30) 0) \<longrightarrow>
       walk_page_table va' s' = walk_page_table va' s)"
proof -
  let ?A = "\<lambda>i. linear_map_start + linear_map_offset + of_nat i * 2 ^ (30 - 9 * 0)"
  have mp: "\<forall>i<13. mappable s (?A i) 0" using assms(2) by (simp add: mappable_def)
  have need: "need s 0 V = {}" for V by (auto simp: need_def)
  have lv: "SV39_LEVEL_GIGA = of_nat 0" by (simp add: SV39_LEVEL_GIGA_def)
  have rw: "(PTE_R OR PTE_W) AND (PTE_R OR PTE_W OR PTE_X) \<noteq> 0" by (simp add: layout_defs)
  have n: "(13 :: nat) \<le> 2 ^ (9 * Suc 0)" and l: "(0 :: nat) \<le> 2" by simp_all
  have left: "card (need s 0 (?A ` {0..<13})) \<le> desc_left (smode_pool_desc s)" by (simp add: need)
  from map_range_walk [OF assms(1) l n mp left rw, of linear_map_start]
  show ?thesis
    unfolding setup_linear_map_eq lv need card.empty mult_0_right diff_zero by blast
qed

section \<open>Properties\<close>

text \<open>
  C3. Mapping a page, mega page or giga page whose path holds no leaf above and no table at
  its level, with enough pages left for the missing tables, succeeds and preserves the
  invariant. Afterwards every address of the region translates to the given physical address
  plus its offset and carries the leaf entry with the requested flags; every address outside
  the region translates exactly as before.
\<close>

theorem map_page_translates:
  assumes "pt_inv s" "L \<le> 2" "mappable s va L" "card (need s L {va}) \<le> desc_left (smode_pool_desc s)"
    and "flags AND (PTE_R OR PTE_W OR PTE_X) \<noteq> 0" "4096 dvd unat pa" "unat pa < 2 ^ 56"
  shows "\<exists>s'. map_page va pa flags (of_nat L) s = Inr s' \<and> pt_inv s' \<and>
    (\<forall>va'. walk_page_table va' s' =
      (if region va' L = region va L
       then \<lparr>res_level = of_nat L, res_pte = set_leaf flags pa (view s (vpath va (Suc L)))\<rparr>
       else walk_page_table va' s)) \<and>
    (\<forall>va'. get_pa va' s' =
      (if region va' L = region va L then pa + (va' AND mask (30 - 9 * L)) else get_pa va' s))"
proof -
  from map_page_keep [OF assms(1-5), of pa] obtain s' where 1: "map_page va pa flags (of_nat L) s = Inr s'"
      "pt_inv s'" "trie_keep L {va} s s'"
      "view s' (vpath va (Suc L)) = set_leaf flags pa (view s (vpath va (Suc L)))"
    by blast
  have w: "walk_page_table va' s' = (if region va' L = region va L
       then \<lparr>res_level = of_nat L, res_pte = set_leaf flags pa (view s (vpath va (Suc L)))\<rparr>
       else walk_page_table va' s)" for va'
    using walk_leaf [OF 1(3) assms(2,3), of va'] walk_keep [OF 1(3) assms(2), of va'] 1(4)
      set_leaf_is_leaf [OF assms(5)] assms(2) by (simp add: vpath_region)
  moreover have "get_pa va' s' = (if region va' L = region va L then pa + (va' AND mask (30 - 9 * L)) else get_pa va' s)" for va'
  proof (cases "region va' L = region va L")
    case True
    then show ?thesis using get_pa_walk [OF _ assms(2), of va' s'] w pte_next_set_leaf [OF assms(6,7)] by simp
  next
    case False
    then show ?thesis using w by (simp add: get_pa_def)
  qed
  ultimately show ?thesis using 1(1,2) by blast
qed

lemma sample_view: "view sample_mm q = zero_pte" "table_at sample_mm (i # p) = None"
proof -
  have z: "pte_mem sample_mm a = zero_pte" for a by (simp add: sample_mm_def)
  show "view sample_mm q = zero_pte" by (cases q) (auto simp: z view.simps split: option.split)
  show "table_at sample_mm (i # p) = None" by (auto simp: z table_at.simps(2) split: option.split)
qed

lemma sample_pt_inv: "pt_inv sample_mm"
proof -
  have t: "table_at sample_mm p = Some t \<longleftrightarrow> p = [] \<and> t = 0x180008000" for p t
  proof (cases p)
    case Nil
    then show ?thesis by (auto simp: sample_mm_def)
  qed (simp add: sample_view)
  have "page_block 0x180008000 1 \<inter> smode_free sample_mm = {}"
    by (auto simp: page_block_def smode_free_def desc_free_def sample_mm_def get_emod_manager_pa_start_def)
  then show ?thesis
    using sample_mm_inv(1) by (auto simp: pt_inv_def t sample_view) (simp_all add: sample_mm_def)
qed

lemma sample_mappable: "mappable sample_mm va L"
  by (simp add: mappable_def sample_view)

lemma sample_walk: "walk_page_table va sample_mm = not_valid"
  by (simp add: walk_view sample_view)

lemma need_le: "L \<le> 2 \<Longrightarrow> card (need s L {va}) \<le> 2"
proof -
  assume L: "L \<le> 2"
  have "need s L {va} \<subseteq> vpath va ` {1..L}" by (auto simp: need_def)
  then have "card (need s L {va}) \<le> card (vpath va ` {1..L})" by (rule card_mono [rotated]) simp
  also have "\<dots> \<le> L" using card_image_le [of "{1..L}" "vpath va"] by simp
  finally show ?thesis using L by simp
qed

theorem map_page_translates_witness:
  "pt_inv sample_mm \<and> (\<exists>s'. map_page 0x1000 0x190000000 (PTE_R OR PTE_W) (of_nat 2) sample_mm = Inr s' \<and>
    pt_inv s' \<and> get_pa 0x1abc s' = 0x190000abc \<and> get_pa 0x2000 s' = 0)"
proof -
  have 1: "card (need sample_mm 2 {0x1000}) \<le> desc_left (smode_pool_desc sample_mm)"
    using need_le [of 2 sample_mm "0x1000"] by (simp add: sample_mm_inv)
  have 2: "(PTE_R OR PTE_W) AND (PTE_R OR PTE_W OR PTE_X) \<noteq> 0" by (simp add: layout_defs)
  have 3: "get_pa 0x2000 sample_mm = 0" by (simp add: get_pa_def sample_walk not_valid_def)
  from map_page_translates [OF sample_pt_inv order_refl sample_mappable 1 2, of "0x190000000"]
  obtain s' where s': "map_page 0x1000 0x190000000 (PTE_R OR PTE_W) (of_nat 2) sample_mm = Inr s'" "pt_inv s'"
      "\<forall>va'. get_pa va' s' = (if region va' 2 = region 0x1000 2 then 0x190000000 + (va' AND mask (30 - 9 * 2))
        else get_pa va' sample_mm)" by auto
  have "get_pa 0x1abc s' = 0x190000abc" using s'(3) by (simp add: region_def mask_eq_exp_minus_1)
  moreover have "get_pa 0x2000 s' = 0" using s'(3) 3 by (simp add: region_def)
  ultimately show ?thesis using s'(1,2) sample_pt_inv by blast
qed

text \<open>
  C14. Unmapping at the level at which an address is mapped removes the translation of exactly
  the addresses of that region and keeps every other translation and the invariant; unmapping
  a page that is not mapped panics instead of touching the table.
\<close>

theorem unmap_page_translates:
  assumes "pt_inv s"
  shows "(L \<le> 2 \<and> res_level (walk_page_table va s) = of_nat L \<longrightarrow>
      (\<exists>s'. unmap_page va (of_nat L) s = Inr s' \<and> pt_inv s' \<and>
        (\<forall>va'. walk_page_table va' s' =
          (if region va' L = region va L then not_valid else walk_page_table va' s)))) \<and>
    (walk_page_table va s = not_valid \<longrightarrow> unmap_page va SV39_LEVEL_PAGE s = panic ''Page not mapped!'')"
proof (intro conjI impI)
  assume "L \<le> 2 \<and> res_level (walk_page_table va s) = of_nat L"
  then show "\<exists>s'. unmap_page va (of_nat L) s = Inr s' \<and> pt_inv s' \<and>
      (\<forall>va'. walk_page_table va' s' = (if region va' L = region va L then not_valid else walk_page_table va' s))"
    using unmap_page_walk [OF assms, of L va] by blast
next
  assume "walk_page_table va s = not_valid"
  note un = unmapped_page [OF assms this]
  show "unmap_page va SV39_LEVEL_PAGE s = panic ''Page not mapped!''"
  proof (cases "table_at s (vpath va 2)")
    case None
    then have "table_at s (vpath va (0 + 2)) = None" by (simp add: numeral_2_eq_2)
    from leaf_table_missing [OF _ _ this, of "page_table_root s"] un(1)
    have "leaf_table (va_to_sv39 va) GET_PTE_NO_ALLOC 2 2 (page_table_root s) s = panic ''Page not mapped!''"
      by (simp add: mappable_def)
    then show ?thesis by (simp add: unmap_page_def get_leaf_pte_def Let_def SV39_LEVEL_PAGE_def panic_def)
  next
    case (Some t)
    have "vpath va 3 = vidx va 2 # vpath va 2" by (simp add: eval_nat_numeral vpath.simps)
    then have "\<not> pte_v (pte_mem s (entry t (ucast (vidx va 2))))" using un(2) Some by (simp add: view.simps)
    moreover have "table_at s (vpath va (0 + 2)) = Some t" using Some by (simp add: numeral_2_eq_2)
    from leaf_table_found [OF _ _ this, of "page_table_root s" GET_PTE_NO_ALLOC]
    have "leaf_table (va_to_sv39 va) GET_PTE_NO_ALLOC 2 2 (page_table_root s) s = Inr (t, s)" by simp
    ultimately show ?thesis
      using get_vpn_vidx [of 2 va]
      by (simp add: unmap_page_def get_leaf_pte_def Let_def SV39_LEVEL_PAGE_def panic_def
          GET_PTE_NO_ALLOC_def GET_PTE_ALLOC_def)
  qed
qed

theorem unmap_page_translates_witness:
  "unmap_page 0x5000 SV39_LEVEL_PAGE sample_mm = panic ''Page not mapped!'' \<and>
   (\<exists>s1 s2. map_page 0x1000 0x190000000 (PTE_R OR PTE_W) (of_nat 2) sample_mm = Inr s1 \<and>
      res_level (walk_page_table 0x1000 s1) = of_nat 2 \<and>
      unmap_page 0x1000 (of_nat 2) s1 = Inr s2 \<and> walk_page_table 0x1abc s2 = not_valid)"
proof -
  have 1: "card (need sample_mm 2 {0x1000}) \<le> desc_left (smode_pool_desc sample_mm)"
    using need_le [of 2 sample_mm "0x1000"] by (simp add: sample_mm_inv)
  have 2: "(PTE_R OR PTE_W) AND (PTE_R OR PTE_W OR PTE_X) \<noteq> 0" by (simp add: layout_defs)
  from map_page_keep [OF sample_pt_inv order_refl sample_mappable 1 2, of "0x190000000"]
  obtain s1 where s1: "map_page 0x1000 0x190000000 (PTE_R OR PTE_W) (of_nat 2) sample_mm = Inr s1" "pt_inv s1"
      "trie_keep 2 {0x1000} sample_mm s1" "is_leaf (view s1 (vpath 0x1000 (Suc 2)))"
    using set_leaf_is_leaf [OF 2] by metis
  have w: "res_level (walk_page_table 0x1000 s1) = of_nat 2"
    using walk_leaf [OF s1(3) order_refl sample_mappable s1(4) refl] by simp
  have "region 0x1abc 2 = region 0x1000 2" by (simp add: region_def)
  then show ?thesis
    using unmap_page_translates [OF s1(2), of 2 "0x1000"] unmap_page_translates [OF sample_pt_inv, of 0 "0x5000"]
      sample_walk s1(1) w by fastforce
qed

text \<open>
  C15. On a table whose root entries of the linear window hold no second-level table,
  \<open>setup_linear_map\<close> succeeds without allocating a page, and afterwards the address
  \<open>pa + linear_map_offset\<close> translates to \<open>pa\<close> for every physical address of the linear range, which
  is what lets the code reach a page table through its physical address once paging is on.
  Addresses outside the window translate as before.
\<close>

theorem linear_map_translates:
  assumes "pt_inv s"
    and "\<forall>i<13. \<not> is_table (view s (vpath (linear_map_start + linear_map_offset + of_nat i * 2 ^ 30) 1))"
  shows "\<exists>s'. setup_linear_map s = Inr s' \<and> pt_inv s' \<and>
    smode_pool_desc s' = smode_pool_desc s\<lparr>used_page_count := used_page_count (smode_pool_desc s')\<rparr> \<and>
    desc_left (smode_pool_desc s) \<le> desc_left (smode_pool_desc s') \<and>
    (\<forall>pa. linear_map_start \<le> pa \<longrightarrow> pa < linear_map_start + linear_map_size \<longrightarrow>
       get_pa (pa + linear_map_offset) s' = pa) \<and>
    (\<forall>va. (\<forall>i<13. region va 0 \<noteq> region (linear_map_start + linear_map_offset + of_nat i * 2 ^ 30) 0) \<longrightarrow>
       get_pa va s' = get_pa va s)"
proof -
  from linear_map_walk [OF assms] obtain s' where
    1: "setup_linear_map s = Inr s'" "pt_inv s'" "pt_frame 0 s s'"
    and 2: "\<And>i va'. i < 13 \<Longrightarrow> region va' 0 = region (linear_map_start + linear_map_offset + of_nat i * 2 ^ 30) 0 \<Longrightarrow>
       \<exists>e. walk_page_table va' s' =
         \<lparr>res_level = of_nat 0, res_pte = set_leaf (PTE_R OR PTE_W) (linear_map_start + of_nat i * 2 ^ 30) e\<rparr>"
    and 3: "\<And>va'. \<forall>i<13. region va' 0 \<noteq> region (linear_map_start + linear_map_offset + of_nat i * 2 ^ 30) 0 \<Longrightarrow>
       walk_page_table va' s' = walk_page_table va' s" by blast
  have "get_pa (pa + linear_map_offset) s' = pa"
    if pa: "linear_map_start \<le> pa" "pa < linear_map_start + linear_map_size" for pa
  proof -
    define i where "i = (unat pa - unat linear_map_start) div 2 ^ 30"
    note lr = linear_region [OF pa, folded i_def]
    obtain e where "walk_page_table (pa + linear_map_offset) s' =
        \<lparr>res_level = of_nat 0, res_pte = set_leaf (PTE_R OR PTE_W) (linear_map_start + of_nat i * 2 ^ 30) e\<rparr>"
      using 2 [OF lr(1,2)] by blast
    moreover have "pte_next (set_leaf (PTE_R OR PTE_W) (linear_map_start + of_nat i * 2 ^ 30) e)
        = linear_map_start + of_nat i * 2 ^ 30"
      by (rule pte_next_set_leaf) (use lr(1) in \<open>simp_all only: lr(4)\<close>, simp_all)
    ultimately show ?thesis
      using get_pa_walk [of "pa + linear_map_offset" s' 0] lr(3) by simp
  qed
  moreover have "get_pa va s' = get_pa va s"
    if "\<forall>i<13. region va 0 \<noteq> region (linear_map_start + linear_map_offset + of_nat i * 2 ^ 30) 0" for va
    using 3 [OF that] by (simp add: get_pa_def)
  moreover have "smode_pool_desc s' = smode_pool_desc s\<lparr>used_page_count := used_page_count (smode_pool_desc s')\<rparr>"
    "desc_left (smode_pool_desc s) \<le> desc_left (smode_pool_desc s')"
    using 1(3) by (auto simp: pt_frame_def)
  ultimately show ?thesis using 1(1,2) by blast
qed

theorem linear_map_translates_witness:
  "pt_inv sample_mm \<and> (\<exists>s'. setup_linear_map sample_mm = Inr s' \<and>
    get_pa (0x180008000 + linear_map_offset) s' = 0x180008000)"
proof -
  have r: "linear_map_start \<le> 0x180008000" "0x180008000 < linear_map_start + linear_map_size"
    by (simp_all add: linear_map_start_def linear_map_size_def)
  show ?thesis using linear_map_translates [OF sample_pt_inv] r sample_pt_inv by (auto simp: sample_view)
qed

end
