(* ===== verification/Enclave_Memory.thy ===== *)
theory Enclave_Memory
  imports Page_Map
begin

text \<open>
  \<^verbatim>\<open>emod_manager/memory/memory.c\<close> and the end of \<^verbatim>\<open>page_pool.c\<close>: mapping the sections of the
  manager, the S-mode pool, emodules, the user stack and arguments, and the program break.

  The security monitor behind \<^verbatim>\<open>__ecall_ebi_mem_alloc\<close> is not part of the repository. It is the
  parameter \<open>ebi\<close>: given the requests made before and the number of partitions asked for, it
  returns the physical address (\<open>-1\<close> for a refusal) and the number it suggests instead. The linker
  symbols that delimit the sections are a parameter as well. Loops of the source run over an
  \<^verbatim>\<open>int\<close> counter below a \<^verbatim>\<open>usize\<close> bound; the model counts with a natural number, which is the same
  for the bounds below \<open>2 ^ 31\<close> that a pool or partition can have.
\<close>

section \<open>Emodules\<close>

definition increase_emodule_brk :: "usize \<Rightarrow> mm_state \<Rightarrow> mm_state" where
  "increase_emodule_brk increment s = s\<lparr>emodule_brk := emodule_brk s + increment\<rparr>"

definition get_emodule_brk :: "mm_state \<Rightarrow> vaddr" where
  "get_emodule_brk s = emodule_brk s"

definition alloc_map_emodule :: "usize \<Rightarrow> mm_state \<Rightarrow> (vaddr \<times> mm_state) res" where
  "alloc_map_emodule emodule_size s =
     (let alloc_size = PAGE_UP emodule_size;
          number_of_pages = drop_bit PAGE_SHIFT alloc_size in
      rbind (alloc_smode_page number_of_pages s) (\<lambda>(paddr, s).
      let vaddr = get_emodule_brk s in
      rbind (map_range vaddr paddr (PTE_R OR PTE_W OR PTE_X) SV39_LEVEL_PAGE PAGE_SIZE
        (unat number_of_pages) s) (\<lambda>s.
      Inr (vaddr, increase_emodule_brk alloc_size s))))"

definition get_va_pa_offset :: "mm_state \<Rightarrow> usize" where
  "get_va_pa_offset s = EMOD_MANAGER_VA_START - emod_manager_pa_start s"

section \<open>Sections of the manager and the S-mode pool\<close>

record memory_section =
  sec_offset :: usize
  sec_size :: usize
  sec_vaddr :: vaddr
  sec_flags :: u8

definition map_section :: "memory_section \<Rightarrow> mm_state \<Rightarrow> mm_state res" where
  "map_section mem_sec s =
     (let paddr = sec_offset mem_sec + get_emod_manager_pa_start s;
          vaddr = sec_vaddr mem_sec;
          number_of_pages = drop_bit PAGE_SHIFT (PAGE_UP (sec_size mem_sec)) in
      if sec_offset mem_sec mod PAGE_SIZE \<noteq> 0 then panic ''Section not aligned!''
      else map_range vaddr paddr (sec_flags mem_sec) SV39_LEVEL_PAGE PAGE_SIZE (unat number_of_pages) s)"

text \<open>The linker symbols: start and end address of each section.\<close>

record linker_symbols =
  sym_text :: "paddr \<times> paddr"
  sym_init_data :: "paddr \<times> paddr"
  sym_rodata :: "paddr \<times> paddr"
  sym_srodata :: "paddr \<times> paddr"
  sym_data :: "paddr \<times> paddr"
  sym_bss :: "paddr \<times> paddr"

definition MAP_SECTION :: "paddr \<times> paddr \<Rightarrow> u8 \<Rightarrow> paddr \<Rightarrow> vaddr \<Rightarrow> mm_state \<Rightarrow> mm_state res" where
  "MAP_SECTION bounds flags start_pa start_va s =
     (let offset = fst bounds - start_pa; sz = snd bounds - fst bounds; vaddr = offset + start_va in
      map_section \<lparr>sec_offset = offset, sec_size = sz, sec_vaddr = vaddr, sec_flags = flags\<rparr> s)"

definition map_sections :: "linker_symbols \<Rightarrow> mm_state \<Rightarrow> mm_state res" where
  "map_sections syms s =
     (let start_pa = get_emod_manager_pa_start s; start_va = start_pa + get_va_pa_offset s in
      rbind (MAP_SECTION (sym_text syms) PTE_X start_pa start_va s) (\<lambda>s.
      rbind (MAP_SECTION (sym_init_data syms) (PTE_R OR PTE_W) start_pa start_va s) (\<lambda>s.
      rbind (MAP_SECTION (sym_rodata syms) PTE_R start_pa start_va s) (\<lambda>s.
      rbind (MAP_SECTION (sym_srodata syms) PTE_R start_pa start_va s) (\<lambda>s.
      rbind (MAP_SECTION (sym_data syms) (PTE_R OR PTE_W) start_pa start_va s) (\<lambda>s.
      MAP_SECTION (sym_bss syms) (PTE_R OR PTE_W) start_pa start_va s))))))"

definition map_smode_page_pool :: "mm_state \<Rightarrow> mm_state res" where
  "map_smode_page_pool s =
     (let start_pa = get_emod_manager_pa_start s + pool_offset (smode_pool_desc s);
          sz = pool_size (smode_pool_desc s) in
      map_range (start_pa + get_va_pa_offset s) start_pa (PTE_R OR PTE_W) SV39_LEVEL_PAGE PAGE_SIZE
        (unat (drop_bit PAGE_SHIFT sz)) s)"

definition alloc_smode_stack :: "mm_state \<Rightarrow> (paddr \<times> mm_state) res" where
  "alloc_smode_stack s =
     rbind (alloc_smode_page (drop_bit PAGE_SHIFT SMODE_STACK_SIZE) s) (\<lambda>(pa, s).
     Inr (pa + SMODE_STACK_SIZE, s))"

section \<open>User arguments and stack\<close>

text \<open>\<open>argv\<close> is the array of pointers that the host placed at \<open>user_argv_pa\<close>.\<close>

definition map_user_argv ::
  "paddr \<Rightarrow> u64 \<Rightarrow> (nat \<Rightarrow> u64) \<Rightarrow> mm_state \<Rightarrow> ((nat \<Rightarrow> u64) \<times> mm_state) res" where
  "map_user_argv user_argv_pa argc argv s =
     (let user_argv_va = UMODE_STACK_TOP_VA in
      rbind (rfor 0 (unat argc) (\<lambda>i argv.
          let offset = argv i mod PAGE_SIZE in Inr (argv(i := user_argv_va + offset))) argv) (\<lambda>argv.
      rbind (map_page user_argv_va user_argv_pa (PTE_U OR PTE_R OR PTE_W) SV39_LEVEL_PAGE s) (\<lambda>s.
      Inr (argv, s))))"

definition alloc_map_umode_stack :: "mm_state \<Rightarrow> (vaddr \<times> mm_state) res" where
  "alloc_map_umode_stack s =
     (let number_of_pages = drop_bit PAGE_SHIFT UMODE_STACK_SIZE in
      rbind (alloc_umode_page number_of_pages s) (\<lambda>(umode_stack_bottom_paddr, s).
      let umode_stack_bottom_vaddr = UMODE_STACK_TOP_VA - UMODE_STACK_SIZE in
      rbind (map_range umode_stack_bottom_vaddr umode_stack_bottom_paddr (PTE_U OR PTE_R OR PTE_W)
        SV39_LEVEL_PAGE PAGE_SIZE (unat number_of_pages) s) (\<lambda>s.
      Inr (UMODE_STACK_TOP_VA, s))))"

section \<open>The program break\<close>

definition get_prog_brk :: "mm_state \<Rightarrow> vaddr" where
  "get_prog_brk s = prog_brk s"

definition set_prog_brk :: "vaddr \<Rightarrow> mm_state \<Rightarrow> mm_state" where
  "set_prog_brk new_brk s = s\<lparr>prog_brk := new_brk\<rparr>"

definition init_prog_brk :: "mm_state \<Rightarrow> mm_state" where
  "init_prog_brk s =
     (let u_mode_pool_remain_size = get_umode_page_pool_avail_size s in
      set_prog_brk (EUSR_HEAP_START_ALIGNED - u_mode_pool_remain_size) s)"

definition map_brk_from_pool :: "vaddr \<Rightarrow> usize \<Rightarrow> mm_state \<Rightarrow> mm_state res" where
  "map_brk_from_pool aligned_old_brk sz s =
     (let number_of_pages = drop_bit PAGE_SHIFT sz in
      rbind (alloc_umode_page number_of_pages s) (\<lambda>(paddr, s).
      map_range aligned_old_brk paddr (PTE_U OR PTE_W OR PTE_R) SV39_LEVEL_PAGE PAGE_SIZE
        (unat number_of_pages) s))"

type_synonym ebi = "usize list \<Rightarrow> usize \<Rightarrow> paddr \<times> usize"

definition ebi_mem_alloc :: "ebi \<Rightarrow> usize \<Rightarrow> mm_state \<Rightarrow> paddr \<times> usize \<times> mm_state" where
  "ebi_mem_alloc ebi number_of_partitions s =
     (let (paddr, ret) = ebi (ebi_log s) number_of_partitions in
      (paddr, ret, s\<lparr>ebi_log := number_of_partitions # ebi_log s\<rparr>))"

text \<open>
  The inner \<^verbatim>\<open>do ... while (pa == -1UL)\<close> loop: the granted address and the number of partitions of
  the request that was granted.
\<close>

fun ebi_retry :: "ebi \<Rightarrow> nat \<Rightarrow> usize \<Rightarrow> mm_state \<Rightarrow> (paddr \<times> usize \<times> mm_state) res" where
  "ebi_retry ebi 0 sug s = Inl Diverge"
| "ebi_retry ebi (Suc fuel) sug s =
     (let allocated = sug; (pa, sug, s) = ebi_mem_alloc ebi allocated s in
      if pa = -1 then ebi_retry ebi fuel sug s else Inr (pa, allocated, s))"

text \<open>The outer loop; \<open>fuel\<close> bounds both loops.\<close>

fun map_partitions ::
  "ebi \<Rightarrow> nat \<Rightarrow> nat \<Rightarrow> u8 \<Rightarrow> usize \<Rightarrow> usize \<Rightarrow> vaddr \<Rightarrow> mm_state \<Rightarrow> mm_state res" where
  "map_partitions ebi fuel 0 flags number_of_partitions left va s = (if left > 0 then Inl Diverge else Inr s)"
| "map_partitions ebi fuel (Suc k) flags number_of_partitions left va s =
     (if left > 0 then
        rbind (ebi_retry ebi fuel left s) (\<lambda>(pa, allocated, s).
        rbind (map_range va pa flags SV39_LEVEL_MEGA PARTITION_SIZE (unat number_of_partitions) s) (\<lambda>s.
        map_partitions ebi fuel k flags number_of_partitions (left - allocated)
          (va + allocated * PARTITION_SIZE) s))
      else Inr s)"

definition alloc_map_brk_outside_pool ::
  "ebi \<Rightarrow> nat \<Rightarrow> vaddr \<Rightarrow> usize \<Rightarrow> mm_state \<Rightarrow> mm_state res" where
  "alloc_map_brk_outside_pool ebi fuel partition_aligned_old_brk sz s =
     (let number_of_partitions = drop_bit PARTITION_SHIFT sz in
      if sz mod PARTITION_SIZE \<noteq> 0 then panic ''size is not aligned''
      else map_partitions ebi fuel fuel (PTE_U OR PTE_W OR PTE_R) number_of_partitions
        number_of_partitions partition_aligned_old_brk s)"

definition sys_brk_handler :: "ebi \<Rightarrow> nat \<Rightarrow> vaddr \<Rightarrow> mm_state \<Rightarrow> (u64 \<times> mm_state) res" where
  "sys_brk_handler ebi fuel new_brk s =
     (let old_brk = get_prog_brk s in
      if new_brk = 0 then Inr (old_brk, s)
      else
        let aligned_new_brk = PAGE_UP new_brk; aligned_old_brk = PAGE_UP old_brk in
        rbind (if aligned_new_brk > aligned_old_brk then
            let remained_umode_pool_size = get_umode_page_pool_avail_size s;
                required_size = aligned_new_brk - aligned_old_brk in
            rbind (if remained_umode_pool_size > 0 then
                if required_size \<le> remained_umode_pool_size then
                  rbind (map_brk_from_pool aligned_old_brk required_size s) (\<lambda>s.
                  Inr (aligned_old_brk, s))
                else
                  rbind (map_brk_from_pool aligned_old_brk remained_umode_pool_size s) (\<lambda>s.
                  Inr (aligned_old_brk + remained_umode_pool_size, s))
              else Inr (aligned_old_brk, s)) (\<lambda>(aligned_old_brk, s).
            let partition_aligned_new_brk = PARTITION_UP aligned_new_brk;
                partition_aligned_old_brk = PARTITION_UP aligned_old_brk in
            if partition_aligned_new_brk > partition_aligned_old_brk then
              let required_partition_size = partition_aligned_new_brk - partition_aligned_old_brk in
              alloc_map_brk_outside_pool ebi fuel partition_aligned_old_brk required_partition_size s
            else Inr s)
          else Inr s) (\<lambda>s.
        Inr (new_brk, set_prog_brk new_brk s)))"

section \<open>What a mapped range guarantees\<close>

text \<open>
  \<open>pages_mapped va pa flags n s s'\<close>: in \<open>s'\<close> the \<open>n\<close> pages from \<open>va\<close> translate to the \<open>n\<close> pages from \<open>pa\<close>,
  byte by byte, by leaf entries with exactly \<open>flags\<close>, and all other addresses translate as in \<open>s\<close>.
\<close>

definition pages_mapped :: "vaddr \<Rightarrow> paddr \<Rightarrow> u8 \<Rightarrow> nat \<Rightarrow> mm_state \<Rightarrow> mm_state \<Rightarrow> bool" where
  "pages_mapped va pa flags n s s' \<longleftrightarrow>
     (\<forall>x < 4096 * n. get_pa (va + of_nat x) s' = pa + of_nat x \<and>
        walk_page_table (va + of_nat x) s' =
          \<lparr>res_level = SV39_LEVEL_PAGE, res_pte = leaf_of flags (pa + of_nat (x div 4096) * 4096)\<rparr>) \<and>
     (\<forall>va'. (\<forall>i<n. region va' 2 \<noteq> region (va + of_nat i * 4096) 2) \<longrightarrow>
        walk_page_table va' s' = walk_page_table va' s)"

lemma map_pages:
  assumes "pt_inv s" "n \<le> 2 ^ 27" "\<forall>i<n. walk_page_table (va + of_nat i * 4096) s = not_valid"
    and "tables_bound n \<le> desc_left (smode_pool_desc s)" "flags AND (PTE_R OR PTE_W OR PTE_X) \<noteq> 0"
    and al: "4096 dvd unat va" "4096 dvd unat pa" "unat pa + 4096 * n \<le> 2 ^ 56"
  shows "\<exists>s'. map_range va pa flags SV39_LEVEL_PAGE PAGE_SIZE n s = Inr s' \<and> pt_inv s' \<and>
    pt_frame (tables_bound n) s s' \<and> pages_mapped va pa flags n s s'"
proof -
  from map_range_pages [OF assms(1-5), of pa] obtain s' where
    1: "map_range va pa flags SV39_LEVEL_PAGE PAGE_SIZE n s = Inr s'" "pt_inv s'" "pt_frame (tables_bound n) s s'"
    and 2: "\<forall>i va'. i < n \<longrightarrow> region va' 2 = region (va + of_nat i * 4096) 2 \<longrightarrow>
       walk_page_table va' s' = \<lparr>res_level = 2, res_pte = leaf_of flags (pa + of_nat i * 4096)\<rparr>"
    and 3: "\<forall>va'. (\<forall>i<n. region va' 2 \<noteq> region (va + of_nat i * 4096) 2) \<longrightarrow> walk_page_table va' s' = walk_page_table va' s"
    by blast
  have al': "2 ^ (30 - 9 * 2) dvd unat va" "2 ^ (30 - 9 * 2) dvd unat pa" "unat pa + 2 ^ (30 - 9 * 2) * n \<le> 2 ^ 56"
    using al by simp_all
  have w: "\<forall>i va'. i < n \<longrightarrow> region va' 2 = region (va + of_nat i * 2 ^ (30 - 9 * 2)) 2 \<longrightarrow>
       (\<exists>e. walk_page_table va' s' = \<lparr>res_level = of_nat 2, res_pte = set_leaf flags (pa + of_nat i * 2 ^ (30 - 9 * 2)) e\<rparr>)"
    using 2 by (auto simp: leaf_of_def)
  have "get_pa (va + of_nat x) s' = pa + of_nat x \<and> walk_page_table (va + of_nat x) s' =
          \<lparr>res_level = SV39_LEVEL_PAGE, res_pte = leaf_of flags (pa + of_nat (x div 4096) * 4096)\<rparr>"
    if x: "x < 4096 * n" for x
  proof
    show "get_pa (va + of_nat x) s' = pa + of_nat x"
      using range_get_pa [OF order_refl al' w, of x] x by simp
    have "x div 4096 < n" using x by (simp add: less_mult_imp_div_less mult.commute)
    then show "walk_page_table (va + of_nat x) s' =
          \<lparr>res_level = SV39_LEVEL_PAGE, res_pte = leaf_of flags (pa + of_nat (x div 4096) * 4096)\<rparr>"
      using 2 region_offset_gen [OF order_refl al'(1), of x] by (simp add: SV39_LEVEL_PAGE_def)
  qed
  with 1 3 show ?thesis unfolding pages_mapped_def by blast
qed

section \<open>Updates that do not touch the page table\<close>

lemma view_cong:
  assumes "pte_mem s' = pte_mem s" "page_table_root s' = page_table_root s"
  shows "table_at s' p = table_at s p" "view s' q = view s q" "walk_page_table va s' = walk_page_table va s"
    "get_pa va s' = get_pa va s"
proof -
  show t: "table_at s' p = table_at s p" for p by (induction p) (simp_all add: table_at.simps(2) assms split: option.split)
  show v: "view s' q = view s q" for q by (cases q) (simp_all add: view.simps t assms split: option.split)
  show "walk_page_table va s' = walk_page_table va s" "get_pa va s' = get_pa va s"
    by (simp_all add: get_pa_def walk_view v)
qed

lemma pt_inv_shrink:
  assumes "pt_inv s" "pte_mem s' = pte_mem s" "page_table_root s' = page_table_root s"
    and "smode_inv s'" "smode_free s' \<subseteq> smode_free s"
  shows "pt_inv s'"
proof -
  note eq = view_cong [OF assms(2,3)]
  show ?thesis
    using assms unfolding pt_inv_def eq by (simp only: assms(2,3)) blast
qed

lemma smode_cong:
  assumes "smode_pool_desc s' = smode_pool_desc s" "satp s' = satp s" "emod_manager_pa_start s' = emod_manager_pa_start s"
  shows "smode_inv s' = smode_inv s" "smode_free s' = smode_free s"
  using get_emod_manager_pa_start_cong [OF assms(2,3)] by (simp_all add: smode_inv_def smode_free_def assms(1))

lemma pt_inv_cong:
  assumes "pte_mem s' = pte_mem s" "page_table_root s' = page_table_root s"
    "smode_pool_desc s' = smode_pool_desc s" "satp s' = satp s" "emod_manager_pa_start s' = emod_manager_pa_start s"
  shows "pt_inv s \<Longrightarrow> pt_inv s'"
  using pt_inv_shrink [OF _ assms(1,2)] smode_cong [OF assms(3-5)] by (simp add: pt_inv_def)

lemma alloc_smode_pages:
  assumes "pt_inv s" "unat n < 2 ^ 51" "unat n \<le> desc_left (smode_pool_desc s)"
  shows "\<exists>pa s1. alloc_smode_page n s = Inr (pa, s1) \<and> pt_inv s1 \<and> page_block pa (unat n) \<subseteq> smode_free s \<and>
    smode_free s1 = smode_free s - page_block pa (unat n) \<and>
    desc_left (smode_pool_desc s) = desc_left (smode_pool_desc s1) + unat n \<and>
    4096 dvd unat pa \<and> unat pa + 4096 * unat n \<le> 2 ^ 56 \<and>
    s1 = s\<lparr>smode_pool_desc := (smode_pool_desc s)\<lparr>used_page_count := used_page_count (smode_pool_desc s) + n\<rparr>\<rparr>"
proof -
  have inv: "smode_inv s" using assms(1) by (simp add: pt_inv_def)
  from smode.alloc_fits [OF inv assms(2)] assms(3) obtain pa s1 where al: "alloc_smode_page n s = Inr (pa, s1)" by blast
  note st = smode.alloc_step [OF inv assms(2) al]
  have s1: "s1 = s\<lparr>smode_pool_desc := (smode_pool_desc s)\<lparr>used_page_count := used_page_count (smode_pool_desc s) + n\<rparr>\<rparr>"
    "pa = get_emod_manager_pa_start s + pool_offset (smode_pool_desc s) + used_page_count (smode_pool_desc s) * PAGE_SIZE"
    using al by (auto simp: alloc_smode_page_eq Let_def split: if_splits)
  have d: "desc_ok (get_emod_manager_pa_start s) (smode_pool_desc s)" using inv by (simp add: smode_inv_def)
  have "4096 dvd unat pa" "unat pa + 4096 * unat n \<le> 2 ^ 56"
    using pool_top_unat [OF d] d assms(3) by (auto simp: s1(2) desc_ok_def desc_left_def)
  moreover have "pt_inv s1" by (rule pt_inv_shrink [OF assms(1)]) (use st s1(1) in auto)
  ultimately show ?thesis using al st s1(1) by blast
qed

lemma alloc_umode_pages:
  assumes "umode_inv s" "unat n < 2 ^ 51" "unat n \<le> desc_left (umode_pool_desc s)"
  shows "\<exists>pa s1. alloc_umode_page n s = Inr (pa, s1) \<and> umode_inv s1 \<and> page_block pa (unat n) \<subseteq> umode_free s \<and>
    umode_free s1 = umode_free s - page_block pa (unat n) \<and>
    desc_left (umode_pool_desc s) = desc_left (umode_pool_desc s1) + unat n \<and>
    4096 dvd unat pa \<and> unat pa + 4096 * unat n \<le> 2 ^ 56 \<and>
    s1 = s\<lparr>umode_pool_desc := (umode_pool_desc s)\<lparr>used_page_count := used_page_count (umode_pool_desc s) + n\<rparr>\<rparr>"
proof -
  from umode.alloc_fits [OF assms(1,2)] assms(3) obtain pa s1 where al: "alloc_umode_page n s = Inr (pa, s1)" by blast
  note st = umode.alloc_step [OF assms(1,2) al]
  have s1: "s1 = s\<lparr>umode_pool_desc := (umode_pool_desc s)\<lparr>used_page_count := used_page_count (umode_pool_desc s) + n\<rparr>\<rparr>"
    "pa = get_umode_pool_pa_aligned s + pool_offset (umode_pool_desc s) + used_page_count (umode_pool_desc s) * PAGE_SIZE"
    using al by (auto simp: alloc_umode_page_eq Let_def split: if_splits)
  have d: "desc_ok (get_umode_pool_pa_aligned s) (umode_pool_desc s)" using assms(1) by (simp add: umode_inv_def)
  have "4096 dvd unat pa" "unat pa + 4096 * unat n \<le> 2 ^ 56"
    using pool_top_unat [OF d] d assms(3) by (auto simp: s1(2) desc_ok_def desc_left_def)
  then show ?thesis using al st s1(1) by blast
qed

lemma rwx_flags [simp]:
  "(PTE_R OR PTE_W OR PTE_X) AND (PTE_R OR PTE_W OR PTE_X) \<noteq> 0"
  "(PTE_U OR PTE_R OR PTE_W) AND (PTE_R OR PTE_W OR PTE_X) \<noteq> 0"
  "(PTE_U OR PTE_W OR PTE_R) AND (PTE_R OR PTE_W OR PTE_X) \<noteq> 0"
  "(PTE_R OR PTE_W) AND (PTE_R OR PTE_W OR PTE_X) \<noteq> 0"
  by (simp_all add: layout_defs)

lemma pt_frame_simps:
  assumes "pt_frame k s s'"
  shows "umode_pool_desc s' = umode_pool_desc s" "umode_pool_pa_aligned s' = umode_pool_pa_aligned s"
    "emodule_brk s' = emodule_brk s" "prog_brk s' = prog_brk s" "satp s' = satp s" "ebi_log s' = ebi_log s"
    "page_table_root s' = page_table_root s" "emod_manager_pa_start s' = emod_manager_pa_start s"
    "desc_left (smode_pool_desc s) \<le> desc_left (smode_pool_desc s') + k"
  using assms by (auto simp: pt_frame_def)

lemma pt_frame_smode_free: "pt_frame k s s' \<Longrightarrow> smode_free s' \<subseteq> smode_free s"
proof -
  assume f: "pt_frame k s s'"
  then have "unat (used_page_count (smode_pool_desc s)) \<le> unat (used_page_count (smode_pool_desc s'))"
    "pool_offset (smode_pool_desc s') = pool_offset (smode_pool_desc s)"
    "pool_size (smode_pool_desc s') = pool_size (smode_pool_desc s)"
    by (auto simp: pt_frame_def word_le_nat_alt)
  then show ?thesis
    using get_emod_manager_pa_start_cong [OF pt_frame_simps(5,8) [OF f]]
    by (auto simp: smode_free_def desc_free_def)
qed

section \<open>Emodules\<close>

lemma alloc_map_emodule_spec:
  fixes emodule_size :: usize
  defines "n \<equiv> unat (PAGE_UP emodule_size) div 4096"
  assumes "pt_inv s" "4096 dvd unat (emodule_brk s)" "n \<le> 2 ^ 27"
    and "\<forall>i<n. walk_page_table (emodule_brk s + of_nat i * 4096) s = not_valid"
    and "n + tables_bound n \<le> desc_left (smode_pool_desc s)"
  shows "\<exists>pa s'. alloc_map_emodule emodule_size s = Inr (emodule_brk s, s') \<and> pt_inv s' \<and>
    emodule_brk s' = emodule_brk s + PAGE_UP emodule_size \<and>
    page_block pa n \<subseteq> smode_free s - smode_free s' \<and>
    pages_mapped (emodule_brk s) pa (PTE_R OR PTE_W OR PTE_X) n s s' \<and>
    desc_left (smode_pool_desc s) \<le> desc_left (smode_pool_desc s') + n + tables_bound n"
proof -
  let ?n = "drop_bit PAGE_SHIFT (PAGE_UP emodule_size)"
  have un: "unat ?n = n" by (simp add: n_def unat_drop_page)
  have lt: "unat ?n < 2 ^ 51" "unat ?n \<le> desc_left (smode_pool_desc s)" using assms(4,6) by (simp_all add: un)
  from alloc_smode_pages [OF assms(2) lt] obtain pa s1 where
    1: "alloc_smode_page ?n s = Inr (pa, s1)" "pt_inv s1" "page_block pa n \<subseteq> smode_free s" "smode_free s1 = smode_free s - page_block pa n"
      "desc_left (smode_pool_desc s) = desc_left (smode_pool_desc s1) + n" "4096 dvd unat pa"
      "unat pa + 4096 * n \<le> 2 ^ 56" and s1: "emodule_brk s1 = emodule_brk s" "pte_mem s1 = pte_mem s"
      "page_table_root s1 = page_table_root s"
    unfolding un by (metis (no_types, lifting) mm_state.simps(1-10) mm_state.update_convs(2) mm_state.surjective)
  note w = view_cong(3) [OF s1(2,3)]
  have "\<forall>i<n. walk_page_table (emodule_brk s + of_nat i * 4096) s1 = not_valid" using assms(5) by (simp add: w)
  moreover have "tables_bound n \<le> desc_left (smode_pool_desc s1)" using assms(6) 1(5) by simp
  ultimately obtain s2 where
    2: "map_range (emodule_brk s) pa (PTE_R OR PTE_W OR PTE_X) SV39_LEVEL_PAGE PAGE_SIZE n s1 = Inr s2"
      "pt_inv s2" "pt_frame (tables_bound n) s1 s2" "pages_mapped (emodule_brk s) pa (PTE_R OR PTE_W OR PTE_X) n s1 s2"
    using map_pages [OF 1(2) assms(4) _ _ rwx_flags(1) assms(3) 1(6,7)] by blast
  let ?s = "increase_emodule_brk (PAGE_UP emodule_size) s2"
  have e: "pte_mem ?s = pte_mem s2" "page_table_root ?s = page_table_root s2" "smode_pool_desc ?s = smode_pool_desc s2"
      "satp ?s = satp s2" "emod_manager_pa_start ?s = emod_manager_pa_start s2"
    by (simp_all add: increase_emodule_brk_def)
  have "alloc_map_emodule emodule_size s = Inr (emodule_brk s, ?s)"
    using 1(1) 2(1) s1(1) by (simp add: alloc_map_emodule_def Let_def get_emodule_brk_def un)
  moreover have "pt_inv ?s" using pt_inv_cong [OF e 2(2)] .
  moreover have "emodule_brk ?s = emodule_brk s + PAGE_UP emodule_size"
    using pt_frame_simps(3) [OF 2(3)] s1(1) by (simp add: increase_emodule_brk_def)
  moreover have "pages_mapped (emodule_brk s) pa (PTE_R OR PTE_W OR PTE_X) n s ?s"
    using 2(4) unfolding pages_mapped_def view_cong(3,4) [OF e(1,2)] w .
  moreover have "desc_left (smode_pool_desc s) \<le> desc_left (smode_pool_desc ?s) + n + tables_bound n"
    using pt_frame_simps(9) [OF 2(3)] 1(5) e(3) by simp
  moreover have "page_block pa n \<subseteq> smode_free s - smode_free ?s"
    using 1(3,4) pt_frame_smode_free [OF 2(3)] smode_cong(2) [OF e(3-5)] by blast
  ultimately show ?thesis by blast
qed

section \<open>The program break\<close>

lemma umode_pages_spec:
  fixes sz :: usize
  defines "n \<equiv> unat sz div 4096"
  assumes "pt_inv s" "umode_inv s" "4096 dvd unat va" "n \<le> 2 ^ 27" "n \<le> desc_left (umode_pool_desc s)"
    and "\<forall>i<n. walk_page_table (va + of_nat i * 4096) s = not_valid"
    and "tables_bound n \<le> desc_left (smode_pool_desc s)"
    and rwx: "flags AND (PTE_R OR PTE_W OR PTE_X) \<noteq> 0"
  shows "\<exists>pa s'. rbind (alloc_umode_page (drop_bit PAGE_SHIFT sz) s) (\<lambda>(paddr, s).
      map_range va paddr flags SV39_LEVEL_PAGE PAGE_SIZE (unat (drop_bit PAGE_SHIFT sz)) s) = Inr s' \<and> pt_inv s' \<and> umode_inv s' \<and>
    page_block pa n \<subseteq> umode_free s \<and> umode_free s' = umode_free s - page_block pa n \<and>
    pages_mapped va pa flags n s s' \<and>
    prog_brk s' = prog_brk s \<and> ebi_log s' = ebi_log s \<and>
    umode_pool_desc s' = umode_pool_desc s\<lparr>used_page_count := used_page_count (umode_pool_desc s) + of_nat n\<rparr>"
proof -
  let ?n = "drop_bit PAGE_SHIFT sz"
  have un: "unat ?n = n" by (simp add: n_def unat_drop_page)
  have on: "of_nat n = ?n" unfolding un [symmetric] by simp
  have lt: "unat ?n < 2 ^ 51" "unat ?n \<le> desc_left (umode_pool_desc s)" using assms(5,6) by (simp_all add: un)
  from alloc_umode_pages [OF assms(3) lt] obtain pa s1 where
    1: "alloc_umode_page ?n s = Inr (pa, s1)" "umode_inv s1" "page_block pa n \<subseteq> umode_free s"
      "umode_free s1 = umode_free s - page_block pa n" "4096 dvd unat pa" "unat pa + 4096 * n \<le> 2 ^ 56"
      "s1 = s\<lparr>umode_pool_desc := (umode_pool_desc s)\<lparr>used_page_count := used_page_count (umode_pool_desc s) + ?n\<rparr>\<rparr>"
    unfolding un by blast
  have pt: "pt_inv s1" by (rule pt_inv_cong [OF _ _ _ _ _ assms(2)]) (simp_all add: 1(7))
  have w: "walk_page_table va' s1 = walk_page_table va' s" for va' by (rule view_cong(3)) (simp_all add: 1(7))
  have un1: "\<forall>i<n. walk_page_table (va + of_nat i * 4096) s1 = not_valid" using assms(7) by (simp add: w)
  have left: "tables_bound n \<le> desc_left (smode_pool_desc s1)" using assms(8) by (simp add: 1(7))
  from map_pages [OF pt assms(5) un1 left rwx assms(4) 1(5,6)] obtain s2 where
    2: "map_range va pa flags SV39_LEVEL_PAGE PAGE_SIZE n s1 = Inr s2"
      "pt_inv s2" "pt_frame (tables_bound n) s1 s2" "pages_mapped va pa flags n s1 s2"
    by blast
  note f = pt_frame_simps [OF 2(3)]
  have "rbind (alloc_umode_page ?n s) (\<lambda>(paddr, s). map_range va paddr flags SV39_LEVEL_PAGE PAGE_SIZE (unat ?n) s) = Inr s2"
    using 1(1) 2(1) by (simp add: un)
  moreover have "umode_inv s2" "umode_free s2 = umode_free s - page_block pa n"
    using 1(2,4) f(1,2) by (simp_all add: umode_inv_def umode_free_def get_umode_pool_pa_aligned_def)
  moreover have "pages_mapped va pa flags n s s2" using 2(4) unfolding pages_mapped_def w .
  moreover have "prog_brk s2 = prog_brk s" "ebi_log s2 = ebi_log s"
    "umode_pool_desc s2 = umode_pool_desc s\<lparr>used_page_count := used_page_count (umode_pool_desc s) + of_nat n\<rparr>"
    using f(1,4,6) by (simp_all add: 1(7) on)
  ultimately show ?thesis using 1(3) 2(2) by blast
qed

lemma map_brk_from_pool_spec:
  fixes sz :: usize
  defines "n \<equiv> unat sz div 4096"
  assumes "pt_inv s" "umode_inv s" "4096 dvd unat va" "n \<le> 2 ^ 27" "n \<le> desc_left (umode_pool_desc s)"
    and "\<forall>i<n. walk_page_table (va + of_nat i * 4096) s = not_valid"
    and "tables_bound n \<le> desc_left (smode_pool_desc s)"
  shows "\<exists>pa s'. map_brk_from_pool va sz s = Inr s' \<and> pt_inv s' \<and> umode_inv s' \<and>
    page_block pa n \<subseteq> umode_free s \<and> umode_free s' = umode_free s - page_block pa n \<and>
    pages_mapped va pa (PTE_U OR PTE_W OR PTE_R) n s s' \<and>
    prog_brk s' = prog_brk s \<and> ebi_log s' = ebi_log s \<and>
    umode_pool_desc s' = umode_pool_desc s\<lparr>used_page_count := used_page_count (umode_pool_desc s) + of_nat n\<rparr>"
  using umode_pages_spec [OF assms(2-4), of sz "PTE_U OR PTE_W OR PTE_R"] assms(5-)
  by (simp add: map_brk_from_pool_def n_def Let_def)

text \<open>
  The layout that \<open>init_prog_brk\<close> sets up and that growing the break out of the pool keeps: the
  rest of the U-mode pool exactly fills the gap below the partition-aligned heap start.
\<close>

definition brk_layout :: "mm_state \<Rightarrow> bool" where
  "brk_layout s \<longleftrightarrow> PAGE_UP (prog_brk s) + get_umode_page_pool_avail_size s = EUSR_HEAP_START_ALIGNED \<and>
     get_umode_page_pool_avail_size s < PARTITION_SIZE"

lemma unat_avail:
  assumes "umode_inv s"
  shows "unat (get_umode_page_pool_avail_size s) = 4096 * desc_left (umode_pool_desc s)"
proof -
  have d: "desc_ok (get_umode_pool_pa_aligned s) (umode_pool_desc s)" using assms by (simp add: umode_inv_def)
  have u: "unat (used_page_count (umode_pool_desc s) * PAGE_SIZE) = 4096 * unat (used_page_count (umode_pool_desc s))"
    using used_plus(2) [OF d, of 0] by simp
  obtain k where k: "unat (pool_size (umode_pool_desc s)) = 4096 * k" using d by (auto simp: desc_ok_def)
  have "used_page_count (umode_pool_desc s) * PAGE_SIZE \<le> pool_size (umode_pool_desc s)"
    using d by (simp add: word_le_nat_alt u desc_ok_def)
  then have "unat (get_umode_page_pool_avail_size s) = 4096 * k - 4096 * unat (used_page_count (umode_pool_desc s))"
    by (simp add: get_umode_page_pool_avail_size_def unat_sub u k)
  then show ?thesis by (simp add: desc_left_def k right_diff_distrib')
qed

lemma PARTITION_UP_heap:
  assumes "unat x \<le> 0x100000000" "0x100000000 - 0x200000 < unat x"
  shows "PARTITION_UP x = EUSR_HEAP_START_ALIGNED"
proof -
  have "unat (x + 0x1fffff) = unat x + 0x1fffff" by (subst unat_add_less) (use assms in simp_all)
  moreover have "(unat x + 0x1fffff) div 0x200000 = 2048" using assms by (intro div_nat_eqI) simp_all
  ultimately show ?thesis
    by (simp add: word_unat_eq_iff unat_PARTITION_UP EUSR_HEAP_START_ALIGNED_def)
qed

lemma sys_brk_pool:
  fixes new_brk :: vaddr and s :: mm_state
  defines "n \<equiv> unat (PAGE_UP new_brk - PAGE_UP (prog_brk s)) div 4096"
  assumes inv: "pt_inv s" "umode_inv s" and lay: "brk_layout s" and new: "new_brk \<noteq> 0"
    and grow: "PAGE_UP (prog_brk s) < PAGE_UP new_brk" "PAGE_UP new_brk \<le> EUSR_HEAP_START_ALIGNED"
    and un: "\<forall>i<n. walk_page_table (PAGE_UP (prog_brk s) + of_nat i * 4096) s = not_valid"
    and left: "tables_bound n \<le> desc_left (smode_pool_desc s)"
  shows "\<exists>pa s'. sys_brk_handler ebi fuel new_brk s = Inr (new_brk, s') \<and> prog_brk s' = new_brk \<and>
    pt_inv s' \<and> umode_inv s' \<and> brk_layout s' \<and> ebi_log s' = ebi_log s \<and>
    page_block pa n \<subseteq> umode_free s - umode_free s' \<and>
    pages_mapped (PAGE_UP (prog_brk s)) pa (PTE_U OR PTE_W OR PTE_R) n s s'"
proof -
  let ?o = "PAGE_UP (prog_brk s)" and ?w = "PAGE_UP new_brk" and ?a = "get_umode_page_pool_avail_size s"
  have a: "unat ?a < 0x200000" using lay by (simp add: brk_layout_def PARTITION_SIZE_def word_less_nat_alt)
  have "?o = EUSR_HEAP_START_ALIGNED - ?a" using lay by (simp add: brk_layout_def eq_diff_eq)
  moreover have "?a \<le> EUSR_HEAP_START_ALIGNED" using a by (simp add: word_le_nat_alt EUSR_HEAP_START_ALIGNED_def)
  ultimately have o: "unat ?o + unat ?a = 0x100000000"
    using a by (simp add: unat_sub EUSR_HEAP_START_ALIGNED_def)
  have w: "unat ?o < unat ?w" "unat ?w \<le> 0x100000000"
    using grow by (simp_all add: word_less_nat_alt word_le_nat_alt EUSR_HEAP_START_ALIGNED_def)
  have r: "unat (?w - ?o) = unat ?w - unat ?o" using grow(1) by (simp add: unat_sub)
  obtain i j where ij: "unat ?w = 4096 * i" "unat ?o = 4096 * j" using PAGE_UP_dvd by (meson dvdE)
  have n: "n = i - j" "unat (?w - ?o) = 4096 * n" using r w by (simp_all add: n_def ij right_diff_distrib')
  have dl: "4096 * n \<le> 4096 * desc_left (umode_pool_desc s)" "4096 * n < 0x200000"
    using o w a n(2) r unat_avail [OF inv(2)] by linarith+
  from map_brk_from_pool_spec [OF inv PAGE_UP_dvd, of "?w - ?o" "prog_brk s", folded n_def] dl un left
  obtain pa s1 where 1: "map_brk_from_pool ?o (?w - ?o) s = Inr s1" "pt_inv s1" "umode_inv s1"
      "page_block pa n \<subseteq> umode_free s" "umode_free s1 = umode_free s - page_block pa n"
      "pages_mapped ?o pa (PTE_U OR PTE_W OR PTE_R) n s s1" "ebi_log s1 = ebi_log s"
      "umode_pool_desc s1 = umode_pool_desc s\<lparr>used_page_count := used_page_count (umode_pool_desc s) + of_nat n\<rparr>"
    by auto
  have c: "?a > 0" "?w - ?o \<le> ?a"
    using o w r by (simp_all add: word_less_nat_alt word_le_nat_alt)
  have p: "PARTITION_UP ?w = EUSR_HEAP_START_ALIGNED" "PARTITION_UP ?o = EUSR_HEAP_START_ALIGNED"
    using PARTITION_UP_heap [of ?w] PARTITION_UP_heap [of ?o] o w a by simp_all
  let ?s = "set_prog_brk new_brk s1"
  have e: "pte_mem ?s = pte_mem s1" "page_table_root ?s = page_table_root s1" "smode_pool_desc ?s = smode_pool_desc s1"
      "satp ?s = satp s1" "emod_manager_pa_start ?s = emod_manager_pa_start s1"
    by (simp_all add: set_prog_brk_def)
  have u: "umode_inv ?s = umode_inv s1" "umode_free ?s = umode_free s1"
    by (simp_all add: set_prog_brk_def umode_inv_def umode_free_def get_umode_pool_pa_aligned_def)
  have "sys_brk_handler ebi fuel new_brk s = Inr (new_brk, ?s)"
    using new grow(1) c p 1(1) by (simp add: sys_brk_handler_def get_prog_brk_def Let_def)
  moreover have "brk_layout ?s"
  proof -
    have "get_umode_page_pool_avail_size ?s = ?a - of_nat n * PAGE_SIZE"
      by (simp add: get_umode_page_pool_avail_size_def set_prog_brk_def 1(8) algebra_simps)
    also have "of_nat n * PAGE_SIZE = ?w - ?o"
      using n(2) dl(2) by (simp add: word_unat_eq_iff PAGE_SIZE_def unat_word_ariths unat_of_nat mult.commute)
    finally have av: "get_umode_page_pool_avail_size ?s = ?a - (?w - ?o)" .
    then have "unat (get_umode_page_pool_avail_size ?s) < 0x200000" using c(2) a by (simp add: unat_sub)
    then have "get_umode_page_pool_avail_size ?s < PARTITION_SIZE"
      by (simp add: PARTITION_SIZE_def word_less_nat_alt)
    moreover have "?w + (?a - (?w - ?o)) = ?o + ?a" by simp
    ultimately show ?thesis using lay av by (simp add: brk_layout_def) (simp add: set_prog_brk_def add.commute)
  qed
  moreover have "pages_mapped ?o pa (PTE_U OR PTE_W OR PTE_R) n s ?s"
    using 1(6) unfolding pages_mapped_def view_cong(3,4) [OF e(1,2)] .
  moreover have "pt_inv ?s" using pt_inv_cong [OF e 1(2)] .
  moreover have "prog_brk ?s = new_brk" "ebi_log ?s = ebi_log s" using 1(7) by (simp_all add: set_prog_brk_def)
  moreover have "page_block pa n \<subseteq> umode_free s - umode_free ?s" using 1(4,5) u(2) by blast
  ultimately show ?thesis using 1(3) u(1) by blast
qed

section \<open>Requests to the monitor\<close>

lemma pages_apart:
  assumes "i < 2 ^ 27" "j < 2 ^ 27" "i \<noteq> j"
  shows "region (va + of_nat i * 4096) 2 \<noteq> region (va + of_nat j * 4096) 2"
proof -
  have "inj_on (\<lambda>i. vpath (va + of_nat i * 2 ^ (30 - 9 * 2)) (Suc 2)) {0..<2 ^ 27}"
    by (rule region_inj) simp_all
  then show ?thesis using assms vpath_region [of 2 "va + of_nat i * 4096" "va + of_nat j * 4096"]
    by (auto simp: inj_on_def)
qed

lemma walk_mega_mappable:
  assumes "walk_page_table va s = \<lparr>res_level = of_nat 1, res_pte = e\<rparr>"
  shows "mappable s va 1"
proof -
  have "\<not> is_leaf (view s (vpath va 1))" "is_leaf (view s (vpath va 2))"
    using assms unfolding walk_view by (auto simp: not_valid_def split: if_splits)
  then show ?thesis by (auto simp: mappable_def is_leaf_def is_table_def numeral_2_eq_2 le_Suc_eq)
qed

text \<open>
  One round of the outer loop after a grant of \<open>pa\<close>. What was mappable stays mappable, and no
  path needs a table that it did not need before.
\<close>

lemma partitions_round:
  fixes va pa :: u64 and n :: nat
  defines "V \<equiv> (\<lambda>i. va + of_nat i * 0x200000) ` {0..<n}"
  assumes "pt_inv s" "n \<le> 2 ^ 18"
    and al: "0x200000 dvd unat va" "0x200000 dvd unat pa" "unat pa + 0x200000 * n \<le> 2 ^ 56"
    and mp: "\<forall>i<n. mappable s (va + of_nat i * 0x200000) 1"
    and left: "card (need s 1 V) \<le> desc_left (smode_pool_desc s)"
  shows "\<exists>s'. map_range va pa (PTE_U OR PTE_W OR PTE_R) SV39_LEVEL_MEGA PARTITION_SIZE n (s\<lparr>ebi_log := l\<rparr>) = Inr s' \<and>
    pt_inv s' \<and> ebi_log s' = l \<and> desc_left (smode_pool_desc s) \<le> desc_left (smode_pool_desc s') + card (need s 1 V) \<and>
    (\<forall>x < 0x200000 * n. get_pa (va + of_nat x) s' = pa + of_nat x) \<and>
    (\<forall>va'. (\<forall>i<n. region va' 1 \<noteq> region (va + of_nat i * 0x200000) 1) \<longrightarrow>
       walk_page_table va' s' = walk_page_table va' s) \<and>
    (\<forall>va'. mappable s va' 1 \<longrightarrow> mappable s' va' 1) \<and> (\<forall>W. need s' 1 W \<subseteq> need s 1 W)"
proof -
  let ?fl = "PTE_U OR PTE_W OR PTE_R"
  define s1 where "s1 = s\<lparr>ebi_log := l\<rparr>"
  have inv1: "pt_inv s1" by (rule pt_inv_cong [OF _ _ _ _ _ assms(2)]) (simp_all add: s1_def)
  have vw: "view s1 q = view s q" "walk_page_table a s1 = walk_page_table a s" for q a
    using view_cong(2,3) [of s1 s] by (simp_all add: s1_def)
  have nd: "need s1 k W = need s k W" for k W by (simp add: need_def vw)
  have d1: "smode_pool_desc s1 = smode_pool_desc s" by (simp add: s1_def)
  have V: "(\<lambda>i. va + of_nat i * 2 ^ (30 - 9 * 1)) ` {0..<n} = V" by (simp add: V_def)
  have mp1: "\<forall>i<n. mappable s1 (va + of_nat i * 2 ^ (30 - 9 * 1)) 1" using mp by (simp add: mappable_def vw)
  have left1: "card (need s1 1 ((\<lambda>i. va + of_nat i * 2 ^ (30 - 9 * 1)) ` {0..<n})) \<le> desc_left (smode_pool_desc s1)"
    using left unfolding d1 nd V .
  have n1: "n \<le> 2 ^ (9 * Suc 1)" and L: "(1 :: nat) \<le> 2" using assms(3) by simp_all
  from map_range_walk [OF inv1 L n1 mp1 left1 rwx_flags(3), of pa] obtain s2 where
    2: "map_range va pa ?fl SV39_LEVEL_MEGA PARTITION_SIZE n s1 = Inr s2" "pt_inv s2"
      "pt_frame (card (need s 1 V)) s1 s2" "trie_keep 1 V s1 s2"
    and w: "\<forall>i va'. i < n \<longrightarrow> region va' 1 = region (va + of_nat i * 2 ^ (30 - 9 * 1)) 1 \<longrightarrow>
       walk_page_table va' s2 = \<lparr>res_level = of_nat 1, res_pte = set_leaf ?fl (pa + of_nat i * 2 ^ (30 - 9 * 1)) (view s1 (vpath va' (Suc 1)))\<rparr>"
    and k: "\<forall>va'. (\<forall>i<n. region va' 1 \<noteq> region (va + of_nat i * 2 ^ (30 - 9 * 1)) 1) \<longrightarrow> walk_page_table va' s2 = walk_page_table va' s1"
    unfolding SV39_LEVEL_MEGA_def PARTITION_SIZE_def V nd by fastforce
  have al': "2 ^ (30 - 9 * 1) dvd unat va" "2 ^ (30 - 9 * 1) dvd unat pa" "unat pa + 2 ^ (30 - 9 * 1) * n \<le> 2 ^ 56"
    using al by simp_all
  have "\<forall>i va'. i < n \<longrightarrow> region va' 1 = region (va + of_nat i * 2 ^ (30 - 9 * 1)) 1 \<longrightarrow>
       (\<exists>e. walk_page_table va' s2 = \<lparr>res_level = of_nat 1, res_pte = set_leaf ?fl (pa + of_nat i * 2 ^ (30 - 9 * 1)) e\<rparr>)"
    using w by blast
  then have "\<forall>x < 0x200000 * n. get_pa (va + of_nat x) s2 = pa + of_nat x"
    using range_get_pa [OF L al'] by simp
  moreover have "mappable s2 va' 1" if m: "mappable s va' 1" for va'
  proof (cases "\<exists>i<n. region va' 1 = region (va + of_nat i * 2 ^ (30 - 9 * 1)) 1")
    case True
    then show ?thesis using w walk_mega_mappable by blast
  next
    case False
    have "mappable s1 va' 1" using m by (simp add: mappable_def vw)
    moreover have "\<forall>v \<in> V. vpath va' (Suc 1) \<noteq> vpath v (Suc 1)" using False L unfolding V [symmetric] by (auto simp: vpath_region)
    ultimately show ?thesis by (intro mappable_keep [OF 2(4) L])
  qed
  moreover have "need s2 1 W \<subseteq> need s 1 W" for W
    using trie_keep_table [OF 2(4) _ L] unfolding need_def vw by blast
  moreover have "ebi_log s2 = l" "desc_left (smode_pool_desc s) \<le> desc_left (smode_pool_desc s2) + card (need s 1 V)"
    using pt_frame_simps(6,9) [OF 2(3)] by (simp_all add: s1_def)
  ultimately show ?thesis using 2(1,2) k unfolding s1_def [symmetric] by (simp add: vw)
qed

lemma partition_count:
  assumes "n \<le> 2 ^ 18"
  shows "unat (of_nat n :: u64) = n" "drop_bit PARTITION_SHIFT (of_nat n * PARTITION_SIZE) = (of_nat n :: u64)"
    "of_nat n * PARTITION_SIZE mod PARTITION_SIZE = (0 :: u64)" "0 < n \<Longrightarrow> (0 :: u64) < of_nat n"
proof -
  show un: "unat (of_nat n :: u64) = n" using assms by (simp add: unat_of_nat)
  have sz: "unat (of_nat n * PARTITION_SIZE) = n * 0x200000"
    using assms by (simp add: PARTITION_SIZE_def unat_word_ariths unat_of_nat)
  show "drop_bit PARTITION_SHIFT (of_nat n * PARTITION_SIZE) = (of_nat n :: u64)"
    "of_nat n * PARTITION_SIZE mod PARTITION_SIZE = (0 :: u64)"
    by (simp_all add: word_unat_eq_iff PARTITION_SHIFT_def drop_bit_eq_div unat_div_u64 unat_mod_u64 sz un)
      (simp add: PARTITION_SIZE_def)
  show "0 < n \<Longrightarrow> (0 :: u64) < of_nat n" using un by (simp add: word_less_nat_alt)
qed

lemma partitions_apart:
  assumes "i < 2 ^ 18" "j < 2 ^ 18" "i \<noteq> j"
  shows "region (va + of_nat i * 0x200000) 1 \<noteq> region (va + of_nat j * 0x200000) 1"
proof -
  have "inj_on (\<lambda>i. vpath (va + of_nat i * 2 ^ (30 - 9 * 1)) (Suc 1)) {0..<2 ^ 18}"
    by (rule region_inj) simp_all
  then show ?thesis using assms vpath_region [of 1 "va + of_nat i * 0x200000" "va + of_nat j * 0x200000"]
    by (auto simp: inj_on_def)
qed

text \<open>One grant for the whole request.\<close>

lemma outside_pool_single:
  fixes va pa :: u64
  assumes "pt_inv s" "0 < n" "n \<le> 2 ^ 18" "0 < fuel" "ebi (ebi_log s) (of_nat n) = (pa, r)" "pa \<noteq> -1"
    and al: "0x200000 dvd unat va" "0x200000 dvd unat pa" "unat pa + 0x200000 * n \<le> 2 ^ 56"
    and mp: "\<forall>i<n. mappable s (va + of_nat i * 0x200000) 1"
    and left: "card (need s 1 ((\<lambda>i. va + of_nat i * 0x200000) ` {0..<n})) \<le> desc_left (smode_pool_desc s)"
  shows "\<exists>s'. alloc_map_brk_outside_pool ebi fuel va (of_nat n * PARTITION_SIZE) s = Inr s' \<and> pt_inv s' \<and>
    ebi_log s' = of_nat n # ebi_log s \<and>
    (\<forall>x < 0x200000 * n. get_pa (va + of_nat x) s' = pa + of_nat x) \<and>
    (\<forall>va'. (\<forall>i<n. region va' 1 \<noteq> region (va + of_nat i * 0x200000) 1) \<longrightarrow>
       walk_page_table va' s' = walk_page_table va' s)"
proof -
  note pc = partition_count [OF assms(3)]
  from partitions_round [OF assms(1,3) al mp left, of "of_nat n # ebi_log s"] obtain s2 where
    2: "map_range va pa (PTE_U OR PTE_W OR PTE_R) SV39_LEVEL_MEGA PARTITION_SIZE n (s\<lparr>ebi_log := of_nat n # ebi_log s\<rparr>) = Inr s2"
      "pt_inv s2" "ebi_log s2 = of_nat n # ebi_log s" "\<forall>x < 0x200000 * n. get_pa (va + of_nat x) s2 = pa + of_nat x"
      "\<forall>va'. (\<forall>i<n. region va' 1 \<noteq> region (va + of_nat i * 0x200000) 1) \<longrightarrow> walk_page_table va' s2 = walk_page_table va' s"
    by blast
  obtain f where f: "fuel = Suc f" using assms(4) by (cases fuel) auto
  have "map_partitions ebi fuel f fl (of_nat n) 0 va' s2 = Inr s2" for fl va' by (cases f) simp_all
  then have "alloc_map_brk_outside_pool ebi fuel va (of_nat n * PARTITION_SIZE) s = Inr s2"
    using pc(2-4) assms(2,5,6) 2(1) pc(1)
    by (simp add: alloc_map_brk_outside_pool_def f Let_def ebi_mem_alloc_def)
  then show ?thesis using 2(2-5) by blast
qed

text \<open>Two grants: each is used for the whole number of partitions.\<close>

lemma outside_pool_rounds:
  assumes n: "0 < g" "g < n" "n \<le> 2 ^ 18" "2 \<le> fuel"
    and ebi: "ebi (ebi_log s) (of_nat n) = (-1, of_nat g)" "ebi (of_nat n # ebi_log s) (of_nat g) = (pa\<^sub>1, r\<^sub>1)"
      "ebi (of_nat g # of_nat n # ebi_log s) (of_nat (n - g)) = (pa\<^sub>2, r\<^sub>2)" "pa\<^sub>1 \<noteq> -1" "pa\<^sub>2 \<noteq> -1"
    and "map_range va pa\<^sub>1 (PTE_U OR PTE_W OR PTE_R) SV39_LEVEL_MEGA PARTITION_SIZE n
        (s\<lparr>ebi_log := of_nat g # of_nat n # ebi_log s\<rparr>) = Inr s1" "ebi_log s1 = of_nat g # of_nat n # ebi_log s"
    and "map_range (va + of_nat g * PARTITION_SIZE) pa\<^sub>2 (PTE_U OR PTE_W OR PTE_R) SV39_LEVEL_MEGA PARTITION_SIZE n
        (s1\<lparr>ebi_log := of_nat (n - g) # ebi_log s1\<rparr>) = Inr s2"
  shows "alloc_map_brk_outside_pool ebi fuel va (of_nat n * PARTITION_SIZE) s = Inr s2"
proof -
  obtain f where f: "fuel = Suc (Suc f)" using n(4) by (metis Suc_le_D numeral_2_eq_2 Suc_le_mono)
  have e: "(of_nat n :: u64) - of_nat g = of_nat (n - g)" using n(2) by (simp add: of_nat_diff)
  have "n - g \<le> 2 ^ 18" using n(3) by simp
  then have "(0 :: u64) < of_nat (n - g)" by (rule partition_count(4)) (use n(2) in simp)
  moreover have "map_partitions ebi fuel f fl (of_nat n) 0 va' s2 = Inr s2" for fl va' by (cases f) simp_all
  ultimately show ?thesis
    using partition_count [OF n(3)] assms unfolding f
    by (simp add: alloc_map_brk_outside_pool_def Let_def ebi_mem_alloc_def e del: of_nat_diff)
qed

lemma outside_pool_twice:
  fixes va pa\<^sub>1 pa\<^sub>2 :: u64
  defines "A \<equiv> \<lambda>i. va + of_nat i * 0x200000"
  assumes "pt_inv s" and n: "0 < g" "g < n" "n + g \<le> 2 ^ 18" "2 \<le> fuel"
    and ebi: "ebi (ebi_log s) (of_nat n) = (-1, of_nat g)" "ebi (of_nat n # ebi_log s) (of_nat g) = (pa\<^sub>1, r\<^sub>1)"
      "ebi (of_nat g # of_nat n # ebi_log s) (of_nat (n - g)) = (pa\<^sub>2, r\<^sub>2)" "pa\<^sub>1 \<noteq> -1" "pa\<^sub>2 \<noteq> -1"
    and al: "0x200000 dvd unat va" "0x200000 dvd unat pa\<^sub>1" "0x200000 dvd unat pa\<^sub>2"
      "unat pa\<^sub>1 + 0x200000 * n \<le> 2 ^ 56" "unat pa\<^sub>2 + 0x200000 * n \<le> 2 ^ 56"
    and mp: "\<forall>i<n + g. mappable s (A i) 1"
    and left: "card (need s 1 (A ` {0..<n})) + card (need s 1 (A ` {g..<n + g})) \<le> desc_left (smode_pool_desc s)"
  shows "\<exists>s'. alloc_map_brk_outside_pool ebi fuel va (of_nat n * PARTITION_SIZE) s = Inr s' \<and> pt_inv s' \<and>
    ebi_log s' = of_nat (n - g) # of_nat g # of_nat n # ebi_log s \<and>
    (\<forall>x < 0x200000 * g. get_pa (va + of_nat x) s' = pa\<^sub>1 + of_nat x) \<and>
    (\<forall>x < 0x200000 * n. get_pa (A g + of_nat x) s' = pa\<^sub>2 + of_nat x)"
proof -
  have n18: "n \<le> 2 ^ 18" using n by simp
  let ?l\<^sub>1 = "of_nat g # of_nat n # ebi_log s" and ?l\<^sub>2 = "of_nat (n - g) # of_nat g # of_nat n # ebi_log s"
  have A: "A g + of_nat i * 0x200000 = A (g + i)" for i by (simp add: A_def algebra_simps)
  have Ai: "(\<lambda>i. A g + of_nat i * 0x200000) ` {0..<n} = A ` {g..<n + g}"
    unfolding A image_image [symmetric] image_add_atLeastLessThan by (simp add: add.commute)
  have mp1: "\<forall>i<n. mappable s (va + of_nat i * 0x200000) 1" using mp by (simp add: A_def)
  have left1: "card (need s 1 ((\<lambda>i. va + of_nat i * 0x200000) ` {0..<n})) \<le> desc_left (smode_pool_desc s)"
    using left by (simp add: A_def)
  from partitions_round [OF assms(2) n18 al(1,2,4) mp1 left1, of ?l\<^sub>1, folded A_def] obtain s1 where
    1: "map_range va pa\<^sub>1 (PTE_U OR PTE_W OR PTE_R) SV39_LEVEL_MEGA PARTITION_SIZE n (s\<lparr>ebi_log := ?l\<^sub>1\<rparr>) = Inr s1"
      "pt_inv s1" "ebi_log s1 = ?l\<^sub>1"
      "desc_left (smode_pool_desc s) \<le> desc_left (smode_pool_desc s1) + card (need s 1 (A ` {0..<n}))"
      "\<forall>x < 0x200000 * n. get_pa (va + of_nat x) s1 = pa\<^sub>1 + of_nat x"
      "\<forall>va'. mappable s va' 1 \<longrightarrow> mappable s1 va' 1" "\<forall>W. need s1 1 W \<subseteq> need s 1 W"
    by blast
  have mp2: "\<forall>i<n. mappable s1 (A g + of_nat i * 0x200000) 1" using mp 1(6) unfolding A by simp
  have "card (need s1 1 (A ` {g..<n + g})) \<le> card (need s 1 (A ` {g..<n + g}))"
    by (intro card_mono finite_need) (use 1(7) in auto)
  then have left2: "card (need s1 1 ((\<lambda>i. A g + of_nat i * 0x200000) ` {0..<n})) \<le> desc_left (smode_pool_desc s1)"
    unfolding Ai using left 1(4) by linarith
  have "unat (A g) = (unat va + g * 0x200000) mod 2 ^ 64" by (simp add: A_def unat_word_ariths unat_of_nat mod_simps)
  moreover have "0x200000 dvd (unat va + g * 0x200000) mod 2 ^ 64" by (rule dvd_mod) (use al(1) in simp_all)
  ultimately have al2: "0x200000 dvd unat (A g)" by simp
  from partitions_round [OF 1(2) n18 al2 al(3,5) mp2 left2, of ?l\<^sub>2, unfolded A] obtain s2 where
    2: "map_range (A g) pa\<^sub>2 (PTE_U OR PTE_W OR PTE_R) SV39_LEVEL_MEGA PARTITION_SIZE n (s1\<lparr>ebi_log := ?l\<^sub>2\<rparr>) = Inr s2"
      "pt_inv s2" "ebi_log s2 = ?l\<^sub>2" "\<forall>x < 0x200000 * n. get_pa (A g + of_nat x) s2 = pa\<^sub>2 + of_nat x"
      "\<forall>va'. (\<forall>i<n. region va' 1 \<noteq> region (A (g + i)) 1) \<longrightarrow> walk_page_table va' s2 = walk_page_table va' s1"
    by blast
  have "A g = va + of_nat g * PARTITION_SIZE" by (simp add: A_def PARTITION_SIZE_def)
  then have "alloc_map_brk_outside_pool ebi fuel va (of_nat n * PARTITION_SIZE) s = Inr s2"
    using outside_pool_rounds [OF n(1,2) n18 n(4) ebi 1(1,3)] 2(1) 1(3) by simp
  moreover have "get_pa (va + of_nat x) s2 = pa\<^sub>1 + of_nat x" if x: "x < 0x200000 * g" for x
  proof -
    have "x div 0x200000 < g" using x by (simp add: less_mult_imp_div_less mult.commute)
    then have "region (va + of_nat x) 1 \<noteq> region (A (g + i)) 1" if "i < n" for i
      using region_offset_gen [of 1 va x] al(1) partitions_apart [of "x div 0x200000" "g + i" va] n that
      by (simp add: A_def)
    then have "walk_page_table (va + of_nat x) s2 = walk_page_table (va + of_nat x) s1" using 2(5) by blast
    then show ?thesis using 1(5) x n by (simp add: get_pa_def)
  qed
  ultimately show ?thesis using 2(2-4) by blast
qed

text \<open>
  Raising the break when the pool has less than what is asked for but the new break lies below
  the partition boundary that the pool ends under: the monitor is not asked for the rest.
\<close>

lemma sys_brk_pool_short:
  fixes new_brk :: vaddr and s :: mm_state
  defines "R \<equiv> get_umode_page_pool_avail_size s"
  defines "n \<equiv> unat R div 4096"
  assumes inv: "pt_inv s" "umode_inv s" and new: "new_brk \<noteq> 0" and n: "0 < n" "n \<le> 2 ^ 27"
    and grow: "unat (PAGE_UP (prog_brk s)) + unat R < unat (PAGE_UP new_brk)"
    and part: "PARTITION_UP (PAGE_UP new_brk) \<le> PARTITION_UP (PAGE_UP (prog_brk s) + R)"
    and mp: "\<forall>i<n. mappable s (PAGE_UP (prog_brk s) + of_nat i * 4096) 2"
    and left: "tables_bound n \<le> desc_left (smode_pool_desc s)"
  shows "\<exists>s'. sys_brk_handler ebi fuel new_brk s = Inr (new_brk, s') \<and> prog_brk s' = new_brk \<and> ebi_log s' = ebi_log s \<and>
    (\<forall>va'. (\<forall>i<n. region va' 2 \<noteq> region (PAGE_UP (prog_brk s) + of_nat i * 4096) 2) \<longrightarrow>
       walk_page_table va' s' = walk_page_table va' s)"
proof -
  let ?o = "PAGE_UP (prog_brk s)" and ?n = "drop_bit PAGE_SHIFT R" and ?fl = "PTE_U OR PTE_W OR PTE_R"
  have un: "unat ?n = n" by (simp add: n_def unat_drop_page)
  have "unat ?n < 2 ^ 51" "unat ?n \<le> desc_left (umode_pool_desc s)"
    using n(2) unat_avail [OF inv(2)] by (simp_all add: un) (simp add: n_def R_def)
  from alloc_umode_pages [OF inv(2) this] obtain pa s1 where
    1: "alloc_umode_page ?n s = Inr (pa, s1)"
      "s1 = s\<lparr>umode_pool_desc := (umode_pool_desc s)\<lparr>used_page_count := used_page_count (umode_pool_desc s) + ?n\<rparr>\<rparr>"
    by blast
  have pt: "pt_inv s1" by (rule pt_inv_cong [OF _ _ _ _ _ inv(1)]) (simp_all add: 1(2))
  have v: "view s1 q = view s q" "walk_page_table a s1 = walk_page_table a s" for q a
    using view_cong(2,3) [of s1 s] by (simp_all add: 1(2))
  have mp1: "\<forall>i<n. mappable s1 (?o + of_nat i * 2 ^ (30 - 9 * 2)) 2" using mp by (simp add: mappable_def v)
  have left1: "card (need s1 2 ((\<lambda>i. ?o + of_nat i * 2 ^ (30 - 9 * 2)) ` {0..<n})) \<le> desc_left (smode_pool_desc s1)"
    using need_bound [of s1 ?o n] left by (simp add: 1(2))
  have n2: "n \<le> 2 ^ (9 * Suc 2)" using n(2) by simp
  from map_range_walk [OF pt order_refl n2 mp1 left1 rwx_flags(3), of pa] obtain s2 where
    2: "map_range ?o pa ?fl SV39_LEVEL_PAGE PAGE_SIZE n s1 = Inr s2"
      "pt_frame (card (need s1 2 ((\<lambda>i. ?o + of_nat i * 2 ^ (30 - 9 * 2)) ` {0..<n}))) s1 s2"
      "\<forall>va'. (\<forall>i<n. region va' 2 \<noteq> region (?o + of_nat i * 4096) 2) \<longrightarrow> walk_page_table va' s2 = walk_page_table va' s"
    by (auto simp: layout_defs v)
  have "R > 0" using n(1) by (auto simp: n_def word_less_nat_alt intro: gr0I)
  moreover have "\<not> PAGE_UP new_brk - ?o \<le> R" "?o < PAGE_UP new_brk"
    using grow by (simp_all add: word_le_nat_alt word_less_nat_alt unat_sub)
  moreover have "map_brk_from_pool ?o R s = Inr s2" using 1(1) 2(1) by (simp add: map_brk_from_pool_def un)
  moreover have "\<not> PARTITION_UP (?o + R) < PARTITION_UP (PAGE_UP new_brk)" using part by (simp add: not_less)
  ultimately have "sys_brk_handler ebi fuel new_brk s = Inr (new_brk, set_prog_brk new_brk s2)"
    using new by (simp add: sys_brk_handler_def get_prog_brk_def Let_def R_def [symmetric])
  moreover have "walk_page_table va' (set_prog_brk new_brk s2) = walk_page_table va' s2" for va'
    by (rule view_cong(3)) (simp_all add: set_prog_brk_def)
  ultimately show ?thesis using 2(3) pt_frame_simps(6) [OF 2(2)] by (auto simp: set_prog_brk_def 1(2))
qed

section \<open>Properties\<close>

text \<open>
  C4. Loading an emodule: when the pool has room for the module and for the tables it may
  need, \<open>alloc_map_emodule\<close> maps the pages at the emodule break, byte by byte and with read,
  write and execute permission, to a block that leaves the free part of the S-mode pool, returns
  the old break, advances it by the rounded size, and changes no other translation.
\<close>

theorem emodule_mapped:
  assumes "n = unat (PAGE_UP emodule_size) div 4096"
    and "pt_inv s" "4096 dvd unat (emodule_brk s)" "n \<le> 2 ^ 27"
    and "\<forall>i<n. walk_page_table (emodule_brk s + of_nat i * 4096) s = not_valid"
    and "n + tables_bound n \<le> desc_left (smode_pool_desc s)"
  shows "\<exists>pa s'. alloc_map_emodule emodule_size s = Inr (emodule_brk s, s') \<and> pt_inv s' \<and>
    emodule_brk s' = emodule_brk s + PAGE_UP emodule_size \<and>
    page_block pa n \<subseteq> smode_free s - smode_free s' \<and>
    pages_mapped (emodule_brk s) pa (PTE_R OR PTE_W OR PTE_X) n s s'"
  using alloc_map_emodule_spec [of s emodule_size] assms by blast

theorem emodule_mapped_witness:
  "pt_inv sample_mm \<and> (\<exists>pa s'. alloc_map_emodule 0x2345 sample_mm = Inr (0xfffffff000000000, s') \<and>
     emodule_brk s' = 0xfffffff000003000 \<and>
     pages_mapped 0xfffffff000000000 pa (PTE_R OR PTE_W OR PTE_X) 3 sample_mm s')"
proof -
  have up: "PAGE_UP 0x2345 = 0x3000" by (simp add: PAGE_UP_def ROUNDUP_def PAGE_SIZE_def)
  have brk: "emodule_brk sample_mm = 0xfffffff000000000" by (simp add: sample_mm_def EMOD_INIT_BRK_def)
  show ?thesis
    using emodule_mapped [of 3 "0x2345" sample_mm] sample_pt_inv
    by (auto simp: up brk sample_walk sample_mm_inv tables_bound_def)
qed

text \<open>
  C11. Growing the program break inside the rest of the U-mode pool: from the layout that
  \<open>init_prog_brk\<close> establishes, \<open>sys_brk_handler\<close> returns the requested break, records it, maps every
  page between the old and the new page-aligned break to fresh pages of the pool, readable and
  writable for the user, asks the monitor for nothing, changes no other translation, and
  re-establishes the layout and both invariants.
\<close>

theorem brk_grows_in_pool:
  assumes "n = unat (PAGE_UP new_brk - PAGE_UP (prog_brk s)) div 4096"
    and "pt_inv s" "umode_inv s" "brk_layout s" "new_brk \<noteq> 0"
    and "PAGE_UP (prog_brk s) < PAGE_UP new_brk" "PAGE_UP new_brk \<le> EUSR_HEAP_START_ALIGNED"
    and "\<forall>i<n. walk_page_table (PAGE_UP (prog_brk s) + of_nat i * 4096) s = not_valid"
    and "tables_bound n \<le> desc_left (smode_pool_desc s)"
  shows "\<exists>pa s'. sys_brk_handler ebi fuel new_brk s = Inr (new_brk, s') \<and> prog_brk s' = new_brk \<and>
    pt_inv s' \<and> umode_inv s' \<and> brk_layout s' \<and> ebi_log s' = ebi_log s \<and>
    page_block pa n \<subseteq> umode_free s - umode_free s' \<and>
    pages_mapped (PAGE_UP (prog_brk s)) pa (PTE_U OR PTE_W OR PTE_R) n s s'"
  using sys_brk_pool [of s new_brk ebi fuel] assms by blast

lemma sample_brk: "PAGE_UP (prog_brk sample_mm) = 0xfff00000" "brk_layout sample_mm"
proof -
  show u: "PAGE_UP (prog_brk sample_mm) = 0xfff00000"
    by (simp add: sample_mm_def PAGE_UP_def ROUNDUP_def PAGE_SIZE_def)
  have "get_umode_page_pool_avail_size sample_mm = 0x100000"
    by (simp add: get_umode_page_pool_avail_size_def sample_mm_def)
  then show "brk_layout sample_mm"
    by (simp add: brk_layout_def u EUSR_HEAP_START_ALIGNED_def PARTITION_SIZE_def)
qed

theorem brk_grows_in_pool_witness:
  "brk_layout sample_mm \<and> (\<exists>pa s'. sys_brk_handler (\<lambda>log n. (-1, 0)) 0 0xfff02345 sample_mm = Inr (0xfff02345, s') \<and>
     brk_layout s' \<and> pages_mapped 0xfff00000 pa (PTE_U OR PTE_W OR PTE_R) 3 sample_mm s')"
proof -
  have up: "PAGE_UP 0xfff02345 = 0xfff03000" by (simp add: PAGE_UP_def ROUNDUP_def PAGE_SIZE_def)
  show ?thesis
    using brk_grows_in_pool [of 3 "0xfff02345" sample_mm "\<lambda>log n. (-1, 0)" 0] sample_pt_inv sample_mm_inv sample_brk
    by (auto simp: up sample_walk tables_bound_def EUSR_HEAP_START_ALIGNED_def)
qed

text \<open>
  C16. The layout of the break holds after \<open>init_prog_brk\<close> whenever less than a partition is left in
  the U-mode pool; a query (new break 0) returns the current break and changes nothing; lowering
  the break records the new value, and neither of them changes a translation or a pool.
\<close>

theorem brk_init_query_shrink:
  assumes "umode_inv s" "get_umode_page_pool_avail_size s < PARTITION_SIZE"
  shows "brk_layout (init_prog_brk s) \<and>
    sys_brk_handler ebi fuel 0 s = Inr (prog_brk s, s) \<and>
    (new_brk \<noteq> 0 \<and> PAGE_UP new_brk \<le> PAGE_UP (prog_brk s) \<longrightarrow>
       sys_brk_handler ebi fuel new_brk s = Inr (new_brk, s\<lparr>prog_brk := new_brk\<rparr>))"
proof (intro conjI impI)
  let ?a = "get_umode_page_pool_avail_size s"
  have a: "unat ?a < 0x200000" using assms(2) by (simp add: word_less_nat_alt PARTITION_SIZE_def)
  have le: "?a \<le> EUSR_HEAP_START_ALIGNED" using a by (simp add: word_le_nat_alt EUSR_HEAP_START_ALIGNED_def)
  have u: "unat (EUSR_HEAP_START_ALIGNED - ?a) = 0x100000000 - 4096 * desc_left (umode_pool_desc s)"
    using le unat_avail [OF assms(1)] by (simp add: unat_sub EUSR_HEAP_START_ALIGNED_def)
  have "(EUSR_HEAP_START_ALIGNED - ?a) + 4095 = of_nat (0x100000000 - 4096 * desc_left (umode_pool_desc s) + 4095)"
    by (metis of_nat_add of_nat_numeral u word_unat_eq_iff unat_of_nat of_nat_unat ucast_id)
  then have "unat (EUSR_HEAP_START_ALIGNED - ?a + 4095) = 0x100000000 - 4096 * desc_left (umode_pool_desc s) + 4095"
    by (simp only: unat_of_nat) simp
  moreover have "(0x100000000 - 4096 * m + 4095) div 4096 * 4096 = 0x100000000 - 4096 * (m :: nat)" for m
  proof -
    have "0x100000000 - 4096 * m = 4096 * (0x100000 - m)" by (simp add: right_diff_distrib')
    then show ?thesis by simp
  qed
  ultimately have "PAGE_UP (EUSR_HEAP_START_ALIGNED - ?a) = EUSR_HEAP_START_ALIGNED - ?a"
    by (simp add: word_unat_eq_iff unat_PAGE_UP u)
  then show "brk_layout (init_prog_brk s)"
    using assms(2) by (simp add: brk_layout_def init_prog_brk_def set_prog_brk_def get_umode_page_pool_avail_size_def Let_def)
  show "sys_brk_handler ebi fuel 0 s = Inr (prog_brk s, s)"
    by (simp add: sys_brk_handler_def get_prog_brk_def)
  assume "new_brk \<noteq> 0 \<and> PAGE_UP new_brk \<le> PAGE_UP (prog_brk s)"
  then have "new_brk \<noteq> 0" "\<not> PAGE_UP (prog_brk s) < PAGE_UP new_brk" by (auto simp: not_less)
  then show "sys_brk_handler ebi fuel new_brk s = Inr (new_brk, s\<lparr>prog_brk := new_brk\<rparr>)"
    by (simp add: sys_brk_handler_def get_prog_brk_def set_prog_brk_def Let_def)
qed

theorem brk_init_query_shrink_witness:
  "umode_inv sample_mm \<and> brk_layout (init_prog_brk sample_mm) \<and>
   sys_brk_handler (\<lambda>log n. (-1, 0)) 0 0x1000 sample_mm = Inr (0x1000, sample_mm\<lparr>prog_brk := 0x1000\<rparr>)"
proof -
  have 1: "get_umode_page_pool_avail_size sample_mm < PARTITION_SIZE"
    by (simp add: get_umode_page_pool_avail_size_def sample_mm_def PARTITION_SIZE_def)
  have 2: "PAGE_UP 0x1000 = 0x1000" by (simp add: PAGE_UP_def ROUNDUP_def PAGE_SIZE_def)
  show ?thesis
    using brk_init_query_shrink [OF sample_mm_inv(2) 1, of "\<lambda>log n. (-1, 0)" 0 "0x1000"] sample_mm_inv(2)
    by (simp add: 2 sample_brk)
qed

text \<open>
  C18. When the monitor grants the whole request at once, growing the heap beyond the pool maps
  the requested partitions, and only those, to the granted memory, byte by byte.
\<close>

theorem brk_outside_pool_maps:
  fixes va pa :: u64
  assumes "pt_inv s" "0 < n" "n \<le> 2 ^ 18" "0 < fuel" "ebi (ebi_log s) (of_nat n) = (pa, r)" "pa \<noteq> -1"
    and "0x200000 dvd unat va" "0x200000 dvd unat pa" "unat pa + 0x200000 * n \<le> 2 ^ 56"
    and "\<forall>i<n. mappable s (va + of_nat i * 0x200000) 1"
    and "card (need s 1 ((\<lambda>i. va + of_nat i * 0x200000) ` {0..<n})) \<le> desc_left (smode_pool_desc s)"
  shows "\<exists>s'. alloc_map_brk_outside_pool ebi fuel va (of_nat n * PARTITION_SIZE) s = Inr s' \<and> pt_inv s' \<and>
    ebi_log s' = of_nat n # ebi_log s \<and>
    (\<forall>x < 0x200000 * n. get_pa (va + of_nat x) s' = pa + of_nat x) \<and>
    (\<forall>va'. (\<forall>i<n. region va' 1 \<noteq> region (va + of_nat i * 0x200000) 1) \<longrightarrow>
       walk_page_table va' s' = walk_page_table va' s)"
  using assms by (rule outside_pool_single)

lemma need_1_card: "finite V \<Longrightarrow> card (need s 1 V) \<le> card V"
proof -
  assume V: "finite V"
  have "need s 1 V \<subseteq> (\<lambda>va. vpath va 1) ` V"
    unfolding need_def by (clarify, rename_tac va m, case_tac "m = 1") auto
  then show ?thesis using V by (meson card_image_le card_mono finite_imageI order_trans)
qed

theorem brk_outside_pool_maps_witness:
  "\<exists>s'. alloc_map_brk_outside_pool (\<lambda>log n. (0x1a0000000, 0)) 1 0x100000000 0x400000 sample_mm = Inr s' \<and>
     ebi_log s' = [2] \<and> get_pa 0x100200010 s' = 0x1a0200010"
proof -
  have "card (need sample_mm 1 ((\<lambda>i. 0x100000000 + of_nat i * 0x200000) ` {0..<2})) \<le> 2"
    using need_1_card [of "(\<lambda>i. 0x100000000 + of_nat i * 0x200000) ` {0..<2}" sample_mm]
      card_image_le [of "{0..<2 :: nat}" "\<lambda>i. 0x100000000 + of_nat i * 0x200000 :: u64"] by simp
  then obtain s' where "alloc_map_brk_outside_pool (\<lambda>log n. (0x1a0000000, 0)) 1 0x100000000 0x400000 sample_mm = Inr s'"
      "ebi_log s' = 2 # ebi_log sample_mm" "\<forall>x<0x400000. get_pa (0x100000000 + of_nat x) s' = 0x1a0000000 + of_nat x"
    using brk_outside_pool_maps [of sample_mm 2 1 "\<lambda>log n. (0x1a0000000, 0)" "0x1a0000000" 0 "0x100000000"]
      sample_pt_inv sample_mappable
    by (auto simp: sample_mm_inv PARTITION_SIZE_def)
  moreover from this(3) have "get_pa (0x100000000 + of_nat 0x200010) s' = 0x1a0000000 + of_nat 0x200010" 
    by (rule allE [where x = "0x200010"]) simp
  ultimately show ?thesis by (auto simp: sample_mm_def)
qed

text \<open>
  C19. A monitor that grants a request for \<open>n\<close> partitions in two parts, first \<open>g\<close> and then the
  remaining \<open>n - g\<close>: the loop maps \<open>n\<close> partitions at every grant instead of the number granted, so
  that behind the second grant the mapping covers \<open>n\<close> partitions from \<open>pa\<^sub>2\<close>. The last \<open>g\<close> of them were
  never granted, and the addresses they are mapped at were not asked for.
\<close>

theorem brk_maps_past_grant:
  fixes va pa\<^sub>1 pa\<^sub>2 :: u64
  assumes "A = (\<lambda>i. va + of_nat i * 0x200000)" "pt_inv s" "0 < g" "g < n" "n + g \<le> 2 ^ 18" "2 \<le> fuel"
    and "ebi (ebi_log s) (of_nat n) = (-1, of_nat g)" "ebi (of_nat n # ebi_log s) (of_nat g) = (pa\<^sub>1, r\<^sub>1)"
    and "ebi (of_nat g # of_nat n # ebi_log s) (of_nat (n - g)) = (pa\<^sub>2, r\<^sub>2)" "pa\<^sub>1 \<noteq> -1" "pa\<^sub>2 \<noteq> -1"
    and "0x200000 dvd unat va" "0x200000 dvd unat pa\<^sub>1" "0x200000 dvd unat pa\<^sub>2"
    and "unat pa\<^sub>1 + 0x200000 * n \<le> 2 ^ 56" "unat pa\<^sub>2 + 0x200000 * n \<le> 2 ^ 56"
    and "\<forall>i<n + g. mappable s (A i) 1"
    and "card (need s 1 (A ` {0..<n})) + card (need s 1 (A ` {g..<n + g})) \<le> desc_left (smode_pool_desc s)"
  shows "\<exists>s'. alloc_map_brk_outside_pool ebi fuel va (of_nat n * PARTITION_SIZE) s = Inr s' \<and> pt_inv s' \<and>
    ebi_log s' = of_nat (n - g) # of_nat g # of_nat n # ebi_log s \<and>
    (\<forall>x < 0x200000 * g. get_pa (va + of_nat x) s' = pa\<^sub>1 + of_nat x) \<and>
    (\<forall>x < 0x200000 * n. get_pa (A g + of_nat x) s' = pa\<^sub>2 + of_nat x)"
  using outside_pool_twice [of s g n fuel ebi pa\<^sub>1 r\<^sub>1 pa\<^sub>2 r\<^sub>2 va] assms(2-18) unfolding assms(1) by blast

definition two_grants :: ebi where
  "two_grants log n =
     (if n > 1 then (-1, 1) else if length log < 2 then (0x1a0000000, 0) else (0x1b0000000, 0))"

theorem brk_maps_past_grant_witness:
  "\<exists>s'. alloc_map_brk_outside_pool two_grants 2 0x100000000 0x400000 sample_mm = Inr s' \<and> ebi_log s' = [1, 1, 2] \<and>
     get_pa 0x100000010 s' = 0x1a0000010 \<and> get_pa 0x100400010 s' = 0x1b0200010"
proof -
  let ?A = "\<lambda>i. 0x100000000 + of_nat i * 0x200000 :: u64"
  have "card (need sample_mm 1 (?A ` {i..<j})) \<le> j - i" for i j
    using need_1_card [of "?A ` {i..<j}" sample_mm] card_image_le [of "{i..<j}" ?A] by simp
  from this [of 0 2] this [of 1 3]
  have "card (need sample_mm 1 (?A ` {0..<2})) + card (need sample_mm 1 (?A ` {1..<2 + 1})) \<le> 4" by simp
  moreover have log: "ebi_log sample_mm = []" by (simp add: sample_mm_def)
  ultimately obtain s' where "alloc_map_brk_outside_pool two_grants 2 0x100000000 0x400000 sample_mm = Inr s'"
      "ebi_log s' = [1, 1, 2]" "\<forall>x<0x200000. get_pa (0x100000000 + of_nat x) s' = 0x1a0000000 + of_nat x"
      "\<forall>x<0x400000. get_pa (0x100200000 + of_nat x) s' = 0x1b0000000 + of_nat x"
    using brk_maps_past_grant [OF refl, of sample_mm 1 2 2 two_grants "0x1a0000000" 0 "0x1b0000000" 0 "0x100000000"]
      sample_pt_inv sample_mappable
    by (auto simp: sample_mm_inv PARTITION_SIZE_def two_grants_def)
  moreover from this(3,4) have "get_pa (0x100000000 + of_nat 0x10) s' = 0x1a0000000 + of_nat 0x10"
      "get_pa (0x100200000 + of_nat 0x200010) s' = 0x1b0000000 + of_nat 0x200010"
    by (auto simp del: of_nat_numeral)
  ultimately show ?thesis by auto
qed



end
