(* ===== verification/Elf_Loader.thy ===== *)
theory Elf_Loader
  imports Enclave_Memory
begin

text \<open>
  \<^verbatim>\<open>emod_manager/elf/elf_loader.c\<close>: the checks on the ELF header and the mapping of the loadable
  segments. The header and the program headers are what the code reads from the image at
  \<open>elf_paddr\<close>; they are arguments here. User memory itself is not part of the state, so the final
  \<^verbatim>\<open>memset\<close> of a segment is recorded as the zeroed range. \<open>Inr\<close> of \<open>map_elf\<close> stands for the return
  value 0, the only one the function has. The structures and constants are those of the standard
  header \<^verbatim>\<open>elf.h\<close>.
\<close>

section \<open>Headers\<close>

record Elf64_Ehdr =
  e_ident :: "u8 list"
  e_type :: u16
  e_machine :: u16
  e_entry :: u64
  e_phoff :: u64
  e_shoff :: u64
  e_phentsize :: u16
  e_phnum :: u16
  e_shentsize :: u16
  e_shnum :: u16

record Elf64_Phdr =
  p_type :: u32
  p_flags :: u32
  p_offset :: u64
  p_vaddr :: u64
  p_filesz :: u64
  p_memsz :: u64

definition PF_X :: u32 where "PF_X = 1"
definition PF_W :: u32 where "PF_W = 2"
definition PF_R :: u32 where "PF_R = 4"
definition PT_LOAD :: u32 where "PT_LOAD = 1"
definition ELFCLASS64 :: u8 where "ELFCLASS64 = 2"
definition ET_EXEC :: u16 where "ET_EXEC = 2"
definition EM_RISCV :: u16 where "EM_RISCV = 243"

definition pte_flag_from_Elf64_word :: "u32 \<Rightarrow> u8" where
  "pte_flag_from_Elf64_word word =
     (let flag = PTE_V OR PTE_U;
          flag = (if word AND PF_R \<noteq> 0 then flag OR PTE_R else flag);
          flag = (if word AND PF_W \<noteq> 0 then flag OR PTE_W else flag);
          flag = (if word AND PF_X \<noteq> 0 then flag OR PTE_X else flag)
      in flag)"

text \<open>
  The product of two 16-bit fields is computed in the 32-bit type \<^verbatim>\<open>int\<close> and sign-extended when it
  is added to the 64-bit offset.
\<close>

definition table_bytes :: "u16 \<Rightarrow> u16 \<Rightarrow> u64" where
  "table_bytes entsize num = scast (ucast entsize * ucast num :: u32)"

definition elf_check :: "Elf64_Ehdr \<Rightarrow> usize \<Rightarrow> int res" where
  "elf_check ehdr elf_size =
     (let ident = e_ident ehdr in
      if ident ! 0 \<noteq> 0x7f \<or> ident ! 1 \<noteq> 0x45 \<or> ident ! 2 \<noteq> 0x4c \<or> ident ! 3 \<noteq> 0x46 then panic ''Invalid ELF!''
      else if ident ! 4 \<noteq> ELFCLASS64 then panic ''Not 64-bit ELF''
      else if e_type ehdr \<noteq> ET_EXEC then panic ''Not executable file!''
      else if e_machine ehdr \<noteq> EM_RISCV then panic ''Invalid machine platform''
      else
        let phdr_end = e_phoff ehdr + table_bytes (e_phentsize ehdr) (e_phnum ehdr) in
        if elf_size < phdr_end \<or> phdr_end < e_phoff ehdr then panic ''Program header error''
        else
          let shdr_end = e_shoff ehdr + table_bytes (e_shentsize ehdr) (e_shnum ehdr) in
          if elf_size < shdr_end \<or> shdr_end < e_shoff ehdr then panic ''Section header error''
          else Inr 0)"

section \<open>Mapping the segments\<close>

text \<open>The branch of \<open>map_elf\<close> for less than a partition of memory beyond the file contents.\<close>

definition map_extra_pages :: "vaddr \<Rightarrow> usize \<Rightarrow> u8 \<Rightarrow> mm_state \<Rightarrow> mm_state res" where
  "map_extra_pages end_vaddr size_diff flags s =
     (let number_of_pages = drop_bit PAGE_SHIFT size_diff in
      rbind (alloc_umode_page number_of_pages s) (\<lambda>(extra_page_paddr, s).
      map_range end_vaddr extra_page_paddr flags SV39_LEVEL_PAGE PAGE_SIZE (unat number_of_pages) s))"

text \<open>The branch for a partition or more: a partition for the gap, then whole partitions.\<close>

definition map_extra_partitions :: "ebi \<Rightarrow> nat \<Rightarrow> vaddr \<Rightarrow> usize \<Rightarrow> u8 \<Rightarrow> mm_state \<Rightarrow> mm_state res" where
  "map_extra_partitions ebi fuel end_vaddr size_diff flags s =
     (let va_part_align = PARTITION_UP end_vaddr; gap = va_part_align - end_vaddr in
      rbind (if gap \<noteq> 0 then
          let offset = end_vaddr mod PARTITION_SIZE;
              (gap_partition_pa, _, s) = ebi_mem_alloc ebi 1 s in
          map_range end_vaddr (gap_partition_pa + offset) flags SV39_LEVEL_PAGE PAGE_SIZE
            (unat (gap div PAGE_SIZE)) s
        else Inr s) (\<lambda>s.
      let number_of_partitions = drop_bit PARTITION_SHIFT (PARTITION_UP size_diff) in
      map_partitions ebi fuel fuel flags number_of_partitions number_of_partitions va_part_align s))"

definition load_segment ::
  "ebi \<Rightarrow> nat \<Rightarrow> paddr \<Rightarrow> Elf64_Phdr \<Rightarrow> mm_state \<times> (vaddr \<times> usize) list \<Rightarrow> (mm_state \<times> (vaddr \<times> usize) list) res" where
  "load_segment ebi fuel elf_paddr phdr = (\<lambda>(s, zeroed).
     if p_type phdr \<noteq> PT_LOAD then Inr (s, zeroed)
     else
       let ph_vaddr = p_vaddr phdr; ph_paddr = elf_paddr + p_offset phdr;
           file_size = p_filesz phdr; mem_size = p_memsz phdr;
           start_vaddr = PAGE_DOWN ph_vaddr; end_vaddr = PAGE_UP (ph_vaddr + file_size);
           start_paddr = PAGE_DOWN ph_paddr;
           number_of_pages = drop_bit PAGE_SHIFT (end_vaddr - start_vaddr);
           flags = pte_flag_from_Elf64_word (p_flags phdr) in
       rbind (map_range start_vaddr start_paddr flags SV39_LEVEL_PAGE PAGE_SIZE (unat number_of_pages) s) (\<lambda>s.
       if file_size < mem_size then
         let size_diff = PAGE_UP mem_size - PAGE_UP file_size in
         rbind (if size_diff < PARTITION_SIZE then map_extra_pages end_vaddr size_diff flags s
                else map_extra_partitions ebi fuel end_vaddr size_diff flags s) (\<lambda>s.
         Inr (s, (ph_vaddr + file_size, mem_size - file_size) # zeroed))
       else Inr (s, zeroed)))"

definition map_elf ::
  "ebi \<Rightarrow> nat \<Rightarrow> paddr \<Rightarrow> Elf64_Ehdr \<Rightarrow> (nat \<Rightarrow> Elf64_Phdr) \<Rightarrow> mm_state \<Rightarrow> (mm_state \<times> (vaddr \<times> usize) list) res" where
  "map_elf ebi fuel elf_paddr ehdr phdr s =
     rfor 0 (unat (e_phnum ehdr)) (\<lambda>i. load_segment ebi fuel elf_paddr (phdr i)) (s, [])"

definition load_elf ::
  "ebi \<Rightarrow> nat \<Rightarrow> paddr \<Rightarrow> usize \<Rightarrow> Elf64_Ehdr \<Rightarrow> (nat \<Rightarrow> Elf64_Phdr) \<Rightarrow> mm_state \<Rightarrow>
     (vaddr \<times> mm_state \<times> (vaddr \<times> usize) list) res" where
  "load_elf ebi fuel elf_paddr elf_size ehdr phdr s =
     rbind (elf_check ehdr elf_size) (\<lambda>r.
     if r \<noteq> 0 then panic ''ELF Check Error''
     else rbind (map_elf ebi fuel elf_paddr ehdr phdr s) (\<lambda>(s, zeroed).
       Inr (e_entry ehdr, s, zeroed)))"

lemma sint_u32: "sint (w :: u32) = (if uint w < 2 ^ 31 then uint w else uint w - 2 ^ 32)"
proof -
  have s: "sint w = (uint w + 2 ^ 31) mod 2 ^ 32 - 2 ^ 31"
    by (simp add: sint_uint signed_take_bit_eq_take_bit_shift take_bit_eq_mod)
  have b: "uint w < 2 ^ 32" "0 \<le> uint w" using uint_lt2p [of w] by simp_all
  show ?thesis
  proof (cases "uint w < 2 ^ 31")
    case True
    then have "(uint w + 2 ^ 31) mod 2 ^ 32 = uint w + 2 ^ 31" using b by (intro mod_pos_pos_trivial) simp_all
    with s True show ?thesis by simp
  next
    case False
    have "(uint w + 2 ^ 31) mod 2 ^ 32 = (uint w - 2 ^ 31 + 1 * 2 ^ 32) mod 2 ^ 32" by (simp add: add.commute)
    also have "\<dots> = (uint w - 2 ^ 31) mod 2 ^ 32" by (rule mod_mult_self1)
    also have "\<dots> = uint w - 2 ^ 31" using b False by (intro mod_pos_pos_trivial) simp_all
    finally show ?thesis using s False by simp
  qed
qed

lemma unat_scast_u32:
  "unat (scast (w :: u32) :: u64) = (if unat w < 2 ^ 31 then unat w else unat w + (2 ^ 64 - 2 ^ 32))"
proof -
  have b: "uint w < 2 ^ 32" "0 \<le> uint w" using uint_lt2p [of w] by simp_all
  have lt: "unat w < 2 ^ 31 \<longleftrightarrow> uint w < 2 ^ 31"
    unfolding unat_eq_nat_uint using b(2) by (subst nat_less_iff) simp_all
  have u: "uint (scast w :: u64) = sint w mod 2 ^ 64" by transfer (simp add: take_bit_eq_mod)
  show ?thesis
  proof (cases "uint w < 2 ^ 31")
    case True
    then have "uint (scast w :: u64) = uint w" using u b by (simp add: sint_u32)
    then have "unat (scast w :: u64) = unat w" by (simp only: uint_nat of_nat_eq_iff)
    moreover have "unat w < 2 ^ 31" using True by (simp only: lt)
    ultimately show ?thesis by simp
  next
    case False
    have "(uint w - 2 ^ 32) mod 2 ^ 64 = (uint w - 2 ^ 32 + 1 * 2 ^ 64) mod 2 ^ 64" by (rule mod_mult_self1 [symmetric])
    also have "\<dots> = uint w - 2 ^ 32 + 2 ^ 64" using b False by (subst mod_pos_pos_trivial) simp_all
    finally have "uint (scast w :: u64) = uint w + (2 ^ 64 - 2 ^ 32)" using u False by (simp add: sint_u32)
    then have "int (unat (scast w :: u64)) = int (unat w + (2 ^ 64 - 2 ^ 32))" by (simp only: uint_nat) simp
    then have "unat (scast w :: u64) = unat w + (2 ^ 64 - 2 ^ 32)" by (simp only: of_nat_eq_iff)
    moreover have "\<not> unat w < 2 ^ 31" using False by (simp only: lt) simp
    ultimately show ?thesis by simp
  qed
qed

lemma table_end:
  assumes "unat sz < 2 ^ 63" "\<not> sz < off + table_bytes a b" "\<not> off + table_bytes a b < off"
  shows "unat off + unat a * unat b \<le> unat sz"
proof -
  define P where "P = unat a * unat b"
  have ab: "unat a \<le> 65535" "unat b \<le> 65535" using unat_bound [of a] unat_bound [of b] by simp_all
  then have P: "P \<le> 65535 * 65535" unfolding P_def by (rule mult_le_mono)
  have w: "unat (ucast a * ucast b :: u32) = P"
    using P ab by (subst unat_mult_less) (simp_all add: unat_ucast P_def)
  have t: "unat (table_bytes a b) = (if P < 2 ^ 31 then P else P + (2 ^ 64 - 2 ^ 32))"
    by (simp add: table_bytes_def unat_scast_u32 w)
  have e: "unat off \<le> unat (off + table_bytes a b)" "unat (off + table_bytes a b) \<le> unat sz"
    using assms(2,3) by (simp_all add: word_less_nat_alt not_less)
  have s: "unat (off + table_bytes a b) = (unat off + unat (table_bytes a b)) mod 2 ^ 64"
    by (simp add: unat_word_ariths)
  show ?thesis
  proof (cases "unat off + unat (table_bytes a b) < 2 ^ 64")
    case True
    then show ?thesis using s t e assms(1) P by (simp add: P_def split: if_splits)
  next
    case False
    have "unat off < 2 ^ 64" "unat (table_bytes a b) < 2 ^ 64" using unat_bound [of off] unat_bound [of "table_bytes a b"] by simp_all
    then have "unat off + unat (table_bytes a b) - 2 ^ 64 < 2 ^ 64" by linarith
    then have "unat (off + table_bytes a b) = unat off + unat (table_bytes a b) - 2 ^ 64"
      using False s by (simp add: le_mod_geq)
    with e(1) False \<open>unat (table_bytes a b) < 2 ^ 64\<close> show ?thesis by linarith
  qed
qed

lemma and_not_page: "unat (PAGE_DOWN a) = unat a div 4096 * 4096"
proof -
  have "PAGE_DOWN a = a div 2 ^ 12 * 2 ^ 12"
    unfolding PAGE_DOWN_def PAGE_SIZE_def using and_not_mask_eq_div [of a 12] by simp
  then show ?thesis using unat_div_mult [of 12 a] by simp
qed

text \<open>Two adjacent ranges of pages mapped one after the other.\<close>

lemma pages_mapped_adjacent:
  assumes 1: "pages_mapped va pa fl n s s1" and 2: "pages_mapped (va + of_nat n * 4096) pa' fl m s1 s2"
    and al: "4096 dvd unat va" and nm: "n + m \<le> 2 ^ 27" and x: "x < 4096 * (n + m)"
  shows "walk_page_table (va + of_nat x) s2 = \<lparr>res_level = SV39_LEVEL_PAGE, res_pte = leaf_of fl
      (if x < 4096 * n then pa + of_nat (x div 4096) * 4096 else pa' + of_nat ((x - 4096 * n) div 4096) * 4096)\<rparr>"
    and "x < 4096 * n \<Longrightarrow> get_pa (va + of_nat x) s2 = pa + of_nat x"
proof -
  have r: "region (va + of_nat x) 2 = region (va + of_nat (x div 4096) * 4096) 2"
    using region_offset_gen [of 2 va x] al by simp
  have keep: "walk_page_table (va + of_nat x) s2 = walk_page_table (va + of_nat x) s1" if "x < 4096 * n"
  proof -
    have d: "x div 4096 < n" using that by (simp add: less_mult_imp_div_less mult.commute)
    have "region (va + of_nat x) 2 \<noteq> region (va + of_nat n * 4096 + of_nat i * 4096) 2" if "i < m" for i
      using pages_apart [of "x div 4096" "n + i" va] d nm that r by (simp add: algebra_simps)
    then show ?thesis using 2 unfolding pages_mapped_def by blast
  qed
  show "x < 4096 * n \<Longrightarrow> get_pa (va + of_nat x) s2 = pa + of_nat x"
    using keep 1 by (auto simp: pages_mapped_def get_pa_def)
  show "walk_page_table (va + of_nat x) s2 = \<lparr>res_level = SV39_LEVEL_PAGE, res_pte = leaf_of fl
      (if x < 4096 * n then pa + of_nat (x div 4096) * 4096 else pa' + of_nat ((x - 4096 * n) div 4096) * 4096)\<rparr>"
  proof (cases "x < 4096 * n")
    case True
    then show ?thesis using keep 1 by (auto simp: pages_mapped_def)
  next
    case False
    then have e: "x = n * 4096 + (x - 4096 * n)" by simp
    have "(of_nat x :: u64) = of_nat n * 4096 + of_nat (x - 4096 * n)" by (subst e) (simp only: of_nat_add of_nat_mult of_nat_numeral)
    moreover have "x - 4096 * n < 4096 * m" using x False by simp
    ultimately show ?thesis using 2 False by (auto simp: pages_mapped_def add.assoc)
  qed
qed

lemma pages_mapped_next:
  assumes "pages_mapped va pa fl n s s1" "n + m \<le> 2 ^ 27"
    and "\<forall>i<n + m. walk_page_table (va + of_nat i * 4096) s = not_valid"
  shows "\<forall>i<m. walk_page_table (va + of_nat n * 4096 + of_nat i * 4096) s1 = not_valid"
proof (intro allI impI)
  fix i assume i: "i < m"
  have e: "va + of_nat n * 4096 + of_nat i * 4096 = va + of_nat (n + i) * 4096" by (simp add: algebra_simps)
  have "\<forall>j<n. region (va + of_nat (n + i) * 4096) 2 \<noteq> region (va + of_nat j * 4096) 2"
    using pages_apart [of "n + i" _ va] i assms(2) by auto
  then have "walk_page_table (va + of_nat (n + i) * 4096) s1 = walk_page_table (va + of_nat (n + i) * 4096) s"
    using assms(1) unfolding pages_mapped_def by blast
  then show "walk_page_table (va + of_nat n * 4096 + of_nat i * 4096) s1 = not_valid"
    unfolding e using assms(3) i by (metis add_strict_left_mono)
qed

lemma flag_rwx: "fl AND (PF_R OR PF_W OR PF_X) \<noteq> 0 \<Longrightarrow>
  pte_flag_from_Elf64_word fl AND (PTE_R OR PTE_W OR PTE_X) \<noteq> 0"
  by (auto simp: pte_flag_from_Elf64_word_def Let_def layout_defs bit.conj_disj_distrib)

text \<open>
  The pages of the file part of a segment, the pages for the rest, and the loadable segments that
  end inside the address space and whose rest is smaller than a partition.
\<close>

definition seg_file_pages :: "Elf64_Phdr \<Rightarrow> nat" where
  "seg_file_pages ph = (unat (PAGE_UP (p_vaddr ph + p_filesz ph)) - unat (PAGE_DOWN (p_vaddr ph))) div 4096"

definition seg_extra_pages :: "Elf64_Phdr \<Rightarrow> nat" where
  "seg_extra_pages ph = (if p_filesz ph < p_memsz ph
     then unat (PAGE_UP (p_memsz ph) - PAGE_UP (p_filesz ph)) div 4096 else 0)"

definition seg_ok :: "Elf64_Phdr \<Rightarrow> bool" where
  "seg_ok ph \<longleftrightarrow> p_type ph = PT_LOAD \<and> p_flags ph AND (PF_R OR PF_W OR PF_X) \<noteq> 0 \<and>
     p_filesz ph \<le> p_memsz ph \<and> unat (p_vaddr ph) + unat (p_memsz ph) + 4095 < 2 ^ 64 \<and>
     PAGE_UP (p_memsz ph) - PAGE_UP (p_filesz ph) < PARTITION_SIZE"

lemma seg_bounds:
  assumes "seg_ok ph"
  defines "S \<equiv> unat (PAGE_DOWN (p_vaddr ph))" and "E \<equiv> unat (PAGE_UP (p_vaddr ph + p_filesz ph))"
  shows "S \<le> unat (p_vaddr ph)" "unat (p_vaddr ph) < S + 4096" "unat (p_vaddr ph) + unat (p_filesz ph) \<le> E"
    "E = S + 4096 * seg_file_pages ph" "4096 dvd S"
    "PAGE_UP (p_vaddr ph + p_filesz ph) = PAGE_DOWN (p_vaddr ph) + of_nat (seg_file_pages ph) * 4096"
proof -
  have fm: "unat (p_filesz ph) \<le> unat (p_memsz ph)" using assms(1) by (simp add: seg_ok_def word_le_nat_alt)
  have b: "unat (p_vaddr ph) + unat (p_memsz ph) + 4095 < 2 ^ 64" using assms(1) by (simp add: seg_ok_def)
  have u: "unat (p_vaddr ph + p_filesz ph) = unat (p_vaddr ph) + unat (p_filesz ph)"
    by (rule unat_add_less) (use fm b in simp)
  note up = PAGE_UP_bounds [of "p_vaddr ph + p_filesz ph", unfolded u]
  show S: "S \<le> unat (p_vaddr ph)" "unat (p_vaddr ph) < S + 4096" "4096 dvd S"
    using div_mult_mod_eq [of "unat (p_vaddr ph)" 4096] mod_less_divisor [of 4096 "unat (p_vaddr ph)"]
    by (simp_all add: S_def and_not_page)
  show E: "unat (p_vaddr ph) + unat (p_filesz ph) \<le> E" unfolding E_def using up(1) fm b by linarith
  obtain i j where ij: "S = 4096 * i" "E = 4096 * j" using S(3) PAGE_UP_dvd unfolding E_def by (metis dvdE)
  have "S \<le> E" using S(1) E by linarith
  then show e: "E = S + 4096 * seg_file_pages ph"
    unfolding seg_file_pages_def E_def [symmetric] S_def [symmetric] using ij by simp
  have "E < 2 ^ 64" unfolding E_def using unat_bound [of "PAGE_UP (p_vaddr ph + p_filesz ph)"] by simp
  then have "S + seg_file_pages ph * 4096 < 2 ^ 64" using e by linarith
  then show "PAGE_UP (p_vaddr ph + p_filesz ph) = PAGE_DOWN (p_vaddr ph) + of_nat (seg_file_pages ph) * 4096"
    using e by (simp add: word_unat_eq_iff unat_word_ariths unat_of_nat E_def S_def mod_simps)
qed

text \<open>The two page counts as exact quotients.\<close>

lemma seg_counts:
  assumes "seg_ok ph"
  defines "V \<equiv> unat (p_vaddr ph)" and "F \<equiv> unat (p_filesz ph)" and "M \<equiv> unat (p_memsz ph)"
  shows "seg_file_pages ph = (V + F + 4095) div 4096 - V div 4096"
    "seg_extra_pages ph = (M + 4095) div 4096 - (F + 4095) div 4096"
proof -
  have fm: "F \<le> M" using assms(1) by (simp add: seg_ok_def word_le_nat_alt F_def M_def)
  have b: "V + M + 4095 < 2 ^ 64" using assms(1) by (simp add: seg_ok_def V_def M_def)
  have up: "unat (PAGE_UP a) = (unat a + 4095) div 4096 * 4096" if "unat a + 4095 < 2 ^ 64" for a :: u64
  proof -
    have "unat (a + 4095) = unat a + 4095" by (subst unat_add_less) (use that in simp_all)
    then show ?thesis by (simp add: unat_PAGE_UP)
  qed
  have u: "unat (p_vaddr ph + p_filesz ph) = V + F"
    unfolding V_def F_def by (rule unat_add_less) (use fm b in \<open>simp add: V_def F_def M_def\<close>)
  have "unat (p_vaddr ph + p_filesz ph) + 4095 < 2 ^ 64" using u fm b by simp
  from up [OF this] show "seg_file_pages ph = (V + F + 4095) div 4096 - V div 4096"
    by (simp add: seg_file_pages_def and_not_page u V_def flip: diff_mult_distrib)
  have e: "unat (PAGE_UP (p_memsz ph)) = (M + 4095) div 4096 * 4096"
    "unat (PAGE_UP (p_filesz ph)) = (F + 4095) div 4096 * 4096"
    using up [of "p_memsz ph"] up [of "p_filesz ph"] fm b by (simp_all add: M_def F_def)
  have "(F + 4095) div 4096 \<le> (M + 4095) div 4096" using fm by (intro div_le_mono) simp
  then have "PAGE_UP (p_filesz ph) \<le> PAGE_UP (p_memsz ph)" by (simp add: word_le_nat_alt e)
  then have s: "unat (PAGE_UP (p_memsz ph) - PAGE_UP (p_filesz ph)) div 4096 = (M + 4095) div 4096 - (F + 4095) div 4096"
    by (simp add: unat_sub e flip: diff_mult_distrib)
  have "M = F" if "\<not> p_filesz ph < p_memsz ph" using that fm by (simp add: word_less_nat_alt F_def M_def)
  then show "seg_extra_pages ph = (M + 4095) div 4096 - (F + 4095) div 4096"
    using s by (auto simp: seg_extra_pages_def)
qed

text \<open>An aligned segment is covered; an unaligned one can end in the page after the last one mapped.\<close>

lemma seg_covered:
  assumes "seg_ok ph" "4096 dvd unat (p_vaddr ph)"
  shows "unat (p_memsz ph) \<le> 4096 * (seg_file_pages ph + seg_extra_pages ph)"
proof -
  obtain k where k: "unat (p_vaddr ph) = 4096 * k" using assms(2) by (rule dvdE)
  have "(4096 * k + unat (p_filesz ph) + 4095) div 4096 = k + (unat (p_filesz ph) + 4095) div 4096"
    using div_mult_self2 [of 4096 "unat (p_filesz ph) + 4095" k] by (simp add: add.assoc)
  moreover have "unat (p_filesz ph) \<le> unat (p_memsz ph)" using assms(1) by (simp add: seg_ok_def word_le_nat_alt)
  ultimately have "seg_file_pages ph + seg_extra_pages ph = (unat (p_memsz ph) + 4095) div 4096"
    by (simp add: seg_counts [OF assms(1)] k div_le_mono)
  moreover have "n \<le> (n + 4095) div 4096 * 4096" for n :: nat
    using div_mult_mod_eq [of "n + 4095" 4096] mod_less_divisor [of 4096 "n + 4095"] by linarith
  ultimately show ?thesis by simp
qed

lemma seg_short:
  assumes "seg_ok ph" "p_filesz ph < p_memsz ph" "0 < unat (p_filesz ph) mod 4096"
    and "unat (p_vaddr ph) mod 4096 + unat (p_filesz ph) mod 4096 \<le> 4096"
    and "4096 \<le> unat (p_vaddr ph) mod 4096 + (unat (p_memsz ph) - 1) mod 4096"
  shows "(unat (p_vaddr ph) mod 4096 + (unat (p_memsz ph) - 1)) div 4096 = seg_file_pages ph + seg_extra_pages ph"
proof -
  define V F N where "V = unat (p_vaddr ph)" and "F = unat (p_filesz ph)" and "N = unat (p_memsz ph) - 1"
  define v a f b k c where q: "v = V div 4096" "a = V mod 4096" "f = F div 4096" "b = F mod 4096" "k = N div 4096" "c = N mod 4096"
  have M: "unat (p_memsz ph) = N + 1" "F \<le> N" using assms(2) by (simp_all add: word_less_nat_alt F_def N_def)
  have d: "V = 4096 * v + a" "F = 4096 * f + b" "N = 4096 * k + c" "a < 4096" "b < 4096" "c < 4096" by (simp_all add: q)
  have h: "0 < b" "a + b \<le> 4096" "4096 \<le> a + c" using assms(3-5) by (simp_all add: q V_def F_def N_def)
  have "(V + F + 4095) div 4096 = v + f + 1" by (rule div_nat_eqI) (use d h in simp_all)
  moreover have "(F + 4095) div 4096 = f + 1" by (rule div_nat_eqI) (use d h in simp_all)
  moreover have "(N + 1 + 4095) div 4096 = k + 1" by (rule div_nat_eqI) (use d in simp_all)
  moreover have "(a + N) div 4096 = k + 1" by (rule div_nat_eqI) (use d h in simp_all)
  moreover have "f \<le> k" using M(2) unfolding q by (rule div_le_mono)
  ultimately show ?thesis
    using seg_counts [OF assms(1)] M(1) unfolding V_def [symmetric] F_def [symmetric] N_def [symmetric] q(1,2) [symmetric]
    by simp
qed

lemma PAGE_DOWN_plus: "PAGE_DOWN a + of_nat (unat a mod 4096) = a"
proof -
  have "unat a div 4096 * 4096 + unat a mod 4096 < 2 ^ 64" using unat_bound [of a] by simp
  then show ?thesis by (simp add: word_unat_eq_iff unat_word_ariths unat_of_nat and_not_page mod_simps)
qed

lemma walk_region:
  assumes "region a 2 = region b 2"
  shows "walk_page_table a s = walk_page_table b s"
proof -
  have "region va 0 = region va 2 div 2 ^ 18" "region va 1 = region va 2 div 2 ^ 9" for va
    by (simp_all add: region_def flip: div_mult2_eq)
  then have "region a l = region b l" if "l \<in> {0, 1, 2}" for l using assms that by auto
  then have "vpath a (Suc l) = vpath b (Suc l)" if "l \<in> {0, 1, 2}" for l using that vpath_region [of l a b] by auto
  from this [of 0] this [of 1] this [of 2] show ?thesis by (simp add: walk_view numeral_3_eq_3 numeral_2_eq_2)
qed

lemma pages_mapped_outside:
  assumes "pages_mapped va pa fl n s s1" "pages_mapped (va + of_nat n * 4096) pa' fl m s1 s2"
    and "\<forall>i<n + m. region va' 2 \<noteq> region (va + of_nat i * 4096) 2"
  shows "walk_page_table va' s2 = walk_page_table va' s"
proof -
  have "region va' 2 \<noteq> region (va + of_nat n * 4096 + of_nat i * 4096) 2" if "i < m" for i
    using assms(3) [rule_format, of "n + i"] that by (simp add: algebra_simps)
  then have "walk_page_table va' s2 = walk_page_table va' s1" using assms(2) unfolding pages_mapped_def by blast
  moreover have "walk_page_table va' s1 = walk_page_table va' s" using assms(1,3) unfolding pages_mapped_def by auto
  ultimately show ?thesis by simp
qed

lemma segment_loads:
  fixes elf_paddr :: paddr and ph :: Elf64_Phdr
  defines "n \<equiv> seg_file_pages ph" and "m \<equiv> seg_extra_pages ph" and "sv \<equiv> PAGE_DOWN (p_vaddr ph)"
    and "fl \<equiv> pte_flag_from_Elf64_word (p_flags ph)"
  assumes ok: "seg_ok ph" and inv: "pt_inv s" "umode_inv s" and nm: "n + m \<le> 2 ^ 27"
    and pa: "unat (PAGE_DOWN (elf_paddr + p_offset ph)) + 4096 * n \<le> 2 ^ 56"
    and un: "\<forall>i<n + m. walk_page_table (sv + of_nat i * 4096) s = not_valid"
    and left: "tables_bound n + tables_bound m \<le> desc_left (smode_pool_desc s)" "m \<le> desc_left (umode_pool_desc s)"
  shows "\<exists>s1 s2 pa'. load_segment ebi fuel elf_paddr ph (s, z) = Inr (s2,
      if p_filesz ph < p_memsz ph then (p_vaddr ph + p_filesz ph, p_memsz ph - p_filesz ph) # z else z) \<and>
    pt_inv s2 \<and> umode_inv s2 \<and> page_block pa' m \<subseteq> umode_free s - umode_free s2 \<and>
    pages_mapped sv (PAGE_DOWN (elf_paddr + p_offset ph)) fl n s s1 \<and>
    pages_mapped (sv + of_nat n * 4096) pa' fl m s1 s2"
proof -
  note sb = seg_bounds [OF ok]
  have rwx: "fl AND (PTE_R OR PTE_W OR PTE_X) \<noteq> 0" unfolding fl_def using ok by (intro flag_rwx) (simp add: seg_ok_def)
  have al: "4096 dvd unat sv" "4096 dvd unat (PAGE_DOWN (elf_paddr + p_offset ph))"
    using sb(5) by (simp_all add: sv_def and_not_page)
  have un1: "\<forall>i<n. walk_page_table (sv + of_nat i * 4096) s = not_valid" using un by simp
  from map_pages [OF inv(1) _ un1 _ rwx al pa] nm left obtain s1 where
    1: "map_range sv (PAGE_DOWN (elf_paddr + p_offset ph)) fl SV39_LEVEL_PAGE PAGE_SIZE n s = Inr s1" "pt_inv s1"
      "pt_frame (tables_bound n) s s1" "pages_mapped sv (PAGE_DOWN (elf_paddr + p_offset ph)) fl n s s1"
    by auto
  note f = pt_frame_simps [OF 1(3)]
  have u1: "umode_inv s1" "umode_free s1 = umode_free s" "umode_pool_desc s1 = umode_pool_desc s"
    using inv(2) f(1,2) by (simp_all add: umode_inv_def umode_free_def get_umode_pool_pa_aligned_def)
  have e: "PAGE_UP (p_vaddr ph + p_filesz ph) = sv + of_nat n * 4096" using sb(6) by (simp add: sv_def n_def)
  have cnt: "unat (drop_bit PAGE_SHIFT (PAGE_UP (p_vaddr ph + p_filesz ph) - sv)) = n"
  proof -
    have "sv \<le> PAGE_UP (p_vaddr ph + p_filesz ph)" using sb(4) by (simp add: word_le_nat_alt sv_def)
    then show ?thesis using sb(4) by (simp add: unat_drop_page unat_sub sv_def n_def)
  qed
  have seg: "load_segment ebi fuel elf_paddr ph (s, z) =
      (if p_filesz ph < p_memsz ph then
         rbind (map_extra_pages (sv + of_nat n * 4096) (PAGE_UP (p_memsz ph) - PAGE_UP (p_filesz ph)) fl s1) (\<lambda>s.
         Inr (s, (p_vaddr ph + p_filesz ph, p_memsz ph - p_filesz ph) # z)) else Inr (s1, z))"
    using ok 1(1) cnt unfolding e
    by (simp add: load_segment_def seg_ok_def Let_def sv_def [symmetric] fl_def [symmetric] e)
  show ?thesis
  proof (cases "p_filesz ph < p_memsz ph")
    case False
    then have "m = 0" by (simp add: m_def seg_extra_pages_def)
    then have "pages_mapped (sv + of_nat n * 4096) 0 fl m s1 s1" by (simp add: pages_mapped_def)
    then show ?thesis using False seg 1(2,4) u1(1) \<open>m = 0\<close> by (intro exI [of _ s1] exI [of _ 0]) (simp add: page_block_def)
  next
    case True
    let ?sz = "PAGE_UP (p_memsz ph) - PAGE_UP (p_filesz ph)"
    have m: "m = unat ?sz div 4096" using True by (simp add: m_def seg_extra_pages_def)
    have "4096 dvd unat (sv + of_nat n * 4096)" unfolding e [symmetric] by (rule PAGE_UP_dvd)
    moreover have "tables_bound m \<le> desc_left (smode_pool_desc s1)" using left(1) f(9) by simp
    moreover have "\<forall>i<m. walk_page_table (sv + of_nat n * 4096 + of_nat i * 4096) s1 = not_valid"
      by (rule pages_mapped_next [OF 1(4) nm un])
    ultimately obtain pa' s2 where
      2: "map_extra_pages (sv + of_nat n * 4096) ?sz fl s1 = Inr s2" "pt_inv s2" "umode_inv s2"
        "page_block pa' m \<subseteq> umode_free s1" "umode_free s2 = umode_free s1 - page_block pa' m"
        "pages_mapped (sv + of_nat n * 4096) pa' fl m s1 s2"
      using umode_pages_spec [OF 1(2) u1(1), of "sv + of_nat n * 4096" ?sz fl, folded m] nm left(2) rwx u1(3)
      by (auto simp: map_extra_pages_def Let_def)
    then show ?thesis using True seg 1(4) u1(2) by (intro exI [of _ s1] exI [of _ s2] exI [of _ pa']) auto
  qed
qed

section \<open>Properties\<close>

text \<open>
  C21. An image that passes \<open>elf_check\<close> is a 64-bit RISC-V executable whose program header table and
  section header table lie inside the image, as exact sums: neither the 32-bit product of entry
  size and count nor the 64-bit addition can wrap around unnoticed.
\<close>

theorem elf_check_tables_in_image:
  assumes "elf_check ehdr elf_size = Inr r" "unat elf_size < 2 ^ 63"
  shows "r = 0 \<and> map ((!) (e_ident ehdr)) [0, 1, 2, 3, 4] = [0x7f, 0x45, 0x4c, 0x46, ELFCLASS64] \<and>
    e_type ehdr = ET_EXEC \<and> e_machine ehdr = EM_RISCV \<and>
    unat (e_phoff ehdr) + unat (e_phentsize ehdr) * unat (e_phnum ehdr) \<le> unat elf_size \<and>
    unat (e_shoff ehdr) + unat (e_shentsize ehdr) * unat (e_shnum ehdr) \<le> unat elf_size"
  using assms(1) table_end [OF assms(2), of "e_phoff ehdr" "e_phentsize ehdr" "e_phnum ehdr"]
    table_end [OF assms(2), of "e_shoff ehdr" "e_shentsize ehdr" "e_shnum ehdr"]
  by (simp add: elf_check_def Let_def split: if_splits)

definition sample_ehdr :: Elf64_Ehdr where
  "sample_ehdr = \<lparr>e_ident = [0x7f, 0x45, 0x4c, 0x46, 2, 1, 1], e_type = 2, e_machine = 243, e_entry = 0x10000,
     e_phoff = 64, e_shoff = 0x2000, e_phentsize = 56, e_phnum = 1, e_shentsize = 64, e_shnum = 4\<rparr>"

theorem elf_check_tables_in_image_witness:
  "elf_check sample_ehdr 0x3000 = Inr 0 \<and> unat (e_phoff sample_ehdr) + 56 \<le> 0x3000"
proof -
  have "elf_check sample_ehdr 0x3000 = Inr 0"
    by (simp add: elf_check_def sample_ehdr_def table_bytes_def ELFCLASS64_def ET_EXEC_def EM_RISCV_def)
  with elf_check_tables_in_image [OF this] show ?thesis by (simp add: sample_ehdr_def)
qed

text \<open>
  C10. Loading a segment whose pages are unmapped, with room in both pools: \<open>load_segment\<close> succeeds and
  keeps the invariants. It maps the pages from the page of \<open>p_vaddr\<close> up to the rounded end of the
  file contents to the image, then as many pages as the rounded sizes differ by to a block taken
  out of the U-mode pool, all by leaves with the permissions of the program header, and no
  other translation changes. Every byte that comes from the file translates to its place in
  the image, the bytes behind the file contents are recorded as zeroed, and every byte of a
  segment that starts on a page boundary is mapped.
\<close>

theorem segment_mapped:
  assumes "n = seg_file_pages ph" "m = seg_extra_pages ph" "sv = PAGE_DOWN (p_vaddr ph)"
    and "seg_ok ph" "pt_inv s" "umode_inv s" "n + m \<le> 2 ^ 27"
    and "unat (PAGE_DOWN (elf_paddr + p_offset ph)) + 4096 * n \<le> 2 ^ 56"
    and "unat (p_vaddr ph) mod 4096 = unat (elf_paddr + p_offset ph) mod 4096"
    and "\<forall>i<n + m. walk_page_table (sv + of_nat i * 4096) s = not_valid"
    and "tables_bound n + tables_bound m \<le> desc_left (smode_pool_desc s)" "m \<le> desc_left (umode_pool_desc s)"
  shows "\<exists>s' pa'. load_segment ebi fuel elf_paddr ph (s, z) = Inr (s',
      if p_filesz ph < p_memsz ph then (p_vaddr ph + p_filesz ph, p_memsz ph - p_filesz ph) # z else z) \<and>
    pt_inv s' \<and> umode_inv s' \<and> page_block pa' m \<subseteq> umode_free s - umode_free s' \<and>
    (\<forall>x < 4096 * (n + m). walk_page_table (sv + of_nat x) s' = \<lparr>res_level = SV39_LEVEL_PAGE,
       res_pte = leaf_of (pte_flag_from_Elf64_word (p_flags ph))
         (if x < 4096 * n then PAGE_DOWN (elf_paddr + p_offset ph) + of_nat (x div 4096) * 4096
          else pa' + of_nat ((x - 4096 * n) div 4096) * 4096)\<rparr>) \<and>
    (\<forall>va'. (\<forall>i<n + m. region va' 2 \<noteq> region (sv + of_nat i * 4096) 2) \<longrightarrow>
       walk_page_table va' s' = walk_page_table va' s) \<and>
    (\<forall>x < unat (p_filesz ph). get_pa (p_vaddr ph + of_nat x) s' = elf_paddr + p_offset ph + of_nat x) \<and>
    (4096 dvd unat (p_vaddr ph) \<longrightarrow> (\<forall>x < unat (p_memsz ph). \<exists>pa. walk_page_table (p_vaddr ph + of_nat x) s' =
       \<lparr>res_level = SV39_LEVEL_PAGE, res_pte = leaf_of (pte_flag_from_Elf64_word (p_flags ph)) pa\<rparr>))"
proof -
  let ?sp = "PAGE_DOWN (elf_paddr + p_offset ph)" and ?fl = "pte_flag_from_Elf64_word (p_flags ph)"
  define d where "d = unat (p_vaddr ph) mod 4096"
  from segment_loads [OF assms(4-6), of elf_paddr ebi fuel z] assms(7,8,10-12) obtain s1 s2 pa' where
    1: "load_segment ebi fuel elf_paddr ph (s, z) = Inr (s2,
      if p_filesz ph < p_memsz ph then (p_vaddr ph + p_filesz ph, p_memsz ph - p_filesz ph) # z else z)"
      "pt_inv s2" "umode_inv s2" "page_block pa' m \<subseteq> umode_free s - umode_free s2" "pages_mapped sv ?sp ?fl n s s1"
      "pages_mapped (sv + of_nat n * 4096) pa' ?fl m s1 s2"
    unfolding assms(1-3) by blast
  note sb = seg_bounds [OF assms(4), folded assms(1,3)]
  note adj = pages_mapped_adjacent [OF 1(5,6) sb(5) assms(7)]
  have v: "p_vaddr ph + of_nat x = sv + of_nat (d + x)" for x
    using PAGE_DOWN_plus [of "p_vaddr ph"] by (simp add: d_def assms(3) add.assoc [symmetric])
  have p: "?sp + of_nat (d + x) = elf_paddr + p_offset ph + of_nat x" for x
    using PAGE_DOWN_plus [of "elf_paddr + p_offset ph"] assms(9) by (simp add: d_def add.assoc [symmetric])
  have dd: "unat (p_vaddr ph) = unat sv + d" using and_not_page [of "p_vaddr ph"] by (simp add: d_def assms(3))
  have "get_pa (p_vaddr ph + of_nat x) s2 = elf_paddr + p_offset ph + of_nat x" if "x < unat (p_filesz ph)" for x
  proof -
    have "d + x < 4096 * n" using that dd sb(3,4) by linarith
    then show ?thesis unfolding v p [symmetric] by (intro adj(2)) simp_all
  qed
  moreover have "\<exists>pa. walk_page_table (p_vaddr ph + of_nat x) s2 =
       \<lparr>res_level = SV39_LEVEL_PAGE, res_pte = leaf_of ?fl pa\<rparr>"
    if al: "4096 dvd unat (p_vaddr ph)" and x: "x < unat (p_memsz ph)" for x
  proof -
    have "d + x < 4096 * (n + m)" using seg_covered [OF assms(4) al] x al by (simp add: d_def assms(1,2))
    from adj(1) [OF this] show ?thesis unfolding v by blast
  qed
  ultimately show ?thesis using 1(1-4) adj(1) pages_mapped_outside [OF 1(5,6)] by (intro exI [of _ s2] exI [of _ pa']) blast
qed

definition sample_phdr :: Elf64_Phdr where
  "sample_phdr = \<lparr>p_type = 1, p_flags = 6, p_offset = 0x1000, p_vaddr = 0x11000, p_filesz = 0x800, p_memsz = 0x2800\<rparr>"

lemma sample_phdr_ok:
  "seg_file_pages sample_phdr = 1" "seg_extra_pages sample_phdr = 2" "seg_ok sample_phdr"
  "PAGE_DOWN (p_vaddr sample_phdr) = 0x11000" "PAGE_DOWN (0x1a0000000 + p_offset sample_phdr) = 0x1a0001000"
  by (simp_all add: seg_ok_def seg_file_pages_def seg_extra_pages_def sample_phdr_def PAGE_UP_def PAGE_DOWN_def
      ROUNDUP_def PAGE_SIZE_def PARTITION_SIZE_def PT_LOAD_def PF_R_def PF_W_def PF_X_def)

theorem segment_mapped_witness:
  "seg_ok sample_phdr \<and> (\<exists>s' pa'. load_segment (\<lambda>log n. (-1, 0)) 0 0x1a0000000 sample_phdr (sample_mm, []) =
      Inr (s', [(0x11800, 0x2000)]) \<and> pt_inv s' \<and> page_block pa' 2 \<subseteq> umode_free sample_mm - umode_free s' \<and>
      get_pa 0x11010 s' = 0x1a0001010)"
proof -
  from segment_mapped [of 1 sample_phdr 2 "0x11000" sample_mm "0x1a0000000" "\<lambda>log n. (-1, 0)" 0 "[]"] obtain s' pa' where
    s': "load_segment (\<lambda>log n. (-1, 0)) 0 0x1a0000000 sample_phdr (sample_mm, []) = Inr (s', [(0x11800, 0x2000)])" "pt_inv s'"
      "page_block pa' 2 \<subseteq> umode_free sample_mm - umode_free s'"
      "\<forall>x < 0x800. get_pa (0x11000 + of_nat x) s' = 0x1a0001000 + of_nat x"
    using sample_phdr_ok sample_pt_inv sample_mm_inv
    by (auto simp: sample_walk tables_bound_def) (auto simp: sample_phdr_def)
  from s'(4) have "get_pa (0x11000 + of_nat 0x10) s' = 0x1a0001000 + of_nat 0x10" by (rule allE [where x = "0x10"]) simp
  then show ?thesis using s'(1-3) sample_phdr_ok(3) by auto
qed


definition unaligned_phdr :: Elf64_Phdr where
  "unaligned_phdr = \<lparr>p_type = 1, p_flags = 6, p_offset = 0x1800, p_vaddr = 0x11800, p_filesz = 0x700, p_memsz = 0x1000\<rparr>"


end
