(* ===== verification/Vli.thy ===== *)
theory Vli
  imports Prelude "HOL-Library.While_Combinator"
begin

unbundle bit_operations_syntax

text \<open>
  Multi-precision arithmetic of \<^verbatim>\<open>emod_manager/attest/ecc.c\<close>. A \<^verbatim>\<open>uint64_t[NUM_ECC_DIGITS]\<close> is a
  list of 64-bit words, least significant first; the number of digits is the length of the
  list, so the same definitions serve the four curves the file can be compiled for. A loop
  over the digits is a recursion on the list. Functions that write an array return it, and
  a \<^verbatim>\<open>uint128_t\<close> is a 128-bit word, or a pair of 64-bit words in the variant for compilers that
  lack the type.

  \<open>val\<close> is the number an array denotes and \<open>digits n\<close> the array of \<open>n\<close> digits of a number. Each
  operation is shown to compute the digits of the mathematical result, carries included.
\<close>

section \<open>Operations\<close>

type_synonym vli = "u64 list"

datatype ecc_curve = secp128r1 | secp192r1 | secp256r1 | secp384r1

fun ECC_BYTES :: "ecc_curve \<Rightarrow> nat" where
  "ECC_BYTES secp128r1 = 16"
| "ECC_BYTES secp192r1 = 24"
| "ECC_BYTES secp256r1 = 32"
| "ECC_BYTES secp384r1 = 48"

definition NUM_ECC_DIGITS :: "ecc_curve \<Rightarrow> nat" where
  "NUM_ECC_DIGITS C = ECC_BYTES C div 8"

definition bool_u64 :: "bool \<Rightarrow> u64" where
  "bool_u64 b = (if b then 1 else 0)"

definition vli_clear :: "nat \<Rightarrow> vli" where
  "vli_clear n = replicate n 0"

fun vli_isZero :: "vli \<Rightarrow> bool" where
  "vli_isZero [] = True"
| "vli_isZero (d # ds) = (if d \<noteq> 0 then False else vli_isZero ds)"

definition vli_testBit :: "vli \<Rightarrow> nat \<Rightarrow> u64" where
  "vli_testBit p_vli p_bit = p_vli ! (p_bit div 64) AND push_bit (p_bit mod 64) 1"

fun numDigits_loop :: "vli \<Rightarrow> nat \<Rightarrow> nat" where
  "numDigits_loop p_vli 0 = 0"
| "numDigits_loop p_vli (Suc i) = (if p_vli ! i = 0 then numDigits_loop p_vli i else Suc i)"

definition vli_numDigits :: "vli \<Rightarrow> nat" where
  "vli_numDigits p_vli = numDigits_loop p_vli (length p_vli)"

function digit_bits :: "u64 \<Rightarrow> nat" where
  "digit_bits l_digit = (if l_digit = 0 then 0 else Suc (digit_bits (drop_bit 1 l_digit)))"
  by auto
termination
  by (relation "measure unat") (simp_all add: drop_bit_eq_div unat_div_u64 unat_gt_0)

definition vli_numBits :: "vli \<Rightarrow> nat" where
  "vli_numBits p_vli =
     (let l_numDigits = vli_numDigits p_vli in
      if l_numDigits = 0 then 0
      else (l_numDigits - 1) * 64 + digit_bits (p_vli ! (l_numDigits - 1)))"

fun cmp_loop :: "vli \<Rightarrow> vli \<Rightarrow> nat \<Rightarrow> int" where
  "cmp_loop p_left p_right 0 = 0"
| "cmp_loop p_left p_right (Suc i) =
     (if p_left ! i > p_right ! i then 1 else if p_left ! i < p_right ! i then - 1
      else cmp_loop p_left p_right i)"

definition vli_cmp :: "vli \<Rightarrow> vli \<Rightarrow> int" where
  "vli_cmp p_left p_right = cmp_loop p_left p_right (length p_left)"

fun lshift_loop :: "vli \<Rightarrow> nat \<Rightarrow> u64 \<Rightarrow> vli \<times> u64" where
  "lshift_loop [] p_shift l_carry = ([], l_carry)"
| "lshift_loop (l_temp # ds) p_shift l_carry =
     (let (r, c) = lshift_loop ds p_shift (drop_bit (64 - p_shift) l_temp)
      in ((push_bit p_shift l_temp OR l_carry) # r, c))"

definition vli_lshift :: "vli \<Rightarrow> nat \<Rightarrow> vli \<times> u64" where
  "vli_lshift p_in p_shift = lshift_loop p_in p_shift 0"

text \<open>The loop of \<open>vli_rshift1\<close> runs from the last digit to the first; the carry comes from the digits above.\<close>

fun rshift1_loop :: "vli \<Rightarrow> vli \<times> u64" where
  "rshift1_loop [] = ([], 0)"
| "rshift1_loop (l_temp # ds) =
     (let (r, l_carry) = rshift1_loop ds in ((drop_bit 1 l_temp OR l_carry) # r, push_bit 63 l_temp))"

definition vli_rshift1 :: "vli \<Rightarrow> vli" where
  "vli_rshift1 p_vli = fst (rshift1_loop p_vli)"

fun add_loop :: "vli \<Rightarrow> vli \<Rightarrow> u64 \<Rightarrow> vli \<times> u64" where
  "add_loop (a # as) (b # bs) l_carry =
     (let l_sum = a + b + l_carry;
          (r, c) = add_loop as bs (if l_sum \<noteq> a then bool_u64 (l_sum < a) else l_carry)
      in (l_sum # r, c))"
| "add_loop _ _ l_carry = ([], l_carry)"

definition vli_add :: "vli \<Rightarrow> vli \<Rightarrow> vli \<times> u64" where
  "vli_add p_left p_right = add_loop p_left p_right 0"

fun sub_loop :: "vli \<Rightarrow> vli \<Rightarrow> u64 \<Rightarrow> vli \<times> u64" where
  "sub_loop (a # as) (b # bs) l_borrow =
     (let l_diff = a - b - l_borrow;
          (r, c) = sub_loop as bs (if l_diff \<noteq> a then bool_u64 (l_diff > a) else l_borrow)
      in (l_diff # r, c))"
| "sub_loop _ _ l_borrow = ([], l_borrow)"

definition vli_sub :: "vli \<Rightarrow> vli \<Rightarrow> vli \<times> u64" where
  "vli_sub p_left p_right = sub_loop p_left p_right 0"

definition l_min :: "nat \<Rightarrow> nat \<Rightarrow> nat" where
  "l_min n k = (if k < n then 0 else (k + 1) - n)"

definition mult_add :: "u128 \<Rightarrow> u128 \<times> u64 \<Rightarrow> u128 \<times> u64" where
  "mult_add l_product = (\<lambda>(r01, r2). let r01' = r01 + l_product in (r01', r2 + bool_u64 (r01' < l_product)))"

definition mult_column :: "vli \<Rightarrow> vli \<Rightarrow> nat \<Rightarrow> u128 \<times> u64 \<Rightarrow> u128 \<times> u64" where
  "mult_column p_left p_right k =
     fold (\<lambda>i. mult_add (ucast (p_left ! i) * ucast (p_right ! (k - i))))
       [l_min (length p_left) k..<min (k + 1) (length p_left)]"

definition square_column :: "vli \<Rightarrow> nat \<Rightarrow> u128 \<times> u64 \<Rightarrow> u128 \<times> u64" where
  "square_column p_left k =
     fold (\<lambda>i (r01, r2).
         let l_product = ucast (p_left ! i) * ucast (p_left ! (k - i)) in
         if i < k - i then mult_add (l_product * 2) (r01, r2 + ucast (drop_bit 127 l_product))
         else mult_add l_product (r01, r2))
       [l_min (length p_left) k..<k div 2 + 1]"

text \<open>
  The loop over the columns, which \<open>vli_mult\<close> and \<open>vli_square\<close> share: it stores the low word of
  the accumulator and shifts the accumulator by one word.
\<close>

definition column_step :: "(nat \<Rightarrow> u128 \<times> u64 \<Rightarrow> u128 \<times> u64) \<Rightarrow> nat \<Rightarrow> vli \<times> u128 \<Rightarrow> vli \<times> u128" where
  "column_step column k = (\<lambda>(p_result, r01). let (r01', r2) = column k (r01, 0)
     in (p_result @ [ucast r01'], drop_bit 64 r01' OR push_bit 64 (ucast r2)))"

definition columns :: "(nat \<Rightarrow> u128 \<times> u64 \<Rightarrow> u128 \<times> u64) \<Rightarrow> nat \<Rightarrow> vli" where
  "columns column n =
     (let (p_result, r01) = fold (column_step column) [0..<n * 2 - 1] ([], 0) in p_result @ [ucast r01])"

definition vli_mult :: "vli \<Rightarrow> vli \<Rightarrow> vli" where
  "vli_mult p_left p_right = columns (mult_column p_left p_right) (length p_left)"

definition vli_square :: "vli \<Rightarrow> vli" where
  "vli_square p_left = columns (square_column p_left) (length p_left)"

section \<open>The variant without 128-bit integers\<close>

text \<open>
  When the compiler has no \<^verbatim>\<open>unsigned __int128\<close> the file uses a pair of words and its own
  multiplication of two words.
\<close>

record uint128_t =
  m_low :: u64
  m_high :: u64

definition mul_64_64 :: "u64 \<Rightarrow> u64 \<Rightarrow> uint128_t" where
  "mul_64_64 p_left p_right =
     (let a0 = p_left AND 0xffffffff;
          a1 = drop_bit 32 p_left;
          b0 = p_right AND 0xffffffff;
          b1 = drop_bit 32 p_right;
          m0 = a0 * b0;
          m1 = a0 * b1;
          m2 = a1 * b0;
          m3 = a1 * b1;
          m2 = m2 + drop_bit 32 m0;
          m2 = m2 + m1;
          m3 = (if m2 < m1 then m3 + 0x100000000 else m3)
      in \<lparr>m_low = (m0 AND 0xffffffff) OR push_bit 32 m2, m_high = m3 + drop_bit 32 m2\<rparr>)"

definition add_128_128 :: "uint128_t \<Rightarrow> uint128_t \<Rightarrow> uint128_t" where
  "add_128_128 a b =
     (let low = m_low a + m_low b
      in \<lparr>m_low = low, m_high = m_high a + m_high b + bool_u64 (low < m_low a)\<rparr>)"

definition pair_add :: "uint128_t \<Rightarrow> uint128_t \<times> u64 \<Rightarrow> uint128_t \<times> u64" where
  "pair_add l_product = (\<lambda>(r01, r2). let r01' = add_128_128 r01 l_product
     in (r01', r2 + bool_u64 (m_high r01' < m_high l_product)))"

definition pair_mult_column :: "vli \<Rightarrow> vli \<Rightarrow> nat \<Rightarrow> uint128_t \<times> u64 \<Rightarrow> uint128_t \<times> u64" where
  "pair_mult_column p_left p_right k =
     fold (\<lambda>i. pair_add (mul_64_64 (p_left ! i) (p_right ! (k - i))))
       [l_min (length p_left) k..<min (k + 1) (length p_left)]"

definition pair_square_column :: "vli \<Rightarrow> nat \<Rightarrow> uint128_t \<times> u64 \<Rightarrow> uint128_t \<times> u64" where
  "pair_square_column p_left k =
     fold (\<lambda>i (r01, r2).
         let l_product = mul_64_64 (p_left ! i) (p_left ! (k - i)) in
         if i < k - i then
           pair_add \<lparr>m_low = push_bit 1 (m_low l_product),
             m_high = push_bit 1 (m_high l_product) OR drop_bit 63 (m_low l_product)\<rparr>
             (r01, r2 + drop_bit 63 (m_high l_product))
         else pair_add l_product (r01, r2))
       [l_min (length p_left) k..<k div 2 + 1]"

definition pair_step :: "(nat \<Rightarrow> uint128_t \<times> u64 \<Rightarrow> uint128_t \<times> u64) \<Rightarrow> nat \<Rightarrow> vli \<times> uint128_t \<Rightarrow> vli \<times> uint128_t" where
  "pair_step column k = (\<lambda>(p_result, r01). let (r01', r2) = column k (r01, 0)
     in (p_result @ [m_low r01'], \<lparr>m_low = m_high r01', m_high = r2\<rparr>))"

definition pair_columns :: "(nat \<Rightarrow> uint128_t \<times> u64 \<Rightarrow> uint128_t \<times> u64) \<Rightarrow> nat \<Rightarrow> vli" where
  "pair_columns column n =
     (let (p_result, r01) = fold (pair_step column) [0..<n * 2 - 1] ([], \<lparr>m_low = 0, m_high = 0\<rparr>)
      in p_result @ [m_low r01])"

definition pair_vli_mult :: "vli \<Rightarrow> vli \<Rightarrow> vli" where
  "pair_vli_mult p_left p_right = pair_columns (pair_mult_column p_left p_right) (length p_left)"

definition pair_vli_square :: "vli \<Rightarrow> vli" where
  "pair_vli_square p_left = pair_columns (pair_square_column p_left) (length p_left)"

declare unat_lt64 [simp del]

section \<open>The numbers that arrays denote\<close>

fun val :: "vli \<Rightarrow> nat" where
  "val [] = 0"
| "val (d # ds) = unat d + 2 ^ 64 * val ds"

fun digits :: "nat \<Rightarrow> nat \<Rightarrow> vli" where
  "digits 0 v = []"
| "digits (Suc n) v = of_nat v # digits n (v div 2 ^ 64)"

abbreviation base :: "nat \<Rightarrow> nat" where
  "base n \<equiv> 2 ^ (64 * n)"

lemma base_Suc: "base (Suc n) = 2 ^ 64 * base n"
  by (simp add: power_add)

lemma length_digits [simp]: "length (digits n v) = n"
  by (induction n arbitrary: v) simp_all

lemma val_less: "val x < base (length x)"
proof (induction x)
  case (Cons d ds)
  have "unat d + 2 ^ 64 * val ds < 2 ^ 64 * (val ds + 1)" using unat_bound [of d] by simp
  also have "\<dots> \<le> 2 ^ 64 * base (length ds)" using Cons by (intro mult_le_mono2) simp
  finally show ?case by (simp add: power_add)
qed simp

lemma val_digits: "val (digits n v) = v mod base n"
proof (induction n arbitrary: v)
  case (Suc n)
  have "val (digits (Suc n) v) = v mod 2 ^ 64 + 2 ^ 64 * (v div 2 ^ 64 mod base n)"
    by (simp add: Suc unat_of_nat)
  also have "\<dots> = v mod base (Suc n)" unfolding base_Suc by (metis add.commute mod_mult2_eq)
  finally show ?case .
qed simp

lemma val_digits_less: "v < base n \<Longrightarrow> val (digits n v) = v"
  by (simp add: val_digits)

lemma digits_val [simp]: "digits (length x) (val x) = x"
proof (induction x)
  case (Cons d ds)
  have "unat d < 2 ^ 64" using unat_bound [of d] by simp
  then have "(unat d + 2 ^ 64 * val ds) div 2 ^ 64 = val ds" by simp
  moreover have "(of_nat (unat d + 2 ^ 64 * val ds) :: u64) = d"
    using \<open>unat d < 2 ^ 64\<close> by (simp add: word_unat_eq_iff unat_of_nat del: of_nat_add)
  ultimately show ?case using Cons by (simp del: of_nat_add)
qed simp

lemma val_inj: "length x = length y \<Longrightarrow> val x = val y \<longleftrightarrow> x = y"
  by (metis digits_val)

lemma digits_mod: "digits n (v mod base n) = digits n v"
  by (metis digits_val length_digits val_digits)

lemma vli_eqI: "length x = n \<Longrightarrow> val x = v mod base n \<Longrightarrow> x = digits n v"
  by (metis digits_mod digits_val)

lemma val_append: "val (x @ y) = val x + base (length x) * val y"
  by (induction x) (simp_all add: algebra_simps power_add)

lemma val_take_drop: "n \<le> length x \<Longrightarrow> val x = val (take n x) + base n * val (drop n x)"
  using val_append [of "take n x" "drop n x"] by (simp add: min_absorb2)

lemma val_nth: "val x = (\<Sum>i<length x. 2 ^ (64 * i) * unat (x ! i))"
proof (induction x)
  case (Cons d ds)
  have "(\<Sum>i<length (d # ds). 2 ^ (64 * i) * unat ((d # ds) ! i))
    = unat d + (\<Sum>i<length ds. 2 ^ (64 * Suc i) * unat (ds ! i))"
    unfolding list.size add_0_right add_Suc_right sum.lessThan_Suc_shift by simp
  also have "(\<Sum>i<length ds. 2 ^ (64 * Suc i) * unat (ds ! i)) = 2 ^ 64 * val ds"
    unfolding Cons sum_distrib_left by (intro sum.cong) (simp_all add: power_add)
  finally show ?case by simp
qed simp

lemma val_replicate [simp]: "val (replicate n 0) = 0"
  by (induction n) simp_all

section \<open>Word arithmetic with carries\<close>

lemma unat_bool_u64 [simp]: "unat (bool_u64 b) = (if b then 1 else 0)"
  by (simp add: bool_u64_def)

lemma unat_or_disjoint: "a AND b = 0 \<Longrightarrow> unat (a OR b) = unat a + unat b" for a b :: "'a::len word"
proof -
  assume "a AND b = 0"
  then have "unat a AND unat b = 0" by (metis unsigned_and_eq unsigned_0)
  then show ?thesis by (simp add: unsigned_or_eq disjunctive_add_eq_or)
qed

lemma unat_push_or:
  fixes x c :: "'a::len word"
  assumes "unat c < 2 ^ s"
  shows "unat (push_bit s x OR c) = unat x * 2 ^ s mod 2 ^ LENGTH('a) + unat c"
proof -
  have c: "take_bit s c = c" using assms by (simp add: word_unat_eq_iff unsigned_take_bit_eq take_bit_nat_eq_self)
  have "push_bit s x AND take_bit s c = 0" by (rule bit_eqI) (auto simp: bit_simps)
  then have "unat (push_bit s x OR c) = unat (push_bit s x) + unat c" unfolding c by (rule unat_or_disjoint)
  moreover have "unat (push_bit s x) = unat x * 2 ^ s mod 2 ^ LENGTH('a)"
    by (metis unsigned_push_bit_eq take_bit_eq_mod push_bit_eq_mult)
  ultimately show ?thesis by simp
qed

lemma mod_once: "B \<le> v \<Longrightarrow> v < 2 * B \<Longrightarrow> v mod B = v - B" for v B :: nat
  by (simp add: le_mod_geq)

lemma add_carry:
  fixes x y :: "'a::len word"
  shows "unat (x + y) + 2 ^ LENGTH('a) * (if x + y < y then 1 else 0) = unat x + unat y"
proof (cases "unat x + unat y < 2 ^ LENGTH('a)")
  case False
  then have "unat (x + y) = unat x + unat y - 2 ^ LENGTH('a)"
    using unat_bound [of x] unat_bound [of y] unfolding unat_word_ariths by (intro mod_once) linarith+
  moreover from this False have "unat (x + y) < unat y" using unat_bound [of x] by linarith
  ultimately show ?thesis using False by (simp add: word_less_nat_alt)
qed (simp add: unat_add_less word_less_nat_alt)

lemma add_digit:
  fixes a b c :: u64
  assumes "unat c \<le> 1"
  defines "s \<equiv> a + b + c"
  defines "c' \<equiv> (if s \<noteq> a then bool_u64 (s < a) else c)"
  shows "unat s + 2 ^ 64 * unat c' = unat a + unat b + unat c" "unat c' \<le> 1"
proof -
  have b: "unat a < 2 ^ 64" "unat b < 2 ^ 64" using unat_bound [of a] unat_bound [of b] by simp_all
  have s: "unat s = (unat a + unat b + unat c) mod 2 ^ 64" by (simp add: s_def unat_word_ariths mod_simps)
  have "s = a \<longleftrightarrow> unat s = unat a" by (simp add: word_unat_eq_iff)
  moreover have "s < a \<longleftrightarrow> unat s < unat a" by (simp add: word_less_nat_alt)
  ultimately show "unat s + 2 ^ 64 * unat c' = unat a + unat b + unat c"
  proof (cases "unat a + unat b + unat c < 2 ^ 64")
    case True
    then show ?thesis using s b assms(1) \<open>s = a \<longleftrightarrow> _\<close> \<open>s < a \<longleftrightarrow> _\<close> by (auto simp: c'_def)
  next
    case False
    then have "unat s = unat a + unat b + unat c - 2 ^ 64"
      unfolding s using b assms(1) by (intro mod_once) linarith+
    then show ?thesis using False b assms(1) \<open>s = a \<longleftrightarrow> _\<close> \<open>s < a \<longleftrightarrow> _\<close> by (auto simp: c'_def)
  qed
  show "unat c' \<le> 1" using assms(1) by (simp add: c'_def)
qed

lemma sub_digit:
  fixes a b c :: u64
  assumes "unat c \<le> 1"
  defines "s \<equiv> a - b - c"
  defines "c' \<equiv> (if s \<noteq> a then bool_u64 (s > a) else c)"
  shows "unat s + unat b + unat c = unat a + 2 ^ 64 * unat c'" "unat c' \<le> 1"
proof -
  have "s + b + c = a" by (simp add: s_def)
  have b: "unat s < 2 ^ 64" "unat b < 2 ^ 64" "unat a < 2 ^ 64" using unat_bound [of s] unat_bound [of b] unat_bound [of a] by simp_all
  have s: "unat a = (unat s + unat b + unat c) mod 2 ^ 64" unfolding \<open>s + b + c = a\<close> [symmetric] by (simp add: unat_word_ariths mod_simps)
  have e: "s = a \<longleftrightarrow> unat s = unat a" "s > a \<longleftrightarrow> unat s > unat a" by (simp_all add: word_unat_eq_iff word_less_nat_alt)
  show "unat s + unat b + unat c = unat a + 2 ^ 64 * unat c'"
  proof (cases "unat s + unat b + unat c < 2 ^ 64")
    case True
    then show ?thesis using s b assms(1) e by (auto simp: c'_def)
  next
    case False
    then have "unat a = unat s + unat b + unat c - 2 ^ 64"
      unfolding s using b assms(1) by (intro mod_once) linarith+
    then show ?thesis using False b assms(1) e by (auto simp: c'_def)
  qed
  show "unat c' \<le> 1" using assms(1) by (simp add: c'_def)
qed

section \<open>Addition, subtraction, shifts and comparison\<close>

lemma add_loop_val:
  assumes "length x = length y" "unat c \<le> 1" "add_loop x y c = (r, k)"
  shows "length r = length x" "val r + base (length x) * unat k = val x + val y + unat c" "unat k \<le> 1"
proof -
  have "length r = length x \<and> val r + base (length x) * unat k = val x + val y + unat c \<and> unat k \<le> 1"
    using assms
  proof (induction x y arbitrary: c r k rule: list_induct2)
    case (Cons a as b bs)
    define c' where "c' = (if a + b + c \<noteq> a then bool_u64 (a + b + c < a) else c)"
    obtain r' k' where r': "add_loop as bs c' = (r', k')" by force
    note d = add_digit [OF Cons.prems(1), of a b, folded c'_def]
    have r: "r = (a + b + c) # r'" "k = k'"
      using Cons.prems(2) by (simp_all only: add_loop.simps Let_def c'_def [symmetric] r' prod.case prod.inject)
    note IH = Cons.IH [OF d(2) r']
    from IH have "2 ^ 64 * (val r' + base (length as) * unat k') = 2 ^ 64 * (val as + val bs + unat c')" by simp
    with d(1) IH show ?case unfolding r by (simp add: power_add distrib_left mult.assoc)
  qed simp
  then show "length r = length x" "val r + base (length x) * unat k = val x + val y + unat c" "unat k \<le> 1" by auto
qed

lemma sub_loop_val:
  assumes "length x = length y" "unat c \<le> 1" "sub_loop x y c = (r, k)"
  shows "length r = length x" "val r + val y + unat c = val x + base (length x) * unat k" "unat k \<le> 1"
proof -
  have "length r = length x \<and> val r + val y + unat c = val x + base (length x) * unat k \<and> unat k \<le> 1"
    using assms
  proof (induction x y arbitrary: c r k rule: list_induct2)
    case (Cons a as b bs)
    define c' where "c' = (if a - b - c \<noteq> a then bool_u64 (a - b - c > a) else c)"
    obtain r' k' where r': "sub_loop as bs c' = (r', k')" by force
    note d = sub_digit [OF Cons.prems(1), of a b, folded c'_def]
    have r: "r = (a - b - c) # r'" "k = k'"
      using Cons.prems(2) by (simp_all only: sub_loop.simps Let_def c'_def [symmetric] r' prod.case prod.inject)
    note IH = Cons.IH [OF d(2) r']
    from IH have "2 ^ 64 * (val r' + val bs + unat c') = 2 ^ 64 * (val as + base (length as) * unat k')" by simp
    with d(1) IH show ?case unfolding r by (simp add: power_add distrib_left mult.assoc)
  qed simp
  then show "length r = length x" "val r + val y + unat c = val x + base (length x) * unat k" "unat k \<le> 1" by auto
qed

lemma vli_add_eq:
  assumes "length x = n" "length y = n"
  shows "vli_add x y = (digits n (val x + val y), bool_u64 (base n \<le> val x + val y))"
proof -
  obtain r k where rk: "add_loop x y 0 = (r, k)" by force
  note a = add_loop_val [OF _ _ rk, unfolded assms, simplified]
  have r: "val r < base n" using val_less [of r] a(1) by simp
  consider "unat k = 0" | "unat k = 1" using a(3) by linarith
  then show ?thesis
  proof cases
    case 1
    then have "k = bool_u64 (base n \<le> val x + val y)" using a(2) r by (simp add: word_unat_eq_iff)
    moreover have "r = digits n (val x + val y)" using a(1,2) 1 r by (intro vli_eqI) simp_all
    ultimately show ?thesis by (simp add: vli_add_def rk)
  next
    case 2
    then have "k = bool_u64 (base n \<le> val x + val y)" using a(2) r by (simp add: word_unat_eq_iff)
    moreover have "r = digits n (val x + val y)" using a(1,2) 2 r by (intro vli_eqI) (simp_all flip: a(2))
    ultimately show ?thesis by (simp add: vli_add_def rk)
  qed
qed

lemma vli_sub_eq:
  assumes "length x = n" "length y = n"
  shows "vli_sub x y = (digits n (base n + val x - val y), bool_u64 (val x < val y))"
proof -
  obtain r k where rk: "sub_loop x y 0 = (r, k)" by force
  note a = sub_loop_val [OF _ _ rk, unfolded assms, simplified]
  have b: "val r < base n" "val y < base n" using val_less [of r] val_less [of y] a(1) assms by simp_all
  consider "unat k = 0" | "unat k = 1" using a(3) by linarith
  then show ?thesis
  proof cases
    case 1
    then have "k = bool_u64 (val x < val y)" using a(2) by (simp add: word_unat_eq_iff)
    moreover have "base n + val x - val y = val r + base n" using a(2) 1 by simp
    then have "r = digits n (base n + val x - val y)" using a(1) b by (intro vli_eqI) simp_all
    ultimately show ?thesis by (simp add: vli_sub_def rk)
  next
    case 2
    then have "k = bool_u64 (val x < val y)" using a(2) b by (simp add: word_unat_eq_iff)
    moreover have "base n + val x - val y = val r" using a(2) 2 by simp
    then have "r = digits n (base n + val x - val y)" using a(1) b by (intro vli_eqI) simp_all
    ultimately show ?thesis by (simp add: vli_sub_def rk)
  qed
qed

lemma lshift_digit:
  fixes d c :: u64
  assumes "0 < s" "s < 64" "unat c < 2 ^ s"
  defines "k \<equiv> drop_bit (64 - s) d"
  shows "unat (push_bit s d OR c) + 2 ^ 64 * unat k = unat d * 2 ^ s + unat c" "unat k < 2 ^ s"
proof -
  have p: "(2 :: nat) ^ 64 = 2 ^ (64 - s) * 2 ^ s" using assms(2) by (simp flip: power_add)
  have k: "unat k = unat d div 2 ^ (64 - s)" unfolding k_def unat_drop_bit_eq by (rule drop_bit_eq_div)
  have "unat k = unat d * 2 ^ s div 2 ^ 64" unfolding k p by simp
  moreover have "unat (push_bit s d OR c) = unat d * 2 ^ s mod 2 ^ 64 + unat c" using unat_push_or [OF assms(3), of d] by simp
  ultimately show "unat (push_bit s d OR c) + 2 ^ 64 * unat k = unat d * 2 ^ s + unat c"
    using mod_mult_div_eq [of "unat d * 2 ^ s" "2 ^ 64"] by simp
  have "unat d < 2 ^ s * 2 ^ (64 - s)" using unat_bound [of d] p by (simp add: mult.commute)
  then show "unat k < 2 ^ s" unfolding k by (simp add: less_mult_imp_div_less)
qed

lemma lshift_loop_val:
  assumes "0 < s" "s < 64" "unat c < 2 ^ s" "lshift_loop x s c = (r, k)"
  shows "length r = length x \<and> val r + base (length x) * unat k = val x * 2 ^ s + unat c \<and> unat k < 2 ^ s"
  using assms(3,4)
proof (induction x arbitrary: c r k)
  case (Cons d ds)
  obtain r' k' where r': "lshift_loop ds s (drop_bit (64 - s) d) = (r', k')" by force
  note a = lshift_digit [OF assms(1,2) Cons.prems(1), of d]
  have r: "r = (push_bit s d OR c) # r'" "k = k'" using Cons.prems(2) r' by simp_all
  note IH = Cons.IH [OF a(2) r']
  from IH have "2 ^ 64 * (val r' + base (length ds) * unat k') = 2 ^ 64 * (val ds * 2 ^ s + unat (drop_bit (64 - s) d))" by simp
  with a(1) IH show ?case unfolding r by (simp add: power_add distrib_left distrib_right mult.assoc)
qed simp

lemma vli_lshift_eq:
  assumes "length x = n" "0 < s" "s < 64"
  shows "vli_lshift x s = (digits n (val x * 2 ^ s), of_nat (val x * 2 ^ s div base n))"
proof -
  obtain r k where rk: "lshift_loop x s 0 = (r, k)" by force
  from lshift_loop_val [OF assms(2,3) _ rk] assms(1)
  have a: "length r = n" "val r + base n * unat k = val x * 2 ^ s" by simp_all
  have r: "val r < base n" using val_less [of r] a(1) by simp
  have "val x * 2 ^ s div base n = unat k" "val x * 2 ^ s mod base n = val r" using r unfolding a(2) [symmetric] by simp_all
  then show ?thesis using a(1) rk by (simp add: vli_lshift_def vli_eqI)
qed

lemma rshift1_loop_val:
  "rshift1_loop x = (r, c) \<Longrightarrow> length r = length x \<and> c = push_bit 63 (of_nat (val x)) \<and> val r = val x div 2"
proof (induction x arbitrary: r c)
  case (Cons d ds)
  obtain r' c' where r': "rshift1_loop ds = (r', c')" by force
  note IH = Cons.IH [OF r']
  have r: "r = (drop_bit 1 d OR c') # r'" "c = push_bit 63 d" using Cons.prems r' by simp_all
  have d: "unat d < 2 ^ 64" using unat_bound [of d] by simp
  have d2: "unat (drop_bit 1 d) = unat d div 2" unfolding unat_drop_bit_eq by (simp add: drop_bit_eq_div)
  have "unat (drop_bit 1 d) < 2 ^ 63" unfolding d2 using d by (intro less_mult_imp_div_less) simp
  from unat_push_or [OF this, of "of_nat (val ds)"] have "unat (drop_bit 1 d OR c') =
     unat (of_nat (val ds) :: u64) * 2 ^ 63 mod 2 ^ 64 + unat d div 2"
    using IH d2 by (simp add: or.commute)
  also have "unat (of_nat (val ds) :: u64) * 2 ^ 63 mod 2 ^ 64 = (val ds mod 2) * 2 ^ 63"
    using mult_mod_right [of "2 ^ 63" "val ds mod 2 ^ 64" 2] by (simp add: unat_of_nat mod_mod_cancel mult.commute)
  finally have u: "unat (drop_bit 1 d OR c') = (val ds mod 2) * 2 ^ 63 + unat d div 2" .
  have "2 ^ 64 * val ds = 2 * ((val ds mod 2) * 2 ^ 63 + 2 ^ 64 * (val ds div 2))"
  proof -
    define q e where "q = val ds div 2" and "e = val ds mod 2"
    then have "val ds = e + 2 * q" by simp
    then show ?thesis unfolding q_def [symmetric] e_def [symmetric] by simp
  qed
  then have "(unat d + 2 ^ 64 * val ds) div 2 = unat d div 2 + ((val ds mod 2) * 2 ^ 63 + 2 ^ 64 * (val ds div 2))"
    by simp
  then have "val r = val (d # ds) div 2" unfolding r val.simps u using IH by simp
  moreover have "push_bit 63 d = push_bit 63 (of_nat (val (d # ds)) :: u64)"
    using arg_cong [OF digits_val [of "d # ds"], of hd] by simp
  ultimately show ?case using IH by (simp add: r)
qed simp

lemma vli_rshift1_eq: "length x = n \<Longrightarrow> vli_rshift1 x = digits n (val x div 2)"
  using rshift1_loop_val [of x] val_less [of x] by (cases "rshift1_loop x") (auto simp: vli_rshift1_def intro!: vli_eqI)

lemma val_take_Suc: "i < length x \<Longrightarrow> val (take (Suc i) x) = val (take i x) + base i * unat (x ! i)"
  by (simp add: take_Suc_conv_app_nth val_append min_absorb2)

lemma val_take_less: "i \<le> length x \<Longrightarrow> val (take i x) < base i"
  using val_less [of "take i x"] by (simp add: min_absorb2)

lemma cmp_loop_val:
  assumes "i \<le> length x" "i \<le> length y"
  shows "cmp_loop x y i = sgn (int (val (take i x)) - int (val (take i y)))"
  using assms
proof (induction i)
  case (Suc i)
  note v = val_take_Suc [of i x] val_take_Suc [of i y] val_take_less [of i x] val_take_less [of i y]
  have lt: "a + base i * unat c < b + base i * unat d" if "unat c < unat d" "a < base i" for a b and c d :: u64
  proof -
    have "a + base i * unat c < base i * (unat c + 1)" using that(2) by simp
    also have "\<dots> \<le> base i * unat d" using that(1) by (intro mult_le_mono2) simp
    finally show ?thesis by simp
  qed
  consider "x ! i < y ! i" | "x ! i > y ! i" | "x ! i = y ! i" by force
  then show ?case
  proof cases
    case 1
    with lt [of "x ! i" "y ! i" "val (take i x)" "val (take i y)"] v Suc.prems
    have "val (take (Suc i) x) < val (take (Suc i) y)" by (simp add: word_less_nat_alt)
    with 1 show ?thesis by (simp add: sgn_if)
  next
    case 2
    with lt [of "y ! i" "x ! i" "val (take i y)" "val (take i x)"] v Suc.prems
    have "val (take (Suc i) y) < val (take (Suc i) x)" by (simp add: word_less_nat_alt)
    with 2 show ?thesis by (simp add: sgn_if)
  next
    case 3
    with v Suc show ?thesis by simp
  qed
qed simp

lemma vli_cmp_eq: "length x = n \<Longrightarrow> length y = n \<Longrightarrow> vli_cmp x y = sgn (int (val x) - int (val y))"
  using cmp_loop_val [of n x y] by (simp add: vli_cmp_def)

lemma vli_isZero_eq: "vli_isZero x \<longleftrightarrow> val x = 0"
  by (induction x) (auto simp: unat_eq_0)

lemma vli_clear_eq: "vli_clear n = digits n 0"
  using digits_val [of "replicate n 0"] by (simp add: vli_clear_def)

lemma vli_testBit_eq:
  assumes "b < 64 * length x"
  shows "vli_testBit x b \<noteq> 0 \<longleftrightarrow> odd (val x div 2 ^ b)"
proof -
  define i j where "i = b div 64" and "j = b mod 64"
  have b: "b = 64 * i + j" "j < 64" by (simp_all add: i_def j_def)
  have i: "i < length x" using assms by (simp add: i_def less_mult_imp_div_less mult.commute)
  have "(vli_testBit x b \<noteq> 0) = bit (x ! i) j"
    by (simp add: vli_testBit_def i_def [symmetric] j_def [symmetric] bit_iff_odd_drop_bit
        and_exp_eq_0_iff_not_bit push_bit_eq_mult)
  also have "\<dots> = odd (unat (x ! i) div 2 ^ j)"
    using bit_iff_odd [of "unat (x ! i)" j] by (simp add: bit_unsigned_iff)
  also have "\<dots> = odd (val (drop i x) div 2 ^ j)"
  proof -
    have "val (drop i x) = unat (x ! i) + 2 ^ j * (2 * (2 ^ (63 - j) * val (drop (Suc i) x)))"
      using i b(2) by (simp add: Cons_nth_drop_Suc [symmetric] mult.assoc [symmetric] power_add [symmetric] power_Suc [symmetric] del: power_Suc)
    then show ?thesis by simp
  qed
  also have "val (drop i x) = val x div base i"
    using val_take_drop [of i x] val_take_less [of i x] i by simp
  also have "val x div base i div 2 ^ j = val x div 2 ^ b" by (simp add: b(1) power_add div_mult2_eq)
  finally show ?thesis .
qed

lemma numDigits_loop_spec:
  "i \<le> length x \<Longrightarrow> numDigits_loop x i \<le> i \<and> (\<forall>j. numDigits_loop x i \<le> j \<and> j < i \<longrightarrow> x ! j = 0) \<and>
     (numDigits_loop x i \<noteq> 0 \<longrightarrow> x ! (numDigits_loop x i - 1) \<noteq> 0)"
  by (induction i) (auto simp: less_Suc_eq)

lemma digit_bits_bounds: "d \<noteq> 0 \<Longrightarrow> digit_bits d \<noteq> 0 \<and> 2 ^ (digit_bits d - 1) \<le> unat d \<and> unat d < 2 ^ digit_bits d"
proof (induction d rule: digit_bits.induct)
  case (1 d)
  have h: "unat (drop_bit 1 d) = unat d div 2" unfolding unat_drop_bit_eq by (simp add: drop_bit_eq_div)
  show ?case
  proof (cases "drop_bit 1 d = 0")
    case True
    then have "unat d div 2 = 0" using h by simp
    moreover have "unat d > 0" using 1 by (simp add: unat_gt_0)
    ultimately have "unat d = 1" by linarith
    moreover have "digit_bits d = 1" using 1(2) True by simp
    ultimately show ?thesis by simp
  next
    case False
    have s: "digit_bits d = Suc (digit_bits (drop_bit 1 d))" using 1(2) by simp
    define k where "k = digit_bits (drop_bit 1 d)"
    from 1(1) [OF 1(2) False] have IH: "k \<noteq> 0" "2 ^ (k - 1) \<le> unat d div 2" "unat d div 2 < 2 ^ k" unfolding h k_def by simp_all
    from IH(1) obtain k' where k': "k = Suc k'" by (cases k) simp_all
    then have "2 ^ k \<le> unat d" "unat d < 2 ^ Suc k" using IH(2,3) by simp_all
    then show ?thesis unfolding s k_def [symmetric] by simp
  qed
qed

declare digit_bits.simps [simp del]

lemma vli_numBits_bounds:
  "val x < 2 ^ vli_numBits x" "val x \<noteq> 0 \<Longrightarrow> vli_numBits x \<noteq> 0 \<and> 2 ^ (vli_numBits x - 1) \<le> val x"
  "val x = 0 \<Longrightarrow> vli_numBits x = 0"
proof -
  define m where "m = vli_numDigits x"
  have m: "m \<le> length x" "\<And>j. m \<le> j \<Longrightarrow> j < length x \<Longrightarrow> x ! j = 0" "m \<noteq> 0 \<Longrightarrow> x ! (m - 1) \<noteq> 0"
    using numDigits_loop_spec [of "length x" x] by (auto simp: m_def vli_numDigits_def)
  have "drop m x = replicate (length x - m) 0" using m(1,2) by (intro nth_equalityI) auto
  then have v: "val x = val (take m x)" using val_take_drop [of m x] m(1) by simp
  have "val x < 2 ^ vli_numBits x \<and> (if val x = 0 then vli_numBits x = 0
    else vli_numBits x \<noteq> 0 \<and> 2 ^ (vli_numBits x - 1) \<le> val x)"
  proof (cases m)
    case 0
    then show ?thesis using v by (simp add: vli_numBits_def m_def [symmetric])
  next
    case (Suc k)
    define d where "d = digit_bits (x ! k)"
    have d: "d \<noteq> 0" "2 ^ (d - 1) \<le> unat (x ! k)" "unat (x ! k) < 2 ^ d"
      using digit_bits_bounds [of "x ! k"] m(3) Suc by (simp_all add: d_def)
    have nb: "vli_numBits x = 64 * k + d" by (simp add: vli_numBits_def m_def [symmetric] Suc d_def)
    have vx: "val x = val (take k x) + base k * unat (x ! k)" using v val_take_Suc [of k x] m(1) Suc by simp
    have "val x < base k * (unat (x ! k) + 1)" unfolding vx using val_take_less [of k x] m(1) Suc by simp
    also have "\<dots> \<le> base k * 2 ^ d" using d(3) by (intro mult_le_mono2) simp
    finally have "val x < 2 ^ vli_numBits x" by (simp add: nb power_add)
    moreover have "base k * 2 ^ (d - 1) \<le> val x" unfolding vx using d(2) by (simp add: trans_le_add2)
    then have "2 ^ (vli_numBits x - 1) \<le> val x" using d(1) by (simp add: nb flip: power_add)
    moreover from this have "val x \<noteq> 0" by (metis le_zero_eq power_not_zero zero_neq_numeral)
    ultimately show ?thesis using d(1) by (simp add: nb)
  qed
  then show "val x < 2 ^ vli_numBits x" "val x \<noteq> 0 \<Longrightarrow> vli_numBits x \<noteq> 0 \<and> 2 ^ (vli_numBits x - 1) \<le> val x"
    "val x = 0 \<Longrightarrow> vli_numBits x = 0" by (simp_all split: if_splits)
qed

lemma vli_numBits_unique:
  assumes "2 ^ k \<le> val x" "val x < 2 ^ Suc k"
  shows "vli_numBits x = Suc k"
proof -
  have "val x \<noteq> 0" using assms(1) by (metis le_zero_eq power_not_zero zero_neq_numeral)
  from vli_numBits_bounds(2) [OF this] vli_numBits_bounds(1) [of x]
  have nb: "vli_numBits x \<noteq> 0" "2 ^ (vli_numBits x - 1) \<le> val x" "val x < 2 ^ vli_numBits x" by simp_all
  have "(2 :: nat) ^ k < 2 ^ vli_numBits x" "(2 :: nat) ^ (vli_numBits x - 1) < 2 ^ Suc k" using assms nb by linarith+
  then show ?thesis using nb(1) by (simp add: power_strict_increasing_iff del: power_Suc)
qed

lemma vli_numBits_eq_0: "vli_numBits x = 0 \<longleftrightarrow> val x = 0"
  using vli_numBits_bounds [of x] by blast

lemma vli_numBits_le: "val x < 2 ^ k \<Longrightarrow> vli_numBits x \<le> k"
proof (cases "val x = 0")
  case False
  assume "val x < 2 ^ k"
  with vli_numBits_bounds(2) [OF False] have "(2 :: nat) ^ (vli_numBits x - 1) < 2 ^ k" by linarith
  then show ?thesis by (simp add: power_strict_increasing_iff)
qed (metis vli_numBits_eq_0 le0)

section \<open>Multiplication and squaring\<close>

text \<open>The accumulator of three words, and loops that add terms to it.\<close>

definition acc :: "u128 \<times> u64 \<Rightarrow> nat" where
  "acc s = unat (fst s) + 2 ^ 128 * unat (snd s)"

lemma unat_u64_u128: "unat (ucast (a :: u64) :: u128) = unat a"
  using unat_bound [of a] by (simp add: unat_ucast)

lemma unat_product: "unat (ucast (a :: u64) * ucast (b :: u64) :: u128) = unat a * unat b"
proof -
  have "unat a * unat b \<le> 2 ^ 64 * (2 ^ 64 - 1)"
    using unat_bound [of a] unat_bound [of b] by (intro mult_mono) simp_all
  then show ?thesis by (subst unat_mult_less) (simp_all add: unat_u64_u128)
qed

lemma mult_add_acc:
  assumes "unat (snd s) + 1 < 2 ^ 64"
  shows "acc (mult_add p s) = acc s + unat p" "unat (snd (mult_add p s)) \<le> unat (snd s) + 1"
proof -
  obtain r01 r2 where s: "s = (r01, r2)" by (cases s)
  have r2: "unat (r2 + bool_u64 q) = unat r2 + (if q then 1 else 0)" for q
    by (subst unat_add_less) (use assms s in auto)
  have "unat (r01 + p) + 2 ^ 128 * (if r01 + p < p then 1 else 0) = unat r01 + unat p"
    using add_carry [of r01 p] by simp
  then show "acc (mult_add p s) = acc s + unat p"
    by (simp add: acc_def mult_add_def s Let_def r2 split: if_splits)
  show "unat (snd (mult_add p s)) \<le> unat (snd s) + 1" by (simp add: mult_add_def s Let_def r2)
qed

lemma fold_acc:
  assumes "\<And>i s. i \<in> set is \<Longrightarrow> unat (snd s) + c < 2 ^ 64 \<Longrightarrow>
      acc (f i s) = acc s + g i \<and> unat (snd (f i s)) \<le> unat (snd s) + c"
    and "unat (snd s) + c * length is < 2 ^ 64"
  shows "acc (fold f is s) = acc s + (\<Sum>i\<leftarrow>is. g i)"
  using assms
proof (induction "is" arbitrary: s)
  case (Cons i "is")
  have "unat (snd s) + c < 2 ^ 64" using Cons.prems(2) by simp
  with Cons.prems(1) [of i s] have 1: "acc (f i s) = acc s + g i" "unat (snd (f i s)) \<le> unat (snd s) + c" by simp_all
  have "unat (snd (f i s)) + c * length is < 2 ^ 64" using 1(2) Cons.prems(2) by simp
  with Cons.prems(1) have "acc (fold f is (f i s)) = acc (f i s) + (\<Sum>i\<leftarrow>is. g i)" by (intro Cons.IH) simp_all
  with 1(1) show ?case by simp
qed simp

definition conv :: "vli \<Rightarrow> vli \<Rightarrow> nat \<Rightarrow> nat" where
  "conv x y k = (\<Sum>i = l_min (length x) k..<min (k + 1) (length x). unat (x ! i) * unat (y ! (k - i)))"

lemma mult_column_acc:
  assumes "2 * length x < 2 ^ 64"
  shows "acc (mult_column x y k (r01, 0)) = unat r01 + conv x y k"
proof -
  have l: "length [l_min (length x) k..<min (k + 1) (length x)] \<le> length x" by simp
  have "acc (mult_column x y k (r01, 0)) = acc (r01, 0) + (\<Sum>i\<leftarrow>[l_min (length x) k..<min (k + 1) (length x)]. unat (x ! i) * unat (y ! (k - i)))"
    unfolding mult_column_def
  proof (rule fold_acc [where c = 1])
    show "unat (snd (r01, 0 :: u64)) + 1 * length [l_min (length x) k..<min (k + 1) (length x)] < 2 ^ 64" using l assms by simp
  qed (use mult_add_acc in \<open>simp add: unat_product\<close>)
  then show ?thesis by (simp add: conv_def acc_def interv_sum_list_conv_sum_set_nat)
qed

lemma column_shift:
  assumes "column k (r01, 0) = (a, b)"
  shows "column_step column k (p, r01) = (p @ [ucast a], drop_bit 64 a OR push_bit 64 (ucast b))"
    "unat (ucast a :: u64) + 2 ^ 64 * unat (drop_bit 64 a OR push_bit 64 (ucast b)) = acc (column k (r01, 0))"
proof -
  show "column_step column k (p, r01) = (p @ [ucast a], drop_bit 64 a OR push_bit 64 (ucast b))"
    by (simp add: column_step_def assms)
  have d: "unat (drop_bit 64 a) = unat a div 2 ^ 64" unfolding unat_drop_bit_eq by (rule drop_bit_eq_div)
  have "unat (drop_bit 64 a) < 2 ^ 64" unfolding d using unat_bound [of a] by (intro less_mult_imp_div_less) simp
  from unat_push_or [OF this, of "ucast b"]
  have "unat (drop_bit 64 a OR push_bit 64 (ucast b)) = unat b * 2 ^ 64 mod 2 ^ 128 + unat a div 2 ^ 64"
    by (simp add: or.commute d unat_u64_u128)
  also have "unat b * 2 ^ 64 mod 2 ^ 128 = unat b * 2 ^ 64" using unat_bound [of b] by (intro mod_less) simp
  finally have "unat (drop_bit 64 a OR push_bit 64 (ucast b)) = unat b * 2 ^ 64 + unat a div 2 ^ 64" .
  moreover have "unat (ucast a :: u64) + 2 ^ 64 * (unat a div 2 ^ 64) = unat a"
    using mod_mult_div_eq [of "unat a" "2 ^ 64"] by (simp add: unat_ucast)
  ultimately show "unat (ucast a :: u64) + 2 ^ 64 * unat (drop_bit 64 a OR push_bit 64 (ucast b)) = acc (column k (r01, 0))"
    unfolding assms acc_def fst_conv snd_conv by (simp add: distrib_left)
qed

lemma columns_val:
  assumes col: "\<And>k r01. acc (column k (r01, 0)) = unat r01 + g k"
    and "0 < n" and T: "(\<Sum>j<n * 2 - 1. base j * g j) < base (n * 2)"
  shows "columns column n = digits (n * 2) (\<Sum>j<n * 2 - 1. base j * g j)"
proof -
  have inv: "length (fst (fold (column_step column) [0..<m] ([], 0))) = m \<and>
      val (fst (fold (column_step column) [0..<m] ([], 0))) + base m * unat (snd (fold (column_step column) [0..<m] ([], 0)))
        = (\<Sum>j<m. base j * g j)" for m
  proof (induction m)
    case (Suc m)
    obtain p r01 where pr: "fold (column_step column) [0..<m] ([], 0) = (p, r01)" by force
    obtain a b where ab: "column m (r01, 0) = (a, b)" by force
    note c = column_shift [of column m r01 a b, OF ab]
    have IH: "length p = m" "val p + base m * unat r01 = (\<Sum>j<m. base j * g j)" using Suc pr by simp_all
    have "base m * (unat (ucast a :: u64) + 2 ^ 64 * unat (drop_bit 64 a OR push_bit 64 (ucast b))) = base m * (unat r01 + g m)"
      unfolding c(2) col ..
    then have "val p + base m * unat (ucast a :: u64) + base (Suc m) * unat (drop_bit 64 a OR push_bit 64 (ucast b))
        = (\<Sum>j<m. base j * g j) + base m * g m"
      using IH(2) by (simp add: distrib_left power_add mult.assoc mult.left_commute)
    then show ?case using IH(1) by (simp add: pr c(1) val_append del: mult_Suc_right)
  qed simp
  define m where "m = n * 2 - 1"
  obtain p r01 where pr: "fold (column_step column) [0..<m] ([], 0) = (p, r01)" by force
  from inv [of m] have i: "length p = m" "val p + base m * unat r01 = (\<Sum>j<m. base j * g j)" by (simp_all add: pr)
  have n2: "n * 2 = Suc m" using assms(2) by (simp add: m_def)
  have "base m * unat r01 \<le> (\<Sum>j<m. base j * g j)" using i(2) by linarith
  also have "\<dots> < 2 ^ 64 * base m" using T unfolding m_def [symmetric] n2 base_Suc diff_Suc_1 .
  finally have "unat r01 < 2 ^ 64" by (simp only: mult.commute [of "base m"] mult_less_cancel2)
  then have r01: "unat (ucast r01 :: u64) = unat r01" by (simp add: unat_ucast)
  have "columns column n = p @ [ucast r01]" unfolding columns_def m_def [symmetric] pr by simp
  moreover have "p @ [ucast r01] = digits (Suc m) (\<Sum>j<m. base j * g j)"
    using i T unfolding n2 diff_Suc_1 by (intro vli_eqI) (simp_all add: val_append r01)
  ultimately show ?thesis unfolding n2 diff_Suc_1 by simp
qed

lemma sum_conv:
  assumes "length x = n" "length y = n" "0 < n"
  shows "(\<Sum>j<n * 2 - 1. base j * conv x y j) = val x * val y"
proof -
  have "val x * val y = (\<Sum>(i, j)\<in>{..<n} \<times> {..<n}. 2 ^ (64 * i) * unat (x ! i) * (2 ^ (64 * j) * unat (y ! j)))"
    using assms by (simp add: val_nth sum_product sum.cartesian_product)
  also have "\<dots> = (\<Sum>(k, i)\<in>(SIGMA k : {..<n * 2 - 1}. {l_min n k..<min (k + 1) n}). base k * (unat (x ! i) * unat (y ! (k - i))))"
    by (rule sum.reindex_bij_witness [where i = "\<lambda>(k, i). (i, k - i)" and j = "\<lambda>(i, j). (i + j, i)"])
      (auto simp: l_min_def power_add algebra_simps split: if_splits)
  also have "\<dots> = (\<Sum>k<n * 2 - 1. \<Sum>i = l_min n k..<min (k + 1) n. base k * (unat (x ! i) * unat (y ! (k - i))))"
    by (subst sum.Sigma) simp_all
  finally show ?thesis by (simp add: conv_def assms sum_distrib_left)
qed

lemma val_mult_less: "length x = n \<Longrightarrow> length y = n \<Longrightarrow> val x * val y < base (n * 2)"
  using mult_strict_mono [OF val_less [of x] val_less [of y]] by (simp flip: power_add)

lemma vli_mult_eq:
  assumes "length x = n" "length y = n" "0 < n" "2 * n < 2 ^ 64"
  shows "vli_mult x y = digits (n * 2) (val x * val y)"
  using columns_val [of "mult_column x y" "conv x y" n] mult_column_acc [of x y] sum_conv [OF assms(1-3)] val_mult_less [OF assms(1,2)] assms
  by (simp add: vli_mult_def)

lemma square_term_acc:
  fixes a b :: u64
  assumes "unat (snd s) + 2 < 2 ^ 64"
  defines "p \<equiv> ucast a * ucast b :: u128"
  shows "acc (mult_add (p * 2) (fst s, snd s + ucast (drop_bit 127 p))) = acc s + 2 * (unat a * unat b)"
    "unat (snd (mult_add (p * 2) (fst s, snd s + ucast (drop_bit 127 p)))) \<le> unat (snd s) + 2"
proof -
  have b: "unat p < 2 ^ 128" using unat_bound [of p] by simp
  have d: "unat (drop_bit 127 p) = unat p div 2 ^ 127" unfolding unat_drop_bit_eq by (rule drop_bit_eq_div)
  have d1: "unat p div 2 ^ 127 \<le> 1" using b by (simp add: less_mult_imp_div_less less_Suc_eq_le [symmetric] del: One_nat_def)
  have c: "unat (ucast (drop_bit 127 p) :: u64) = unat p div 2 ^ 127" using d d1 by (simp add: unat_ucast)
  have r2: "unat (snd s + ucast (drop_bit 127 p)) = unat (snd s) + unat p div 2 ^ 127"
    using assms(1) d1 by (subst unat_add_less) (simp_all add: c)
  have p2: "unat (p * 2) + 2 ^ 128 * (unat p div 2 ^ 127) = 2 * unat p"
  proof (cases "unat p < 2 ^ 127")
    case True
    then show ?thesis by (simp add: unat_word_ariths)
  next
    case False
    then have "unat p div 2 ^ 127 = 1" using b by (intro div_nat_eqI) simp_all
    moreover have "unat (p * 2) = unat p * 2 - 2 ^ 128" using False b
      by (subst unat_word_ariths, subst mod_once) simp_all
    ultimately show ?thesis using False by simp
  qed
  have "unat (snd s + ucast (drop_bit 127 p)) + 1 < 2 ^ 64" unfolding r2 using assms(1) d1 by linarith
  note m = mult_add_acc [of "(fst s, snd s + ucast (drop_bit 127 p))" "p * 2", unfolded fst_conv snd_conv, OF this]
  have "acc (fst s, snd s + ucast (drop_bit 127 p)) = acc s + 2 ^ 128 * (unat p div 2 ^ 127)"
    unfolding acc_def fst_conv snd_conv r2 by (simp add: distrib_left)
  with m(1) have "acc (mult_add (p * 2) (fst s, snd s + ucast (drop_bit 127 p))) =
      acc s + (unat (p * 2) + 2 ^ 128 * (unat p div 2 ^ 127))" by linarith
  then show "acc (mult_add (p * 2) (fst s, snd s + ucast (drop_bit 127 p))) = acc s + 2 * (unat a * unat b)"
    unfolding p2 by (simp add: p_def unat_product)
  show "unat (snd (mult_add (p * 2) (fst s, snd s + ucast (drop_bit 127 p)))) \<le> unat (snd s) + 2"
    using m(2) d1 unfolding r2 by linarith
qed

lemma sum_symmetric:
  fixes h :: "nat \<Rightarrow> nat"
  assumes h: "\<And>i. i \<le> k \<Longrightarrow> h (k - i) = h i"
  shows "(\<Sum>i = l_min n k..<k div 2 + 1. (if i < k - i then 2 * h i else h i)) = (\<Sum>i = l_min n k..<min (k + 1) n. h i)"
proof (cases "l_min n k \<le> k div 2")
  case False
  then have "{l_min n k..<min (k + 1) n} = {}" by (auto simp: l_min_def split: if_splits)
  moreover have "{l_min n k..<k div 2 + 1} = {}" using False by simp
  ultimately show ?thesis by (simp only: sum.empty)
next
  case True
  define A where "A = {i. l_min n k \<le> i \<and> i < k - i}"
  define M where "M = {i. l_min n k \<le> i \<and> i + i = k}"
  define B where "B = {i. i \<le> k \<and> i < n \<and> k - i < i}"
  have dis: "A \<inter> M = {}" "(A \<union> M) \<inter> B = {}" by (auto simp: A_def M_def B_def)
  have fin: "finite A" "finite M" "finite B" unfolding A_def M_def B_def by (auto intro: finite_subset [of _ "{..k}"])
  have "{l_min n k..<k div 2 + 1} = A \<union> M" by (auto simp: A_def M_def)
  then have "(\<Sum>i = l_min n k..<k div 2 + 1. (if i < k - i then 2 * h i else h i)) =
      (\<Sum>i\<in>A. (if i < k - i then 2 * h i else h i)) + (\<Sum>i\<in>M. (if i < k - i then 2 * h i else h i))"
    using fin dis by (simp only: sum.union_disjoint)
  moreover have "(\<Sum>i\<in>A. (if i < k - i then 2 * h i else h i)) = (\<Sum>i\<in>A. 2 * h i)"
    "(\<Sum>i\<in>M. (if i < k - i then 2 * h i else h i)) = (\<Sum>i\<in>M. h i)"
    by (auto simp: A_def M_def intro!: sum.cong)
  moreover have "{l_min n k..<min (k + 1) n} = (A \<union> M) \<union> B" using True
    by (auto simp: A_def M_def B_def l_min_def split: if_splits)
  then have "(\<Sum>i = l_min n k..<min (k + 1) n. h i) = ((\<Sum>i\<in>A. h i) + (\<Sum>i\<in>M. h i)) + (\<Sum>i\<in>B. h i)"
    using fin dis by (simp only: sum.union_disjoint finite_Un simp_thms)
  moreover have "(\<Sum>i\<in>B. h i) = (\<Sum>i\<in>A. h i)"
    using h by (intro sum.reindex_bij_witness [where i = "\<lambda>i. k - i" and j = "\<lambda>i. k - i"])
      (auto simp: A_def B_def l_min_def split: if_splits)
  ultimately show ?thesis by (simp add: sum_distrib_left [symmetric])
qed

lemma square_column_acc:
  assumes "2 * length x < 2 ^ 64"
  shows "acc (square_column x k (r01, 0)) = unat r01 + conv x x k"
proof -
  let ?is = "[l_min (length x) k..<k div 2 + 1]"
  have "length ?is \<le> length x" by (auto simp: l_min_def)
  then have l: "unat (snd (r01, 0 :: u64)) + 2 * length ?is < 2 ^ 64" using assms by simp
  have "acc (square_column x k (r01, 0)) = acc (r01, 0) +
      (\<Sum>i\<leftarrow>?is. (if i < k - i then 2 * (unat (x ! i) * unat (x ! (k - i))) else unat (x ! i) * unat (x ! (k - i))))"
    unfolding square_column_def
  proof (rule fold_acc [where c = 2, OF _ l])
    fix i and s :: "u128 \<times> u64"
    assume s: "unat (snd s) + 2 < 2 ^ 64"
    obtain r r2 where rs: "s = (r, r2)" by (cases s)
    show "acc ((\<lambda>(r01, r2). let l_product = ucast (x ! i) * ucast (x ! (k - i)) in
         if i < k - i then mult_add (l_product * 2) (r01, r2 + ucast (drop_bit 127 l_product))
         else mult_add l_product (r01, r2)) s) = acc s + (if i < k - i then 2 * (unat (x ! i) * unat (x ! (k - i))) else unat (x ! i) * unat (x ! (k - i))) \<and>
      unat (snd ((\<lambda>(r01, r2). let l_product = ucast (x ! i) * ucast (x ! (k - i)) in
         if i < k - i then mult_add (l_product * 2) (r01, r2 + ucast (drop_bit 127 l_product))
         else mult_add l_product (r01, r2)) s)) \<le> unat (snd s) + 2"
      using square_term_acc [OF s, of "x ! i" "x ! (k - i)"] mult_add_acc [of s "ucast (x ! i) * ucast (x ! (k - i))"] s
      by (simp add: rs Let_def unat_product)
  qed
  also have "\<dots> = unat r01 + conv x x k"
    using sum_symmetric [of k "\<lambda>i. unat (x ! i) * unat (x ! (k - i))" "length x"]
    by (simp add: conv_def acc_def interv_sum_list_conv_sum_set_nat mult.commute del: upt_Suc)
  finally show ?thesis .
qed

lemma vli_square_eq:
  assumes "length x = n" "0 < n" "2 * n < 2 ^ 64"
  shows "vli_square x = digits (n * 2) (val x * val x)"
  using columns_val [of "square_column x" "conv x x" n] square_column_acc [of x] sum_conv [OF assms(1,1,2)] val_mult_less [OF assms(1,1)] assms
  by (simp add: vli_square_def)

section \<open>Words as pairs of halves\<close>

definition val128 :: "uint128_t \<Rightarrow> nat" where
  "val128 x = unat (m_low x) + 2 ^ 64 * unat (m_high x)"

lemma unat_push: "unat (push_bit s a :: 'a::len word) = unat a * 2 ^ s mod 2 ^ LENGTH('a)"
  by (metis unsigned_push_bit_eq take_bit_eq_mod push_bit_eq_mult)

lemma unat_take: "unat (take_bit s a :: 'a::len word) = unat a mod 2 ^ s"
  by (metis unsigned_take_bit_eq take_bit_eq_mod)

lemma unat_drop: "unat (drop_bit s a :: 'a::len word) = unat a div 2 ^ s"
  by (metis unsigned_drop_bit_eq drop_bit_eq_div unat_drop_bit_eq)

lemma unat_halves:
  fixes a :: u64
  shows "unat (a AND 0xffffffff) = unat a mod 2 ^ 32" "unat (drop_bit 32 a) = unat a div 2 ^ 32"
    "unat (push_bit 32 a) = unat a mod 2 ^ 32 * 2 ^ 32"
proof -
  have "a AND 0xffffffff = take_bit 32 a" by (simp add: take_bit_eq_mask mask_eq_exp_minus_1)
  then show "unat (a AND 0xffffffff) = unat a mod 2 ^ 32" by (simp only: unat_take)
  show "unat (drop_bit 32 a) = unat a div 2 ^ 32" by (rule unat_drop)
  show "unat (push_bit 32 a) = unat a mod 2 ^ 32 * 2 ^ 32" using mult_mod_left [of "unat a" "2 ^ 32" "2 ^ 32"] by (simp add: unat_push)
qed

lemma half_bounds: "unat (a :: u64) mod 2 ^ 32 \<le> 2 ^ 32 - 1" "unat (a :: u64) div 2 ^ 32 \<le> 2 ^ 32 - 1"
proof -
  have "unat a div 2 ^ 32 < 2 ^ 32" using unat_bound [of a] by (intro less_mult_imp_div_less) simp
  then show "unat a div 2 ^ 32 \<le> 2 ^ 32 - 1" by linarith
qed simp

lemma mult_half_bound: "x \<le> 2 ^ 32 - 1 \<Longrightarrow> y \<le> 2 ^ 32 - 1 \<Longrightarrow> x * y \<le> (2 ^ 32 - 1) * (2 ^ 32 - 1 :: nat)"
  by (rule mult_mono) simp_all

lemma mul_64_64_exact: "val128 (mul_64_64 a b) = unat a * unat b"
proof -
  define a0 a1 b0 b1 where "a0 = unat a mod 2 ^ 32" and "a1 = unat a div 2 ^ 32"
    and "b0 = unat b mod 2 ^ 32" and "b1 = unat b div 2 ^ 32"
  have hb: "a0 \<le> 2 ^ 32 - 1" "a1 \<le> 2 ^ 32 - 1" "b0 \<le> 2 ^ 32 - 1" "b1 \<le> 2 ^ 32 - 1"
    using half_bounds [of a] half_bounds [of b] by (simp_all add: a0_def a1_def b0_def b1_def)
  have ab: "unat a = a0 + 2 ^ 32 * a1" "unat b = b0 + 2 ^ 32 * b1"
    unfolding a0_def a1_def b0_def b1_def by simp_all
  note mb = mult_half_bound [OF hb(1) hb(3)] mult_half_bound [OF hb(1) hb(4)] mult_half_bound [OF hb(2) hb(3)] mult_half_bound [OF hb(2) hb(4)]
  let ?m0 = "(a AND 0xffffffff) * (b AND 0xffffffff)" and ?m1 = "(a AND 0xffffffff) * drop_bit 32 b"
    and ?m2 = "drop_bit 32 a * (b AND 0xffffffff)" and ?m3 = "drop_bit 32 a * drop_bit 32 b"
  have u: "unat ?m0 = a0 * b0" "unat ?m1 = a0 * b1" "unat ?m2 = a1 * b0" "unat ?m3 = a1 * b1"
    using mb by (subst unat_mult_less; simp only: unat_halves a0_def a1_def b0_def b1_def; simp)+
  define m2 where "m2 = ?m2 + drop_bit 32 ?m0"
  define s where "s = m2 + ?m1"
  define c :: nat where "c = (if s < ?m1 then 1 else 0)"
  have q: "a0 * b0 div 2 ^ 32 \<le> 2 ^ 32 - 1" "a0 * b0 = a0 * b0 mod 2 ^ 32 + 2 ^ 32 * (a0 * b0 div 2 ^ 32)"
    using half_bounds(2) [of ?m0] u(1) by simp_all
  have m2: "unat m2 = a1 * b0 + a0 * b0 div 2 ^ 32"
    unfolding m2_def using mb q(1) by (subst unat_add_less) (simp_all add: u unat_drop)
  have s: "unat s + 2 ^ 64 * c = unat m2 + a0 * b1"
    using add_carry [of m2 ?m1] by (simp add: s_def c_def u)
  have "unat (?m3 + 0x100000000) = a1 * b1 + 2 ^ 32" using mb(4) by (subst unat_add_less) (simp_all add: u)
  then have "unat (if s < ?m1 then ?m3 + 0x100000000 else ?m3) = a1 * b1 + 2 ^ 32 * c" by (simp add: c_def u)
  moreover have "a1 * b1 + 2 ^ 32 * c + unat s div 2 ^ 32 < 2 ^ 64"
  proof -
    have "2 ^ 32 * (2 ^ 32 * c + unat s div 2 ^ 32) \<le> unat m2 + a0 * b1"
      unfolding s [symmetric] using mod_mult_div_eq [of "unat s" "2 ^ 32"] by (simp add: distrib_left)
    then show ?thesis using mb q(1) unfolding m2 by simp
  qed
  ultimately have hi: "unat ((if s < ?m1 then ?m3 + 0x100000000 else ?m3) + drop_bit 32 s) = a1 * b1 + 2 ^ 32 * c + unat s div 2 ^ 32"
    by (subst unat_add_less) (simp_all add: unat_drop)
  have "unat (?m0 AND 0xffffffff) < 2 ^ 32" by (simp add: unat_halves)
  from unat_push_or [OF this, of s] have lo: "unat ((?m0 AND 0xffffffff) OR push_bit 32 s) = unat s mod 2 ^ 32 * 2 ^ 32 + a0 * b0 mod 2 ^ 32"
    using mult_mod_left [of "unat s" "2 ^ 32" "2 ^ 32"] by (simp add: or.commute unat_halves u)
  have split: "(m * 2 ^ 32 + x) + 2 ^ 64 * (h + 2 ^ 32 * c + q) = x + 2 ^ 32 * (m + 2 ^ 32 * q + 2 ^ 64 * c) + 2 ^ 64 * h"
    and join: "x + 2 ^ 32 * (m + q + c) + h = x + 2 ^ 32 * q + 2 ^ 32 * (m + c) + h" for m x h c q :: nat
    by (simp_all add: distrib_left)
  have "val128 (mul_64_64 a b) = (unat s mod 2 ^ 32 * 2 ^ 32 + a0 * b0 mod 2 ^ 32) + 2 ^ 64 * (a1 * b1 + 2 ^ 32 * c + unat s div 2 ^ 32)"
    unfolding hi [symmetric] lo [symmetric] by (simp add: val128_def mul_64_64_def Let_def s_def m2_def)
  also have "\<dots> = a0 * b0 mod 2 ^ 32 + 2 ^ 32 * (unat s mod 2 ^ 32 + 2 ^ 32 * (unat s div 2 ^ 32) + 2 ^ 64 * c) + 2 ^ 64 * (a1 * b1)"
    by (rule split)
  also have "\<dots> = (a0 * b0 mod 2 ^ 32 + 2 ^ 32 * (a0 * b0 div 2 ^ 32)) + 2 ^ 32 * (a1 * b0 + a0 * b1) + 2 ^ 64 * (a1 * b1)"
    unfolding mod_mult_div_eq [of "unat s"] s m2 by (rule join)
  also have "\<dots> = unat a * unat b" unfolding mod_mult_div_eq ab by (simp add: algebra_simps)
  finally show ?thesis .
qed

lemma add_carry_left: "unat (x + y) + 2 ^ 64 * (if x + y < x then 1 else 0) = unat x + unat y" for x y :: u64
  unfolding add.commute [of x y] add.commute [of "unat x"] using add_carry [of y x] by simp

lemma unat_add_bool: "unat (x + y + bool_u64 q) = (unat x + unat y + (if q then 1 else 0)) mod 2 ^ 64"
  by (cases q) (simp_all add: bool_u64_def unat_word_ariths mod_simps)

lemma mod_two_words:
  assumes "l < 2 ^ 64"
  shows "(l + 2 ^ 64 * h) mod 2 ^ 128 = l + 2 ^ 64 * (h mod 2 ^ 64 :: nat)"
proof -
  have "(l + 2 ^ 64 * h) mod (2 ^ 64 * 2 ^ 64) = 2 ^ 64 * ((l + 2 ^ 64 * h) div 2 ^ 64 mod 2 ^ 64) + (l + 2 ^ 64 * h) mod 2 ^ 64"
    by (rule mod_mult2_eq)
  moreover have "(l + 2 ^ 64 * h) div 2 ^ 64 = h" "(l + 2 ^ 64 * h) mod 2 ^ 64 = l" using assms by simp_all
  moreover have "(2 :: nat) ^ 64 * 2 ^ 64 = 2 ^ 128" by simp
  ultimately show ?thesis by (metis add.commute)
qed

lemma add_128_128_exact: "val128 (add_128_128 a b) = (val128 a + val128 b) mod 2 ^ 128"
proof -
  define L where "L = m_low a + m_low b"
  define c :: nat where "c = (if L < m_low a then 1 else 0)"
  define H where "H = unat (m_high a) + unat (m_high b) + c"
  have lo: "unat L + 2 ^ 64 * c = unat (m_low a) + unat (m_low b)" unfolding L_def c_def by (rule add_carry_left)
  have hi: "unat (m_high a + m_high b + bool_u64 (L < m_low a)) = H mod 2 ^ 64" unfolding H_def c_def by (rule unat_add_bool)
  have rearr: "x + p * h + (y + p * k) = x + y + p * (h + k)" "x + p * c + p * (h + k) = x + p * (h + k + c)" for x y p h k c :: nat
    by (simp_all add: distrib_left)
  have "val128 a + val128 b = unat L + 2 ^ 64 * H"
    unfolding val128_def H_def by (rule trans [OF rearr(1)]) (simp only: lo [symmetric] rearr(2))
  moreover have "unat L < 2 ^ 64" using unat_bound [of L] by simp
  ultimately have "(val128 a + val128 b) mod 2 ^ 128 = unat L + 2 ^ 64 * (H mod 2 ^ 64)" by (simp only: mod_two_words)
  moreover have "val128 (add_128_128 a b) = unat L + 2 ^ 64 * (H mod 2 ^ 64)"
    unfolding hi [symmetric] by (simp only: val128_def add_128_128_def Let_def L_def uint128_t.select_convs)
  ultimately show ?thesis by simp
qed

lemma carry_detect:
  fixes a b c :: nat
  assumes "a < W" "b < W" "c \<le> 1"
  shows "(a + b + c) mod W + W * (if (a + b + c) mod W < b then 1 else 0) + W * (if a + c = W then 1 else 0) = a + b + c"
proof (cases "a + b + c < W")
  case True
  then show ?thesis by simp
next
  case False
  then have "(a + b + c) mod W = a + b + c - W" using assms by (subst le_mod_geq) simp_all
  then show ?thesis using False assms by auto
qed

lemma two_carries:
  fixes W :: nat
  assumes "l + W * c = a + b" "h + W * x + W * y = p + q + c"
  shows "(l + W * h) + W * W * (r + x) + W * W * y = (a + W * p) + W * W * r + (b + W * q)"
proof -
  have "W * h + W * (W * x) + W * (W * y) = W * p + W * q + W * c"
    using arg_cong [OF assms(2), of "(*) W"] by (simp add: distrib_left)
  then show ?thesis using assms(1) by (simp add: algebra_simps)
qed

section \<open>Properties\<close>

text \<open>
  C23. Addition and subtraction on arrays of equal length are exact, the carry and the borrow
  included, and subtracting a summand from the sum gives the other summand back, with a borrow exactly
  when the addition carried.
\<close>

theorem vli_add_sub_exact:
  assumes "length x = n" "length y = n" "vli_add x y = (r, c)"
  shows "length r = n \<and> val r + 2 ^ (64 * n) * unat c = val x + val y \<and> unat c \<le> 1 \<and> vli_sub r y = (x, c)"
proof -
  obtain x': "length x = n" "length y = n" "add_loop x y 0 = (r, c)" using assms by (simp add: vli_add_def)
  from add_loop_val [OF _ _ x'(3)] x'(1,2)
  have a: "length r = n" "val r + base n * unat c = val x + val y" "unat c \<le> 1" by simp_all
  have b: "val x < base n" "val y < base n" "val r < base n" using val_less [of x] val_less [of y] val_less [of r] assms a by simp_all
  have "(base n + val r - val y) mod base n = val x \<and> (val r < val y \<longleftrightarrow> unat c = 1)"
  proof (cases "unat c = 0")
    case True
    then have "base n + val r - val y = val x + base n" using a(2) by simp
    then show ?thesis using b True a(2) by simp
  next
    case False
    then have "unat c = 1" using a(3) by linarith
    then have "base n + val r - val y = val x" using a(2) by simp
    then show ?thesis using b \<open>unat c = 1\<close> a(2) by simp
  qed
  moreover have "c = bool_u64 (unat c = 1)" using a(3) by (auto simp: bool_u64_def word_unat_eq_iff)
  ultimately have "vli_sub r y = (x, c)"
    using vli_sub_eq [OF a(1) assms(2)] vli_eqI [OF assms(1), of "base n + val r - val y"] by simp
  then show ?thesis using a by simp
qed

theorem vli_add_sub_exact_witness:
  "vli_add [-1, 7] [3, 5] = ([2, 13], 0) \<and> vli_sub [2, 13] [3, 5] = ([-1, 7], 0)"
proof -
  have "vli_add [-1, 7] [3, 5] = ([2, 13], 0)" by (simp add: vli_add_def Let_def bool_u64_def)
  with vli_add_sub_exact [OF _ _ this, of 2] show ?thesis by simp
qed

text \<open>
  C24. The column-wise multiplication and squaring are exact on arrays of equal length: the result has twice
  as many digits and denotes the product, and the optimised squaring gives the same digits as
  multiplying the number by itself.
\<close>

theorem vli_mult_square_exact:
  assumes "length x = n" "length y = n" "0 < n" "n < 2 ^ 63"
  shows "length (vli_mult x y) = 2 * n \<and> val (vli_mult x y) = val x * val y \<and> vli_square x = vli_mult x x"
proof -
  have n: "2 * n < 2 ^ 64" using assms(4) by simp
  show ?thesis
    using vli_mult_eq [OF assms(1-3) n] vli_mult_eq [OF assms(1,1,3) n] vli_square_eq [OF assms(1,3) n] val_mult_less [OF assms(1,2)]
    by (simp add: val_digits_less mult.commute)
qed

theorem vli_mult_square_exact_witness:
  "val (vli_mult [-1, 2] [3, -1]) = val [-1, 2] * val [3, -1] \<and> vli_square [-1, 2] = vli_mult [-1, 2] [-1, 2]"
  using vli_mult_square_exact [of "[-1, 2]" 2 "[3, -1]"] by simp

text \<open>
  C17. Shifts, comparison, zero test, bit test and bit length agree with the numbers: shifting left by
  \<open>0 < s < 64\<close> multiplies by \<open>2 ^ s\<close> and returns what leaves the array, shifting right halves, the
  comparison gives the sign of the difference, and \<open>vli_numBits\<close> is the bit length.
\<close>

theorem vli_shift_compare_exact:
  assumes "length x = n" "length y = n" "0 < s" "s < 64" "b < 64 * n"
  shows "val (fst (vli_lshift x s)) + 2 ^ (64 * n) * unat (snd (vli_lshift x s)) = val x * 2 ^ s \<and>
    val (vli_rshift1 x) = val x div 2 \<and> vli_cmp x y = sgn (int (val x) - int (val y)) \<and>
    (vli_isZero x \<longleftrightarrow> val x = 0) \<and> (vli_testBit x b \<noteq> 0 \<longleftrightarrow> odd (val x div 2 ^ b)) \<and>
    val x < 2 ^ vli_numBits x \<and> (val x \<noteq> 0 \<longrightarrow> 2 ^ (vli_numBits x - 1) \<le> val x)"
proof -
  obtain r k where rk: "lshift_loop x s 0 = (r, k)" by force
  from lshift_loop_val [OF assms(3,4) _ rk] assms(1)
  have "val (fst (vli_lshift x s)) + 2 ^ (64 * n) * unat (snd (vli_lshift x s)) = val x * 2 ^ s" by (simp add: vli_lshift_def rk)
  moreover have "val (vli_rshift1 x) = val x div 2"
    using vli_rshift1_eq [OF assms(1)] val_less [of x] assms(1) by (simp add: val_digits)
  ultimately show ?thesis
    using vli_cmp_eq [OF assms(1,2)] vli_isZero_eq [of x] vli_testBit_eq [of b x] vli_numBits_bounds [of x] assms by simp
qed

theorem vli_shift_compare_exact_witness:
  "vli_cmp [5, 1] [7, 0] = 1 \<and> val (vli_rshift1 [5, 1]) = 2 ^ 63 + 2"
  using vli_shift_compare_exact [of "[5, 1]" 2 "[7, 0]" 1 0] by simp

text \<open>
  The helpers of the variant without 128-bit integers agree with 128-bit arithmetic: \<open>mul_64_64\<close> is the
  exact product of two words, and \<open>add_128_128\<close> is addition modulo \<open>2 ^ 128\<close>.
\<close>

theorem pair_arithmetic_exact:
  "val128 (mul_64_64 x y) = unat x * unat y \<and> val128 (add_128_128 a b) = (val128 a + val128 b) mod 2 ^ 128"
  using mul_64_64_exact [of x y] add_128_128_exact [of a b] by blast

text \<open>
  C25. The accumulation step of that variant detects a carry out of the accumulator by comparing
  the high words only. The new accumulator and carry word denote the exact sum, unless the high
  word of the accumulator was all ones and the low words carry: then, and only then, \<open>2 ^ 128\<close> is
  lost. The witness shows two operands below the modulus of secp256r1 whose product is wrong.
\<close>

theorem pair_add_carry:
  assumes "(r01', r2') = pair_add l_product (r01, r2)" "unat r2 < 2 ^ 64 - 1"
  shows "val128 r01' + 2 ^ 128 * unat r2' +
      (if m_high r01 = -1 \<and> 2 ^ 64 \<le> unat (m_low r01) + unat (m_low l_product) then 2 ^ 128 else 0) =
    val128 r01 + 2 ^ 128 * unat r2 + val128 l_product"
proof -
  let ?al = "unat (m_low r01)" and ?ah = "unat (m_high r01)" and ?bl = "unat (m_low l_product)" and ?bh = "unat (m_high l_product)"
  define L where "L = m_low r01 + m_low l_product"
  define c :: nat where "c = (if L < m_low r01 then 1 else 0)"
  have lt: "unat (w :: u64) < 2 ^ 64" for w using unat_lt64 [of w] by simp
  have low: "unat L + 2 ^ 64 * c = ?al + ?bl" unfolding L_def c_def by (rule add_carry_left)
  have r: "m_low r01' = L" "m_high r01' = m_high r01 + m_high l_product + bool_u64 (L < m_low r01)"
    "r2' = r2 + bool_u64 (m_high r01' < m_high l_product)"
    using assms(1) by (simp_all add: pair_add_def add_128_128_def Let_def L_def)
  have hi: "unat (m_high r01') = (?ah + ?bh + c) mod 2 ^ 64" unfolding r(2) c_def by (rule unat_add_bool)
  have r2: "unat r2' = unat r2 + (if unat (m_high r01') < ?bh then 1 else 0)"
    using assms(2) by (simp add: r(3) unat_word_ariths word_less_nat_alt)
  have "m_high r01 = -1 \<longleftrightarrow> ?ah + 1 = 2 ^ 64" by (auto simp: word_unat_eq_iff unsigned_minus_1_eq_mask mask_eq_exp_minus_1)
  moreover have "2 ^ 64 \<le> ?al + ?bl \<longleftrightarrow> c = 1" using low lt [of L] by (auto simp: c_def)
  ultimately have lost: "(m_high r01 = -1 \<and> 2 ^ 64 \<le> ?al + ?bl) \<longleftrightarrow> ?ah + c = 2 ^ 64"
    using lt [of "m_high r01"] by (auto simp: c_def)
  have "c \<le> 1" by (simp add: c_def)
  from carry_detect [OF lt [of "m_high r01"] lt [of "m_high l_product"] this]
  have "unat (m_high r01') + 2 ^ 64 * (if unat (m_high r01') < ?bh then 1 else 0) + 2 ^ 64 * (if ?ah + c = 2 ^ 64 then 1 else 0) =
      ?ah + ?bh + c" unfolding hi .
  from two_carries [OF low this, of "unat r2"] show ?thesis unfolding lost val128_def r2 r(1) by (auto split: if_splits)
qed

definition lost_left :: vli where
  "lost_left = [0xffffffffffffffff, 0xfffffffffffffffe, 0xffffffffffffffff, 0]"

definition lost_right :: vli where
  "lost_right = [0xffffffffffffffff, 0xfffffffffffffffc, 0xffffffffffffffff, 0]"

theorem pair_add_carry_witness:
  "(\<exists>a b. pair_add \<lparr>m_low = 1, m_high = 5\<rparr> (\<lparr>m_low = -1, m_high = -1\<rparr>, 0) = (a, b) \<and>
      val128 a + 2 ^ 128 * unat b + 2 ^ 128 = 2 ^ 128 + 2 ^ 64 * 5) \<and>
   val (pair_vli_mult lost_left lost_right) + 2 ^ (64 * 4) = val lost_left * val lost_right"
proof -
  have "pair_vli_mult lost_left lost_right =
     [0x1, 0x4, 0x3, 0xfffffffffffffffe, 0xfffffffffffffffa, 0xffffffffffffffff, 0, 0]" by code_simp
  then have "val (pair_vli_mult lost_left lost_right) + 2 ^ (64 * 4) = val lost_left * val lost_right"
    by (simp add: lost_left_def lost_right_def)
  moreover obtain a b where ab: "(a, b) = pair_add \<lparr>m_low = 1, m_high = 5\<rparr> (\<lparr>m_low = -1, m_high = -1\<rparr>, 0)"
    by (metis surj_pair)
  moreover from pair_add_carry [OF ab] have "val128 a + 2 ^ 128 * unat b + 2 ^ 128 = 2 ^ 128 + 2 ^ 64 * 5"
    by (simp add: val128_def unsigned_minus_1_eq_mask mask_eq_exp_minus_1)
  ultimately show ?thesis by metis
qed

end
