(* ===== verification/Mod_Reduce.thy ===== *)
theory Mod_Reduce
  imports Vli
begin

unbundle bit_operations_syntax

text \<open>
  Modular arithmetic of \<^verbatim>\<open>emod_manager/attest/ecc.c\<close>: addition and subtraction modulo a number, and the fast
  reductions modulo the primes of the four curves. The inverse and multiplication modulo an arbitrary number
  are in theory \<open>Mod_Arith\<close>.

  A \<^verbatim>\<open>while\<close> loop is \<open>while_option\<close>: \<open>None\<close> is a loop that does not end, so each theorem that gives
  a result as \<open>Some\<close> shows that the loops end. Carries that the source keeps in an \<^verbatim>\<open>int\<close> are
  integers; they stay below 16.
\<close>

section \<open>Curve parameters\<close>

fun curve_p :: "ecc_curve \<Rightarrow> vli" where
  "curve_p secp128r1 = [0xFFFFFFFFFFFFFFFF, 0xFFFFFFFDFFFFFFFF]"
| "curve_p secp192r1 = [0xFFFFFFFFFFFFFFFF, 0xFFFFFFFFFFFFFFFE, 0xFFFFFFFFFFFFFFFF]"
| "curve_p secp256r1 = [0xFFFFFFFFFFFFFFFF, 0x00000000FFFFFFFF, 0x0000000000000000, 0xFFFFFFFF00000001]"
| "curve_p secp384r1 = [0x00000000FFFFFFFF, 0xFFFFFFFF00000000, 0xFFFFFFFFFFFFFFFE, 0xFFFFFFFFFFFFFFFF,
     0xFFFFFFFFFFFFFFFF, 0xFFFFFFFFFFFFFFFF]"

fun curve_b :: "ecc_curve \<Rightarrow> vli" where
  "curve_b secp128r1 = [0xD824993C2CEE5ED3, 0xE87579C11079F43D]"
| "curve_b secp192r1 = [0xFEB8DEECC146B9B1, 0x0FA7E9AB72243049, 0x64210519E59C80E7]"
| "curve_b secp256r1 = [0x3BCE3C3E27D2604B, 0x651D06B0CC53B0F6, 0xB3EBBD55769886BC, 0x5AC635D8AA3A93E7]"
| "curve_b secp384r1 = [0x2A85C8EDD3EC2AEF, 0xC656398D8A2ED19D, 0x0314088F5013875A, 0x181D9C6EFE814112,
     0x988E056BE3F82D19, 0xB3312FA7E23EE7E4]"

fun curve_n :: "ecc_curve \<Rightarrow> vli" where
  "curve_n secp128r1 = [0x75A30D1B9038A115, 0xFFFFFFFE00000000]"
| "curve_n secp192r1 = [0x146BC9B1B4D22831, 0xFFFFFFFF99DEF836, 0xFFFFFFFFFFFFFFFF]"
| "curve_n secp256r1 = [0xF3B9CAC2FC632551, 0xBCE6FAADA7179E84, 0xFFFFFFFFFFFFFFFF, 0xFFFFFFFF00000000]"
| "curve_n secp384r1 = [0xECEC196ACCC52973, 0x581A0DB248B0A77A, 0xC7634D81F4372DDF, 0xFFFFFFFFFFFFFFFF,
     0xFFFFFFFFFFFFFFFF, 0xFFFFFFFFFFFFFFFF]"

section \<open>Operations\<close>

definition vli_modAdd :: "vli \<Rightarrow> vli \<Rightarrow> vli \<Rightarrow> vli" where
  "vli_modAdd p_left p_right p_mod =
     (let (p_result, l_carry) = vli_add p_left p_right in
      if l_carry \<noteq> 0 \<or> vli_cmp p_result p_mod \<ge> 0 then fst (vli_sub p_result p_mod) else p_result)"

definition vli_modSub :: "vli \<Rightarrow> vli \<Rightarrow> vli \<Rightarrow> vli" where
  "vli_modSub p_left p_right p_mod =
     (let (p_result, l_borrow) = vli_sub p_left p_right in
      if l_borrow \<noteq> 0 then fst (vli_add p_result p_mod) else p_result)"

text \<open>
  \<^verbatim>\<open>l_carry += vli_add(p_result, p_result, l_tmp)\<close> and \<^verbatim>\<open>l_carry -= vli_sub(p_result, p_result, l_tmp)\<close>.
\<close>

definition carry_add :: "vli \<Rightarrow> vli \<times> int \<Rightarrow> vli \<times> int" where
  "carry_add l_tmp = (\<lambda>(p_result, l_carry). let (r, c) = vli_add p_result l_tmp in (r, l_carry + uint c))"

definition carry_sub :: "vli \<Rightarrow> vli \<times> int \<Rightarrow> vli \<times> int" where
  "carry_sub l_tmp = (\<lambda>(p_result, l_carry). let (r, c) = vli_sub p_result l_tmp in (r, l_carry - uint c))"

definition reduce_down :: "vli \<Rightarrow> vli \<times> int \<Rightarrow> vli option" where
  "reduce_down p s = map_option fst
     (while_option (\<lambda>(p_result, l_carry). l_carry \<noteq> 0 \<or> vli_cmp p p_result \<noteq> 1) (carry_sub p) s)"

definition reduce_up :: "vli \<Rightarrow> vli \<times> int \<Rightarrow> vli option" where
  "reduce_up p s = map_option fst (while_option (\<lambda>(p_result, l_carry). l_carry < 0) (carry_add p) s)"

definition mmod_fast_128 :: "vli \<Rightarrow> vli option" where
  "mmod_fast_128 p_product =
     (let p2 = p_product ! 2; p3 = p_product ! 3;
          s = (take 2 p_product, 0);
          s = carry_add [p2, (p3 AND 0x1FFFFFFFF) OR push_bit 33 p2] s;
          s = carry_add [drop_bit 31 p2 OR push_bit 33 p3,
                drop_bit 31 p3 OR push_bit 2 (p2 AND 0xFFFFFFFF80000000)] s;
          s = carry_add [drop_bit 62 p2 OR push_bit 2 p3,
                drop_bit 62 p3 OR drop_bit 29 (p2 AND 0xC000000000000000) OR push_bit 35 p3] s;
          s = carry_add [drop_bit 29 p3, push_bit 4 (p3 AND 0xFFFFFFFFE0000000)] s;
          s = carry_add [drop_bit 60 p3, p3 AND 0xFFFFFFFE00000000] s;
          s = carry_add [0, drop_bit 27 (p3 AND 0xF000000000000000)] s
      in reduce_down (curve_p secp128r1) s)"

definition mmod_fast_192 :: "vli \<Rightarrow> vli option" where
  "mmod_fast_192 p_product =
     (let s = (take 3 p_product, 0);
          s = carry_add (take 3 (drop 3 p_product)) s;
          s = carry_add [0, p_product ! 3, p_product ! 4] s;
          s = carry_add [p_product ! 5, p_product ! 5, 0] s
      in reduce_down (curve_p secp192r1) s)"

definition mmod_sums_256 :: "vli \<Rightarrow> vli \<times> int" where
  "mmod_sums_256 p_product =
     (let p4 = p_product ! 4; p5 = p_product ! 5; p6 = p_product ! 6; p7 = p_product ! 7;
          p_result = take 4 p_product;
          \<comment> \<open>s1\<close>
          (l_tmp, c) = vli_lshift [0, p5 AND 0xffffffff00000000, p6, p7] 1;
          s = carry_add l_tmp (p_result, uint c);
          \<comment> \<open>s2\<close>
          (l_tmp, c) = vli_lshift [l_tmp ! 0, push_bit 32 p6, drop_bit 32 p6 OR push_bit 32 p7, drop_bit 32 p7] 1;
          s = carry_add l_tmp (fst s, snd s + uint c);
          \<comment> \<open>s3\<close>
          s = carry_add [p4, p5 AND 0xffffffff, 0, p7] s;
          \<comment> \<open>s4\<close>
          s = carry_add [drop_bit 32 p4 OR push_bit 32 p5, drop_bit 32 p5 OR (p6 AND 0xffffffff00000000), p7,
                drop_bit 32 p6 OR push_bit 32 p4] s;
          \<comment> \<open>d1\<close>
          s = carry_sub [drop_bit 32 p5 OR push_bit 32 p6, drop_bit 32 p6, 0, (p4 AND 0xffffffff) OR push_bit 32 p5] s;
          \<comment> \<open>d2\<close>
          s = carry_sub [p6, p7, 0, drop_bit 32 p4 OR (p5 AND 0xffffffff00000000)] s;
          \<comment> \<open>d3\<close>
          s = carry_sub [drop_bit 32 p6 OR push_bit 32 p7, drop_bit 32 p7 OR push_bit 32 p4,
                drop_bit 32 p4 OR push_bit 32 p5, push_bit 32 p6] s;
          \<comment> \<open>d4\<close>
          s = carry_sub [p7, p4 AND 0xffffffff00000000, p5, p6 AND 0xffffffff00000000] s
      in s)"

definition mmod_fast_256 :: "vli \<Rightarrow> vli option" where
  "mmod_fast_256 p_product =
     (let s = mmod_sums_256 p_product in
      if snd s < 0 then reduce_up (curve_p secp256r1) s else reduce_down (curve_p secp256r1) s)"

text \<open>
  The reduction for secp384r1. \<open>omega_mult\<close> fills an array of twelve digits that the caller has
  cleared; the parts of it that a call updates are written back with \<open>write_at\<close>.
\<close>

definition write_at :: "nat \<Rightarrow> vli \<Rightarrow> vli \<Rightarrow> vli" where
  "write_at k part x = take k x @ part @ drop (k + length part) x"

fun borrow_loop :: "nat \<Rightarrow> nat \<Rightarrow> vli \<Rightarrow> vli option" where
  "borrow_loop 0 i p_result = None"
| "borrow_loop (Suc m) i p_result =
     (let p_result = p_result[i := p_result ! i - 1] in
      if p_result ! i \<noteq> - 1 then Some p_result else borrow_loop m (i + 1) p_result)"

definition omega_mult :: "vli \<Rightarrow> vli \<Rightarrow> vli option" where
  "omega_mult p_result p_right =
     (let p_result = write_at 0 p_right p_result;
          (l_tmp, l_carry) = vli_lshift p_right 32;
          (s, c) = vli_add (take 6 (drop 1 p_result)) l_tmp;
          p_result = (write_at 1 s p_result)[7 := l_carry + c];
          (s, c) = vli_add (take 6 (drop 2 p_result)) p_right;
          p_result = (write_at 2 s p_result)[8 := c];
          (s, b) = vli_sub (take 6 p_result) l_tmp;
          p_result = write_at 0 s p_result;
          l_carry = l_carry + b;
          l_diff = p_result ! 6 - l_carry
      in map_option (\<lambda>r. r[6 := l_diff])
           (if l_diff > p_result ! 6 then borrow_loop 5 7 p_result else Some p_result))"

definition fold_high_384 :: "vli \<Rightarrow> vli option" where
  "fold_high_384 p_product =
     map_option (\<lambda>l_tmp.
         let p_product = write_at 6 (vli_clear 6) p_product;
             (s, c) = add_loop (take 9 p_product) (take 9 l_tmp) 0
         in write_at 0 s p_product)
       (omega_mult (vli_clear 6 @ vli_clear 6) (drop 6 p_product))"

text \<open>The outer loop of the reduction, where each round may itself fail to return.\<close>

definition mmod_fast_384 :: "vli \<Rightarrow> vli option" where
  "mmod_fast_384 p_product =
     (case while_option (\<lambda>q. case q of None \<Rightarrow> False | Some x \<Rightarrow> \<not> vli_isZero (drop 6 x))
         (\<lambda>q. case q of None \<Rightarrow> None | Some x \<Rightarrow> fold_high_384 x) (Some p_product) of
       Some (Some x) \<Rightarrow>
         map_option (take 6) (while_option (\<lambda>x. vli_cmp (take 6 x) (curve_p secp384r1) > 0)
           (\<lambda>x. write_at 0 (fst (vli_sub (take 6 x) (curve_p secp384r1))) x) x)
     | _ \<Rightarrow> None)"

fun vli_mmod_fast :: "ecc_curve \<Rightarrow> vli \<Rightarrow> vli option" where
  "vli_mmod_fast secp128r1 p_product = mmod_fast_128 p_product"
| "vli_mmod_fast secp192r1 p_product = mmod_fast_192 p_product"
| "vli_mmod_fast secp256r1 p_product = mmod_fast_256 p_product"
| "vli_mmod_fast secp384r1 p_product = mmod_fast_384 p_product"

definition vli_modMult_fast :: "ecc_curve \<Rightarrow> vli \<Rightarrow> vli \<Rightarrow> vli option" where
  "vli_modMult_fast C p_left p_right = vli_mmod_fast C (vli_mult p_left p_right)"

definition vli_modSquare_fast :: "ecc_curve \<Rightarrow> vli \<Rightarrow> vli option" where
  "vli_modSquare_fast C p_left = vli_mmod_fast C (vli_square p_left)"

section \<open>Addition and subtraction modulo a number\<close>

lemma vli_modAdd_eq:
  assumes len: "length x = n" "length y = n" "length m = n" and xy: "val x < val m" "val y < val m"
  shows "vli_modAdd x y m = digits n ((val x + val y) mod val m)"
proof -
  have B: "val m < base n" using val_less [of m] len by simp
  have sub: "fst (vli_sub (digits n (val x + val y)) m) = digits n ((val x + val y) mod val m)" if "val m \<le> val x + val y"
  proof -
    have md: "(val x + val y) mod val m = val x + val y - val m" using that xy by (intro mod_once) simp_all
    have "(base n + val (digits n (val x + val y)) - val m) mod base n = (val x + val y - val m) mod base n"
    proof (cases "val x + val y < base n")
      case True
      then have "base n + val (digits n (val x + val y)) - val m = val x + val y - val m + base n"
        using that by (simp add: val_digits)
      then show ?thesis by (simp only: mod_add_self2)
    next
      case False
      then have "val (digits n (val x + val y)) = val x + val y - base n"
        unfolding val_digits using xy B by (intro mod_once) simp_all
      then show ?thesis using False by simp
    qed
    then show ?thesis using len by (simp add: vli_sub_eq md) (metis digits_mod)
  qed
  show ?thesis
  proof (cases "base n \<le> val x + val y")
    case True
    then show ?thesis using sub B len by (simp add: vli_modAdd_def vli_add_eq bool_u64_def)
  next
    case False
    then have "vli_cmp (digits n (val x + val y)) m \<ge> 0 \<longleftrightarrow> val m \<le> val x + val y"
      using len by (simp add: vli_cmp_eq val_digits sgn_if)
    then show ?thesis using sub False len by (simp add: vli_modAdd_def vli_add_eq bool_u64_def)
  qed
qed

lemma vli_modSub_eq:
  assumes len: "length x = n" "length y = n" "length m = n" and xy: "val x < val m" "val y < val m"
  shows "vli_modSub x y m = digits n ((val m + val x - val y) mod val m)"
proof (cases "val x < val y")
  case True
  have "val m < base n" using val_less [of m] len by simp
  then have "base n + val x - val y < base n" using True xy by simp
  then have "val (digits n (base n + val x - val y)) = base n + val x - val y" by (rule val_digits_less)
  moreover have "base n + val x - val y + val m = val m + val x - val y + base n" using xy \<open>val m < base n\<close> by linarith
  ultimately have "fst (vli_add (digits n (base n + val x - val y)) m) = digits n (val m + val x - val y)"
    using len digits_mod [of n "val m + val x - val y + base n"] digits_mod [of n "val m + val x - val y"]
    by (simp add: vli_add_eq)
  then show ?thesis using True xy len by (simp add: vli_modSub_def vli_sub_eq bool_u64_def)
next
  case False
  define d where "d = val x - val y"
  have e: "base n + val x - val y = d + base n" "val m + val x - val y = d + val m" "d < val m" using False xy by (simp_all add: d_def)
  have "digits n (d + base n) = digits n d" by (metis digits_mod mod_add_self2)
  then show ?thesis using False len e(3) by (simp add: vli_modSub_def vli_sub_eq bool_u64_def e(1,2))
qed

section \<open>Arrays with a signed carry\<close>

definition cval :: "vli \<times> int \<Rightarrow> int" where
  "cval s = int (val (fst s)) + 2 ^ (64 * length (fst s)) * snd s"

lemma carry_add_cval:
  assumes "length (fst s) = n" "length t = n"
  shows "length (fst (carry_add t s)) = n" "cval (carry_add t s) = cval s + int (val t)"
proof -
  obtain r c where s: "s = (r, c)" by (cases s)
  obtain r' c' where rc: "vli_add r t = (r', c')" by force
  note a = add_loop_val [OF _ _ rc [unfolded vli_add_def]]
  have len: "length r = n" "length r' = n" using a(1) assms s by simp_all
  have "int (val r' + base n * unat c') = int (val r + val t)" using a(2) assms s by simp
  then have "int (val r') + 2 ^ (64 * n) * uint c' = int (val r) + int (val t)" by simp
  then show "length (fst (carry_add t s)) = n" "cval (carry_add t s) = cval s + int (val t)"
    by (simp_all add: carry_add_def cval_def s rc len distrib_left)
qed

lemma carry_sub_cval:
  assumes "length (fst s) = n" "length t = n"
  shows "length (fst (carry_sub t s)) = n" "cval (carry_sub t s) = cval s - int (val t)"
proof -
  obtain r c where s: "s = (r, c)" by (cases s)
  obtain r' c' where rc: "vli_sub r t = (r', c')" by force
  note a = sub_loop_val [OF _ _ rc [unfolded vli_sub_def]]
  have len: "length r = n" "length r' = n" using a(1) assms s by simp_all
  have "int (val r' + val t) = int (val r + base n * unat c')" using a(2) assms s by simp
  then have "int (val r') + int (val t) = int (val r) + 2 ^ (64 * n) * uint c'" by simp
  then show "length (fst (carry_sub t s)) = n" "cval (carry_sub t s) = cval s - int (val t)"
    by (simp_all add: carry_sub_def cval_def s rc len right_diff_distrib)
qed

lemma cval_sign:
  assumes "length (fst s) = n"
  shows "cval s < 0 \<longleftrightarrow> snd s < 0" "cval s < 2 ^ (64 * n) \<longleftrightarrow> snd s \<le> 0"
proof -
  obtain r c where s: "s = (r, c)" by (cases s)
  define B :: int where "B = 2 ^ (64 * n)"
  have "int (val r) < int (base n)" using val_less [of r] assms s by (simp del: of_nat_power of_nat_less_iff add: of_nat_less_iff)
  then have r: "0 \<le> int (val r)" "int (val r) < B" by (simp_all add: B_def)
  have B: "0 < B" by (simp add: B_def)
  have v: "cval s = int (val r) + B * c" using assms by (simp add: cval_def s B_def)
  consider "c < 0" | "c = 0" | "0 < c" by linarith
  then have "(cval s < 0 \<longleftrightarrow> c < 0) \<and> (cval s < B \<longleftrightarrow> c \<le> 0)"
  proof cases
    case 1
    then have "B * c \<le> B * - 1" using B by (intro mult_left_mono) simp_all
    then show ?thesis using 1 r B unfolding v by simp
  next
    case 2
    then show ?thesis using r unfolding v by simp
  next
    case 3
    then have "B * 1 \<le> B * c" using B by (intro mult_left_mono) simp_all
    then have "B \<le> cval s" using r unfolding v by linarith
    then show ?thesis using 3 B by simp
  qed
  then show "cval s < 0 \<longleftrightarrow> snd s < 0" "cval s < 2 ^ (64 * n) \<longleftrightarrow> snd s \<le> 0"
    by (simp_all add: s B_def)
qed

lemma reduce_down_eq:
  assumes "length (fst s) = n" "length p = n" "0 \<le> cval s" "0 < val p"
  shows "reduce_down p s = Some (digits n (nat (cval s mod int (val p))))"
  using assms(1,3)
proof (induction "nat (cval s)" arbitrary: s rule: less_induct)
  case less
  obtain r c where s: "s = (r, c)" by (cases s)
  have len: "length r = n" using less.prems s by simp
  have c0: "0 \<le> c" using cval_sign(1) [OF less.prems(1)] less.prems(2) s by simp
  have pB: "int (val p) < 2 ^ (64 * n)" using val_less [of p] assms(2) by (metis of_nat_less_iff of_nat_numeral of_nat_power)
  have cmp: "vli_cmp p r = 1 \<longleftrightarrow> val r < val p" using vli_cmp_eq [OF assms(2) len] by (simp add: sgn_if)
  have cond: "(c \<noteq> 0 \<or> vli_cmp p r \<noteq> 1) \<longleftrightarrow> int (val p) \<le> cval s"
  proof (cases "c = 0")
    case True
    then show ?thesis by (simp add: cmp cval_def s not_less)
  next
    case False
    then have "2 ^ (64 * n) \<le> cval s" using cval_sign(2) [OF less.prems(1)] c0 s by (simp add: not_less [symmetric])
    then have "int (val p) \<le> cval s" using pB by linarith
    then show ?thesis using False by simp
  qed
  show ?case
  proof (cases "int (val p) \<le> cval s")
    case True
    note cs = carry_sub_cval [OF less.prems(1) assms(2)]
    have "reduce_down p s = reduce_down p (carry_sub p s)"
      using cond True by (subst reduce_down_def, subst while_option_unfold) (simp add: s reduce_down_def)
    also have "\<dots> = Some (digits n (nat (cval (carry_sub p s) mod int (val p))))"
      using cs True assms(4) by (intro less.hyps) simp_all
    also have "cval (carry_sub p s) mod int (val p) = cval s mod int (val p)" unfolding cs(2) by (rule minus_mod_self2)
    finally show ?thesis .
  next
    case False
    then have "c = 0" "cval s = int (val r)" using cond by (auto simp: s cval_def)
    moreover have "reduce_down p s = Some r"
      using cond False by (subst reduce_down_def, subst while_option_unfold) (simp add: s)
    ultimately show ?thesis using False len by (metis digits_val int_ops(9) mod_pos_pos_trivial nat_int not_le_imp_less of_nat_0_le_iff)
  qed
qed

lemma reduce_up_eq:
  assumes "length (fst s) = n" "length p = n" "cval s < int (val p)" "0 < val p"
  shows "reduce_up p s = Some (digits n (nat (cval s mod int (val p))))"
  using assms(1,3)
proof (induction "nat (int (val p) - cval s)" arbitrary: s rule: less_induct)
  case less
  obtain r c where s: "s = (r, c)" by (cases s)
  have len: "length r = n" using less.prems s by simp
  have pB: "int (val p) < 2 ^ (64 * n)" using val_less [of p] assms(2) by (metis of_nat_less_iff of_nat_numeral of_nat_power)
  note sg = cval_sign [OF less.prems(1)]
  show ?case
  proof (cases "c < 0")
    case True
    note cs = carry_add_cval [OF less.prems(1) assms(2)]
    have neg: "cval s < 0" using sg(1) True s by simp
    have "reduce_up p s = reduce_up p (carry_add p s)"
      using True by (subst reduce_up_def, subst while_option_unfold) (simp add: s reduce_up_def)
    also have "\<dots> = Some (digits n (nat (cval (carry_add p s) mod int (val p))))"
      using cs neg assms(4) by (intro less.hyps) simp_all
    also have "cval (carry_add p s) mod int (val p) = cval s mod int (val p)" unfolding cs(2) by simp
    finally show ?thesis .
  next
    case False
    have "cval s < 2 ^ (64 * n)" using less.prems(2) pB by linarith
    then have "c = 0" using sg(2) False s by simp
    then have "cval s = int (val r)" by (simp add: s cval_def)
    moreover have "reduce_up p s = Some r"
      using False by (subst reduce_up_def, subst while_option_unfold) (simp add: s)
    ultimately show ?thesis using less.prems(2) len by (metis digits_val mod_pos_pos_trivial nat_int of_nat_0_le_iff)
  qed
qed

section \<open>The fast reductions\<close>

lemma and_not_mask: "x AND NOT (mask k) = push_bit k (drop_bit k x)" for x :: u64
  by (rule bit_eqI) (auto simp: bit_simps)

lemma unat_and_high: "c = NOT (mask k) \<Longrightarrow> unat (x AND c) = unat x div 2 ^ k * 2 ^ k" for x c :: u64
proof -
  assume "c = NOT (mask k)"
  moreover have "unat x div 2 ^ k * 2 ^ k < 2 ^ 64" using unat_bound [of x] le_less_trans [OF div_times_less_eq_dividend] by simp
  ultimately show ?thesis by (simp only: and_not_mask unat_push unat_drop) simp
qed

lemma unat_and_low: "c = mask k \<Longrightarrow> unat (x AND c) = unat x mod 2 ^ k" for x c :: u64
  by (simp add: take_bit_eq_mask [symmetric] unat_take del: take_bit_eq_mask)

definition lo32 :: "u64 \<Rightarrow> nat" where "lo32 x = unat x mod 2 ^ 32"
definition hi32 :: "u64 \<Rightarrow> nat" where "hi32 x = unat x div 2 ^ 32"

lemma lo_hi: "unat x = lo32 x + 2 ^ 32 * hi32 x"
  by (simp add: lo32_def hi32_def)

lemma lo_hi_less: "lo32 x < 2 ^ 32" "hi32 x < 2 ^ 32"
  using half_bounds [of x] by (simp_all add: lo32_def hi32_def)

lemma halves:
  fixes x y :: u64
  shows "unat (x AND 0xffffffff) = lo32 x" "unat (x AND 0xffffffff00000000) = 2 ^ 32 * hi32 x"
    "unat (drop_bit 32 x) = hi32 x" "unat (push_bit 32 x) = 2 ^ 32 * lo32 x"
    "unat (drop_bit 32 x OR push_bit 32 y) = hi32 x + 2 ^ 32 * lo32 y"
    "unat ((x AND 0xffffffff) OR push_bit 32 y) = lo32 x + 2 ^ 32 * lo32 y"
    "unat (drop_bit 32 x OR (y AND 0xffffffff00000000)) = hi32 x + 2 ^ 32 * hi32 y"
proof -
  show 1: "unat (x AND 0xffffffff) = lo32 x" "unat (drop_bit 32 x) = hi32 x" for x :: u64
    by (simp_all add: unat_halves lo32_def hi32_def)
  show 2: "unat (x AND 0xffffffff00000000) = 2 ^ 32 * hi32 x" for x :: u64
    by (subst unat_and_high [where k = 32]) (simp_all add: hi32_def mask_eq_exp_minus_1)
  show 3: "unat (push_bit 32 x) = 2 ^ 32 * lo32 x" for x :: u64 by (simp only: unat_halves(3) lo32_def mult.commute)
  have 4: "unat (c OR push_bit 32 y) = unat c + 2 ^ 32 * lo32 y" if "unat c < 2 ^ 32" for c y :: u64
  proof -
    have "unat y * 2 ^ 32 mod 2 ^ 64 = 2 ^ 32 * lo32 y" using 3 [of y] by (simp add: unat_push)
    then show ?thesis using unat_push_or [OF that, of y] by (simp add: or.commute)
  qed
  show "unat (drop_bit 32 x OR push_bit 32 y) = hi32 x + 2 ^ 32 * lo32 y"
    "unat ((x AND 0xffffffff) OR push_bit 32 y) = lo32 x + 2 ^ 32 * lo32 y"
    using 4 [of "drop_bit 32 x" y] 4 [of "x AND 0xffffffff" y] 1 [of x] lo_hi_less [of x] by simp_all
  have "(0xffffffff00000000 :: u64) = NOT (mask 32)" by (simp add: mask_eq_exp_minus_1)
  then have "y AND 0xffffffff00000000 = push_bit 32 (drop_bit 32 y)" by (metis and_not_mask)
  moreover have "lo32 (drop_bit 32 y) = hi32 y" using lo_hi_less [of y] by (simp add: lo32_def 1(2))
  ultimately show "unat (drop_bit 32 x OR (y AND 0xffffffff00000000)) = hi32 x + 2 ^ 32 * hi32 y"
    using 4 [of "drop_bit 32 x" "drop_bit 32 y"] 1(2) [of x] lo_hi_less [of x] by simp
qed

lemma carry_lshift_cval:
  assumes "length (fst s) = n" "length t = n" "vli_lshift t 1 = (l, c)"
  shows "length (fst (carry_add l (fst s, snd s + uint c))) = n"
    "cval (carry_add l (fst s, snd s + uint c)) = cval s + 2 * int (val t)"
proof -
  from lshift_loop_val [of 1 0 t l c] assms(2,3)
  have a: "length l = n" "val l + base n * unat c = val t * 2" by (simp_all add: vli_lshift_def)
  then have "int (val l + base n * unat c) = int (val t * 2)" by (simp only:)
  then have i: "int (val l) + 2 ^ (64 * n) * uint c = 2 * int (val t)" by simp
  have "length (fst (fst s, snd s + uint c)) = n" using assms(1) by simp
  note ca = carry_add_cval [OF this a(1)]
  show "length (fst (carry_add l (fst s, snd s + uint c))) = n" by (rule ca(1))
  show "cval (carry_add l (fst s, snd s + uint c)) = cval s + 2 * int (val t)"
    unfolding ca(2) using i assms(1) by (simp add: cval_def distrib_left)
qed

lemma length_6:
  assumes "length x = 6"
  obtains a b c d e f where "x = [a, b, c, d, e, f]"
  using assms by (auto simp: numeral_eq_Suc length_Suc_conv)

lemma length_8:
  assumes "length x = 8"
  obtains a b c d e f g h where "x = [a, b, c, d, e, f, g, h]"
  using assms by (auto simp: numeral_eq_Suc length_Suc_conv)

lemma length_4:
  assumes "length x = 4"
  obtains a b c d where "x = [a, b, c, d]"
  using assms by (auto simp: numeral_eq_Suc length_Suc_conv)

lemma cval_zero: "cval (r, 0) = int (val r)"
  by (simp add: cval_def)

lemma nat_mod_eqI: "int a = b + int p * k \<Longrightarrow> nat (b mod int p) = a mod p" for a p :: nat and b k :: int
  by (metis mod_mult_self2 nat_int zmod_int)

lemma mmod_fast_192_eq:
  assumes "length x = 6"
  shows "mmod_fast_192 x = Some (digits 3 (val x mod val (curve_p secp192r1)))"
proof -
  from assms obtain a b c d e f where x: "x = [a, b, c, d, e, f]" by (rule length_6)
  define s where "s = carry_add [f, f, 0] (carry_add [0, d, e] (carry_add [d, e, f] ([a, b, c], 0)))"
  have s: "length (fst s) = 3" "cval s = int (val [a, b, c] + val [d, e, f] + val [0, d, e] + val [f, f, 0])"
    unfolding s_def by (simp_all add: carry_add_cval [where n = 3] cval_zero)
  have v: "int (val x) = cval s + int (val (curve_p secp192r1)) *
      int (unat d + 18446744073709551616 * unat e + 340282366920938463463374607431768211457 * unat f)"
    unfolding s(2) x by simp
  have "mmod_fast_192 x = reduce_down (curve_p secp192r1) s"
    by (simp add: mmod_fast_192_def x s_def Let_def)
  also have "\<dots> = Some (digits 3 (nat (cval s mod int (val (curve_p secp192r1)))))"
    using s by (intro reduce_down_eq) simp_all
  also have "nat (cval s mod int (val (curve_p secp192r1))) = val x mod val (curve_p secp192r1)"
    using v by (rule nat_mod_eqI)
  finally show ?thesis .
qed

lemma mmod_sums_256_cval:
  assumes "length x = 8"
  shows "length (fst (mmod_sums_256 x)) = 4" and
    "\<exists>k. int (val x) = cval (mmod_sums_256 x) + int (val (curve_p secp256r1)) * k"
proof -
  from assms obtain a b c d p4 p5 p6 p7 where x: "x = [a, b, c, d, p4, p5, p6, p7]" by (rule length_8)
  obtain t1 c1 where l1: "vli_lshift [0, p5 AND 0xffffffff00000000, p6, p7] 1 = (t1, c1)" by force
  have t1: "t1 ! 0 = 0" using l1 by (auto simp: vli_lshift_def Let_def split: prod.splits)
  obtain t2 c2 where l2: "vli_lshift [0, push_bit 32 p6, drop_bit 32 p6 OR push_bit 32 p7, drop_bit 32 p7] 1 = (t2, c2)" by force
  define s1 where "s1 = carry_add t1 ([a, b, c, d], uint c1)"
  define s2 where "s2 = carry_add t2 (fst s1, snd s1 + uint c2)"
  define s where "s = carry_sub [p7, p4 AND 0xffffffff00000000, p5, p6 AND 0xffffffff00000000]
    (carry_sub [drop_bit 32 p6 OR push_bit 32 p7, drop_bit 32 p7 OR push_bit 32 p4, drop_bit 32 p4 OR push_bit 32 p5, push_bit 32 p6]
    (carry_sub [p6, p7, 0, drop_bit 32 p4 OR (p5 AND 0xffffffff00000000)]
    (carry_sub [drop_bit 32 p5 OR push_bit 32 p6, drop_bit 32 p6, 0, (p4 AND 0xffffffff) OR push_bit 32 p5]
    (carry_add [drop_bit 32 p4 OR push_bit 32 p5, drop_bit 32 p5 OR (p6 AND 0xffffffff00000000), p7, drop_bit 32 p6 OR push_bit 32 p4]
    (carry_add [p4, p5 AND 0xffffffff, 0, p7] s2)))))"
  have sums: "mmod_sums_256 x = s"
    by (simp add: mmod_sums_256_def x l1 [unfolded One_nat_def] t1 l2 [unfolded One_nat_def] s_def s2_def s1_def Let_def)
  note l1' = carry_lshift_cval [of "([a, b, c, d], 0)" 4, OF _ _ l1, simplified, folded s1_def]
  note l2' = carry_lshift_cval [of s1 4, OF l1'(1) _ l2, simplified, folded s2_def]
  show "length (fst (mmod_sums_256 x)) = 4"
    unfolding sums s_def by (simp add: carry_add_cval [where n = 4] carry_sub_cval [where n = 4] l2')
  have cs: "cval s = int (val [a, b, c, d]) + 2 * int (val [0, p5 AND 0xffffffff00000000, p6, p7])
     + 2 * int (val [0, push_bit 32 p6, drop_bit 32 p6 OR push_bit 32 p7, drop_bit 32 p7])
     + int (val [p4, p5 AND 0xffffffff, 0, p7])
     + int (val [drop_bit 32 p4 OR push_bit 32 p5, drop_bit 32 p5 OR (p6 AND 0xffffffff00000000), p7, drop_bit 32 p6 OR push_bit 32 p4])
     - int (val [drop_bit 32 p5 OR push_bit 32 p6, drop_bit 32 p6, 0, (p4 AND 0xffffffff) OR push_bit 32 p5])
     - int (val [p6, p7, 0, drop_bit 32 p4 OR (p5 AND 0xffffffff00000000)])
     - int (val [drop_bit 32 p6 OR push_bit 32 p7, drop_bit 32 p7 OR push_bit 32 p4, drop_bit 32 p4 OR push_bit 32 p5, push_bit 32 p6])
     - int (val [p7, p4 AND 0xffffffff00000000, p5, p6 AND 0xffffffff00000000])"
    unfolding s_def by (simp add: carry_add_cval [where n = 4] carry_sub_cval [where n = 4] l1' l2' cval_zero)
  have "int (val x) = cval s + int (val (curve_p secp256r1)) *
    (int (lo32 p4) + 4294967297 * int (hi32 p4) + 18446744078004518912 * int (lo32 p5) + 79228162532711081667253501951 * int (hi32 p5)
     + 340282367000166625977638945021017194495 * int (lo32 p6) + 1461501637671185285124623296161210883009696235519 * int (hi32 p6)
     + 6277101736848182401166692341332123086285927382448418586623 * int (lo32 p7)
     + 26959946673427741530053695850515137729844644212646842236464328081408 * int (hi32 p7))"
    unfolding cs x val.simps halves lo_hi [of p4] lo_hi [of p5] lo_hi [of p6] lo_hi [of p7] by simp
  then show "\<exists>k. int (val x) = cval (mmod_sums_256 x) + int (val (curve_p secp256r1)) * k" unfolding sums by blast
qed

lemma mmod_fast_256_eq:
  assumes "length x = 8"
  shows "mmod_fast_256 x = Some (digits 4 (val x mod val (curve_p secp256r1)))"
proof -
  note len = mmod_sums_256_cval(1) [OF assms]
  from mmod_sums_256_cval(2) [OF assms] obtain k where
    k: "int (val x) = cval (mmod_sums_256 x) + int (val (curve_p secp256r1)) * k" by blast
  have "mmod_fast_256 x = Some (digits 4 (nat (cval (mmod_sums_256 x) mod int (val (curve_p secp256r1)))))"
  proof (cases "snd (mmod_sums_256 x) < 0")
    case True
    then have "cval (mmod_sums_256 x) < 0" using cval_sign(1) [OF len] by simp
    then show ?thesis using True reduce_up_eq [OF len, of "curve_p secp256r1"] by (simp add: mmod_fast_256_def)
  next
    case False
    then have "0 \<le> cval (mmod_sums_256 x)" using cval_sign(1) [OF len] by simp
    then show ?thesis using False reduce_down_eq [OF len, of "curve_p secp256r1"] by (simp add: mmod_fast_256_def)
  qed
  then show ?thesis unfolding nat_mod_eqI [OF k] .
qed

text \<open>Cutting a number at increasing bit positions.\<close>

lemma unat_or_push: "unat c < 2 ^ s \<Longrightarrow> unat (c OR push_bit s y) = unat c + unat y * 2 ^ s mod 2 ^ 64" for c y :: u64
  using unat_push_or [of c s y] by (simp add: or.commute)

lemma slices2: "\<exists>a0 a1 a2. unat (p :: u64) = a0 + 2147483648 * a1 + 4611686018427387904 * a2 \<and>
    a0 < 2147483648 \<and> a1 < 2147483648 \<and> a2 < 4"
proof -
  define v where "v = unat p"
  have b: "v < 18446744073709551616" using unat_bound [of p] by (simp add: v_def)
  define v1 v2 where "v1 = v div 2147483648" and "v2 = v1 div 2147483648"
  have "v = v mod 2147483648 + 2147483648 * v1" "v1 = v1 mod 2147483648 + 2147483648 * v2"
    unfolding v1_def v2_def by simp_all
  then have e: "v = v mod 2147483648 + 2147483648 * (v1 mod 2147483648) + 4611686018427387904 * v2" by linarith
  moreover have "v mod 2147483648 < 2147483648" "v1 mod 2147483648 < 2147483648" by simp_all
  moreover have "v2 < 4" using e b by linarith
  ultimately show ?thesis unfolding v_def [symmetric] by blast
qed

lemma slices6: "\<exists>b0 b1 b2 b3 b4 b5. unat (p :: u64) = b0 + 536870912 * b1 + 2147483648 * b2 + 8589934592 * b3
      + 1152921504606846976 * b4 + 4611686018427387904 * b5 \<and>
    b0 < 536870912 \<and> b1 < 4 \<and> b2 < 4 \<and> b3 < 134217728 \<and> b4 < 4 \<and> b5 < 4"
proof -
  define v where "v = unat p"
  have b: "v < 18446744073709551616" using unat_bound [of p] by (simp add: v_def)
  define v1 where "v1 = v div 536870912"
  define v2 where "v2 = v1 div 4"
  define v3 where "v3 = v2 div 4"
  define v4 where "v4 = v3 div 134217728"
  define v5 where "v5 = v4 div 4"
  have "v = v mod 536870912 + 536870912 * v1" "v1 = v1 mod 4 + 4 * v2" "v2 = v2 mod 4 + 4 * v3"
    "v3 = v3 mod 134217728 + 134217728 * v4" "v4 = v4 mod 4 + 4 * v5"
    unfolding v1_def v2_def v3_def v4_def v5_def by (simp_all only: mod_mult_div_eq)
  then have e: "v = v mod 536870912 + 536870912 * (v1 mod 4) + 2147483648 * (v2 mod 4) + 8589934592 * (v3 mod 134217728)
      + 1152921504606846976 * (v4 mod 4) + 4611686018427387904 * v5"
    by linarith
  moreover have "v mod 536870912 < 536870912" "v1 mod 4 < 4" "v2 mod 4 < 4" "v3 mod 134217728 < 134217728" "v4 mod 4 < 4" by simp_all
  moreover have "v5 < 4" using e b by linarith
  ultimately show ?thesis unfolding v_def [symmetric] by blast
qed

lemma mask_128:
  fixes x :: u64
  shows "unat (x AND 0x1FFFFFFFF) = unat x mod 2 ^ 33" "unat (x AND 0xFFFFFFFF80000000) = unat x div 2 ^ 31 * 2 ^ 31"
    "unat (x AND 0xC000000000000000) = unat x div 2 ^ 62 * 2 ^ 62" "unat (x AND 0xFFFFFFFFE0000000) = unat x div 2 ^ 29 * 2 ^ 29"
    "unat (x AND 0xFFFFFFFE00000000) = unat x div 2 ^ 33 * 2 ^ 33" "unat (x AND 0xF000000000000000) = unat x div 2 ^ 60 * 2 ^ 60"
  by (rule unat_and_low unat_and_high; simp add: mask_eq_exp_minus_1)+

lemma unat_or_push_low:
  assumes "unat (c :: u64) < 2 ^ s" "s \<le> 64"
  shows "unat (c OR push_bit s y) = unat c + unat y mod 2 ^ (64 - s) * 2 ^ s"
proof -
  have "(2 :: nat) ^ 64 = 2 ^ (64 - s) * 2 ^ s" using assms(2) by (simp flip: power_add)
  then show ?thesis using unat_or_push [OF assms(1), of y] mult_mod_left [of "unat y" "2 ^ (64 - s)" "2 ^ s"] by metis
qed

lemma cut_at: "v = l + K * h \<Longrightarrow> l < K \<Longrightarrow> v mod K = l \<and> v div K = h" for v l K h :: nat
  by simp

lemma push_masked:
  fixes x :: u64
  shows "push_bit 2 (x AND 0xFFFFFFFF80000000) = push_bit 33 (drop_bit 31 x)"
    "push_bit 4 (x AND 0xFFFFFFFFE0000000) = push_bit 33 (drop_bit 29 x)"
    "drop_bit 29 (x AND 0xC000000000000000) = push_bit 33 (drop_bit 62 x)"
    "drop_bit 27 (x AND 0xF000000000000000) = push_bit 33 (drop_bit 60 x)"
proof -
  have m: "(0xFFFFFFFF80000000 :: u64) = NOT (mask 31)" "(0xFFFFFFFFE0000000 :: u64) = NOT (mask 29)"
    "(0xC000000000000000 :: u64) = NOT (mask 62)" "(0xF000000000000000 :: u64) = NOT (mask 60)" by (simp_all add: mask_eq_exp_minus_1)
  show "push_bit 2 (x AND 0xFFFFFFFF80000000) = push_bit 33 (drop_bit 31 x)"
    "push_bit 4 (x AND 0xFFFFFFFFE0000000) = push_bit 33 (drop_bit 29 x)"
    "drop_bit 29 (x AND 0xC000000000000000) = push_bit 33 (drop_bit 62 x)"
    "drop_bit 27 (x AND 0xF000000000000000) = push_bit 33 (drop_bit 60 x)"
    unfolding m and_not_mask by (rule bit_eqI; auto simp: bit_simps; drule bit_imp_le_length; simp)+
qed

lemma terms_128:
  fixes p2 p3 :: u64
  assumes p2: "unat p2 = a0 + 2147483648 * a1 + 4611686018427387904 * a2" "a0 < 2147483648" "a1 < 2147483648" "a2 < 4"
    and p3: "unat p3 = b0 + 536870912 * b1 + 2147483648 * b2 + 8589934592 * b3 + 1152921504606846976 * b4 + 4611686018427387904 * b5"
      "b0 < 536870912" "b1 < 4" "b2 < 4" "b3 < 134217728" "b4 < 4" "b5 < 4"
  shows "unat ((p3 AND 0x1FFFFFFFF) OR push_bit 33 p2) = b0 + 536870912 * b1 + 2147483648 * b2 + 8589934592 * a0"
    "unat (drop_bit 31 p2 OR push_bit 33 p3) = a1 + 2147483648 * a2 + 8589934592 * b0 + 4611686018427387904 * b1"
    "unat (drop_bit 31 p3 OR push_bit 2 (p2 AND 0xFFFFFFFF80000000)) = b2 + 4 * b3 + 536870912 * b4 + 2147483648 * b5 + 8589934592 * a1"
    "unat (drop_bit 62 p2 OR push_bit 2 p3) = a2 + 4 * b0 + 2147483648 * b1 + 8589934592 * b2 + 34359738368 * b3 + 4611686018427387904 * b4"
    "unat (drop_bit 62 p3 OR drop_bit 29 (p2 AND 0xC000000000000000) OR push_bit 35 p3) = b5 + 8589934592 * a2 + 34359738368 * b0"
    "unat (drop_bit 29 p3) = b1 + 4 * b2 + 16 * b3 + 2147483648 * b4 + 8589934592 * b5"
    "unat (push_bit 4 (p3 AND 0xFFFFFFFFE0000000)) = 8589934592 * b1 + 34359738368 * b2 + 137438953472 * b3"
    "unat (drop_bit 60 p3) = b4 + 4 * b5"
    "unat (p3 AND 0xFFFFFFFE00000000) = 8589934592 * b3 + 1152921504606846976 * b4 + 4611686018427387904 * b5"
    "unat (drop_bit 27 (p3 AND 0xF000000000000000)) = 8589934592 * b4 + 34359738368 * b5"
proof -
  note b2 = p2(2-4) and b3 = p3(2-7)
  have q31: "unat p2 mod 2 ^ 31 = a0 \<and> unat p2 div 2 ^ 31 = a1 + 2147483648 * a2"
    by (rule cut_at) (unfold p2(1), use b2 in simp_all)
  have q62: "unat p2 mod 2 ^ 62 = a0 + 2147483648 * a1 \<and> unat p2 div 2 ^ 62 = a2"
    by (rule cut_at) (unfold p2(1), use b2 in simp_all)
  have r29: "unat p3 mod 2 ^ 29 = b0 \<and> unat p3 div 2 ^ 29 = b1 + 4 * b2 + 16 * b3 + 2147483648 * b4 + 8589934592 * b5"
    by (rule cut_at) (unfold p3(1), use b3 in simp_all)
  have r31: "unat p3 mod 2 ^ 31 = b0 + 536870912 * b1 \<and> unat p3 div 2 ^ 31 = b2 + 4 * b3 + 536870912 * b4 + 2147483648 * b5"
    by (rule cut_at) (unfold p3(1), use b3 in simp_all)
  have r33: "unat p3 mod 2 ^ 33 = b0 + 536870912 * b1 + 2147483648 * b2 \<and> unat p3 div 2 ^ 33 = b3 + 134217728 * b4 + 536870912 * b5"
    by (rule cut_at) (unfold p3(1), use b3 in simp_all)
  have r60: "unat p3 mod 2 ^ 60 = b0 + 536870912 * b1 + 2147483648 * b2 + 8589934592 * b3 \<and> unat p3 div 2 ^ 60 = b4 + 4 * b5"
    by (rule cut_at) (unfold p3(1), use b3 in simp_all)
  have r62: "unat p3 mod 2 ^ 62 = b0 + 536870912 * b1 + 2147483648 * b2 + 8589934592 * b3 + 1152921504606846976 * b4 \<and> unat p3 div 2 ^ 62 = b5"
    by (rule cut_at) (unfold p3(1), use b3 in simp_all)
  show "unat (drop_bit 29 p3) = b1 + 4 * b2 + 16 * b3 + 2147483648 * b4 + 8589934592 * b5" "unat (drop_bit 60 p3) = b4 + 4 * b5"
    using r29 r60 by (simp_all only: unat_drop)
  have "unat (p3 AND 0x1FFFFFFFF) < 2 ^ 33" unfolding mask_128 by simp
  from unat_or_push_low [OF this, of p2] show "unat ((p3 AND 0x1FFFFFFFF) OR push_bit 33 p2) = b0 + 536870912 * b1 + 2147483648 * b2 + 8589934592 * a0"
    using q31 r33 by (simp add: mask_128)
  have lt: "unat (drop_bit 31 p2) < 2 ^ 33" "unat (drop_bit 31 p3) < 2 ^ 33" "unat (drop_bit 62 p2) < 2 ^ 2" "unat (drop_bit 62 p3) < 2 ^ 33"
    unfolding unat_drop using unat_bound [of p2] unat_bound [of p3] by (simp_all add: less_mult_imp_div_less)
  from unat_or_push_low [OF lt(1), of p3]
  show "unat (drop_bit 31 p2 OR push_bit 33 p3) = a1 + 2147483648 * a2 + 8589934592 * b0 + 4611686018427387904 * b1"
    using q31 r31 by (simp add: unat_drop)
  have "unat (drop_bit 31 p2) mod 2 ^ 31 = a1 \<and> unat (drop_bit 31 p2) div 2 ^ 31 = a2"
    by (rule cut_at) (use q31 b2 in \<open>simp_all add: unat_drop\<close>)
  with unat_or_push_low [OF lt(2), of "drop_bit 31 p2"]
  show "unat (drop_bit 31 p3 OR push_bit 2 (p2 AND 0xFFFFFFFF80000000)) = b2 + 4 * b3 + 536870912 * b4 + 2147483648 * b5 + 8589934592 * a1"
    unfolding push_masked using r31 by (simp add: unat_drop)
  from unat_or_push_low [OF lt(3), of p3]
  show "unat (drop_bit 62 p2 OR push_bit 2 p3) = a2 + 4 * b0 + 2147483648 * b1 + 8589934592 * b2 + 34359738368 * b3 + 4611686018427387904 * b4"
    using q62 r62 by (simp add: unat_drop)
  have m: "unat (drop_bit 62 p3 OR push_bit 33 (drop_bit 62 p2)) = b5 + 8589934592 * a2"
    using unat_or_push_low [OF lt(4), of "drop_bit 62 p2"] q62 r62 b2 by (simp add: unat_drop)
  then have "unat (drop_bit 62 p3 OR push_bit 33 (drop_bit 62 p2)) < 2 ^ 35" using b2 b3 by simp
  from unat_or_push_low [OF this, of p3]
  show "unat (drop_bit 62 p3 OR drop_bit 29 (p2 AND 0xC000000000000000) OR push_bit 35 p3) = b5 + 8589934592 * a2 + 34359738368 * b0"
    unfolding push_masked m using r29 by (simp add: or.assoc)
  have "unat (drop_bit 29 p3) mod 2 ^ 31 = b1 + 4 * b2 + 16 * b3 \<and> unat (drop_bit 29 p3) div 2 ^ 31 = b4 + 4 * b5"
    by (rule cut_at) (use r29 b3 in \<open>simp_all add: unat_drop\<close>)
  then show "unat (push_bit 4 (p3 AND 0xFFFFFFFFE0000000)) = 8589934592 * b1 + 34359738368 * b2 + 137438953472 * b3"
    unfolding push_masked using unat_or_push_low [of 0 33 "drop_bit 29 p3"] by simp
  show "unat (p3 AND 0xFFFFFFFE00000000) = 8589934592 * b3 + 1152921504606846976 * b4 + 4611686018427387904 * b5"
    unfolding mask_128 using r33 by simp
  have "b4 + 4 * b5 < 2 ^ 31" using b3 by simp
  then show "unat (drop_bit 27 (p3 AND 0xF000000000000000)) = 8589934592 * b4 + 34359738368 * b5"
    unfolding push_masked using unat_or_push_low [of 0 33 "drop_bit 60 p3"] r60 by (simp add: unat_drop)
qed

lemma mmod_fast_128_eq:
  assumes "length x = 4"
  shows "mmod_fast_128 x = Some (digits 2 (val x mod val (curve_p secp128r1)))"
proof -
  from assms obtain a b p2 p3 where x: "x = [a, b, p2, p3]" by (rule length_4)
  obtain a0 a1 a2 where p2: "unat p2 = a0 + 2147483648 * a1 + 4611686018427387904 * a2" "a0 < 2147483648" "a1 < 2147483648" "a2 < 4"
    using slices2 [of p2] by blast
  obtain b0 b1 b2 b3 b4 b5 where p3: "unat p3 = b0 + 536870912 * b1 + 2147483648 * b2 + 8589934592 * b3 + 1152921504606846976 * b4 + 4611686018427387904 * b5"
      "b0 < 536870912" "b1 < 4" "b2 < 4" "b3 < 134217728" "b4 < 4" "b5 < 4"
    using slices6 [of p3] by blast
  note t = terms_128 [OF p2 p3]
  define s where "s = carry_add [0, drop_bit 27 (p3 AND 0xF000000000000000)]
    (carry_add [drop_bit 60 p3, p3 AND 0xFFFFFFFE00000000]
    (carry_add [drop_bit 29 p3, push_bit 4 (p3 AND 0xFFFFFFFFE0000000)]
    (carry_add [drop_bit 62 p2 OR push_bit 2 p3, drop_bit 62 p3 OR drop_bit 29 (p2 AND 0xC000000000000000) OR push_bit 35 p3]
    (carry_add [drop_bit 31 p2 OR push_bit 33 p3, drop_bit 31 p3 OR push_bit 2 (p2 AND 0xFFFFFFFF80000000)]
    (carry_add [p2, (p3 AND 0x1FFFFFFFF) OR push_bit 33 p2] ([a, b], 0))))))"
  have s: "length (fst s) = 2" "cval s = int (val [a, b] + val [p2, (p3 AND 0x1FFFFFFFF) OR push_bit 33 p2]
      + val [drop_bit 31 p2 OR push_bit 33 p3, drop_bit 31 p3 OR push_bit 2 (p2 AND 0xFFFFFFFF80000000)]
      + val [drop_bit 62 p2 OR push_bit 2 p3, drop_bit 62 p3 OR drop_bit 29 (p2 AND 0xC000000000000000) OR push_bit 35 p3]
      + val [drop_bit 29 p3, push_bit 4 (p3 AND 0xFFFFFFFFE0000000)] + val [drop_bit 60 p3, p3 AND 0xFFFFFFFE00000000]
      + val [0, drop_bit 27 (p3 AND 0xF000000000000000)])"
    unfolding s_def by (simp_all add: carry_add_cval [where n = 2] cval_zero del: val.simps)
  have v: "int (val x) = cval s + int (val (curve_p secp128r1)) * int (a0 + 2147483649 * a1 + 4611686020574871553 * a2
      + 18446744082299486212 * b0 + 9903520318894728219767865345 * b1 + 39614081275578912879071461380 * b2
      + 158456325102315651516285845520 * b3 + 21267647942462174285355641184253378561 * b4 + 85070591769848697141422564737013514244 * b5)"
    unfolding s(2) x val.simps t p2(1) p3(1) by simp
  have "mmod_fast_128 x = reduce_down (curve_p secp128r1) s"
    by (simp add: mmod_fast_128_def x s_def Let_def)
  also have "\<dots> = Some (digits 2 (nat (cval s mod int (val (curve_p secp128r1)))))"
    using s by (intro reduce_down_eq) simp_all
  also have "nat (cval s mod int (val (curve_p secp128r1))) = val x mod val (curve_p secp128r1)"
    using v by (rule nat_mod_eqI)
  finally show ?thesis .
qed

abbreviation omega :: nat where
  "omega \<equiv> 2 ^ 128 + 2 ^ 96 - 2 ^ 32 + 1"

lemma curve_p_384: "val (curve_p secp384r1) + omega = base 6"
  by simp

lemma length_6_ex: "length x = 6 \<Longrightarrow> \<exists>a b c d e f. x = [a, b, c, d, e, f]"
  using length_6 by metis

lemma list_update_12:
  "[a, b, c, d, e, f, g, h, i, j, k, l][6 := v] = [a, b, c, d, e, f, v, h, i, j, k, l]"
  "[a, b, c, d, e, f, g, h, i, j, k, l][7 := v] = [a, b, c, d, e, f, g, v, i, j, k, l]"
  "[a, b, c, d, e, f, g, h, i, j, k, l][8 := v] = [a, b, c, d, e, f, g, h, v, j, k, l]"
  by (simp_all add: numeral_eq_Suc)

lemmas borrow_loop_unfold = borrow_loop.simps(2) [of 4, simplified] borrow_loop.simps(2) [of 3, simplified]

lemma unat_minus_1: "u \<noteq> 0 \<Longrightarrow> unat (u - 1) + 1 = unat u" for u :: u64
  by (simp add: unat_minus_one Suc_leI unat_gt_0)

lemma borrow_loop_val:
  assumes "0 < unat u7 + 2 ^ 64 * unat u8"
  shows "\<exists>v7 v8. borrow_loop 5 7 [w0, w1, w2, w3, w4, w5, u6, u7, u8, 0, 0, 0] = Some [w0, w1, w2, w3, w4, w5, u6, v7, v8, 0, 0, 0] \<and>
    unat v7 + 2 ^ 64 * unat v8 + 1 = unat u7 + 2 ^ 64 * unat u8"
proof (cases "u7 = 0")
  case False
  then show ?thesis using unat_minus_1 [OF False] by (simp add: borrow_loop_unfold list_update_12 Let_def)
next
  case True
  then have u8: "u8 \<noteq> 0" using assms by auto
  have "borrow_loop 5 7 [w0, w1, w2, w3, w4, w5, u6, u7, u8, 0, 0, 0] = Some [w0, w1, w2, w3, w4, w5, u6, - 1, u8 - 1, 0, 0, 0]"
    using True u8 by (simp add: borrow_loop_unfold list_update_12 Let_def)
  moreover have "unat (- 1 :: u64) = 2 ^ 64 - 1" by (simp add: unsigned_minus_1_eq_mask mask_eq_exp_minus_1)
  then have "unat (- 1 :: u64) + 2 ^ 64 * unat (u8 - 1) + 1 = unat u7 + 2 ^ 64 * unat u8"
    using True unat_minus_1 [OF u8] by simp
  ultimately show ?thesis by blast
qed

lemma vli_add_6:
  assumes "length x = 6" "length y = 6"
  obtains s1 s2 s3 s4 s5 s6 c where "vli_add x y = ([s1, s2, s3, s4, s5, s6], c)" "unat c \<le> 1"
    "val [s1, s2, s3, s4, s5, s6] + 2 ^ 384 * unat c = val x + val y"
proof -
  obtain s c where sc: "vli_add x y = (s, c)" by force
  from add_loop_val [OF _ _ sc [unfolded vli_add_def]] assms
  have "length s = 6" "val s + 2 ^ 384 * unat c = val x + val y" "unat c \<le> 1" by simp_all
  then show ?thesis using that sc by (metis length_6)
qed

lemma vli_sub_6:
  assumes "length x = 6" "length y = 6"
  obtains s1 s2 s3 s4 s5 s6 c where "vli_sub x y = ([s1, s2, s3, s4, s5, s6], c)" "unat c \<le> 1"
    "val [s1, s2, s3, s4, s5, s6] + val y = val x + 2 ^ 384 * unat c"
proof -
  obtain s c where sc: "vli_sub x y = (s, c)" by force
  from sub_loop_val [OF _ _ sc [unfolded vli_sub_def]] assms
  have "length s = 6" "val s + val y = val x + 2 ^ 384 * unat c" "unat c \<le> 1" by simp_all
  then show ?thesis using that sc by (metis length_6)
qed

lemma vli_lshift_6:
  assumes "length x = 6"
  obtains s1 s2 s3 s4 s5 s6 c where "vli_lshift x 32 = ([s1, s2, s3, s4, s5, s6], c)" "unat c < 2 ^ 32"
    "val [s1, s2, s3, s4, s5, s6] + 2 ^ 384 * unat c = val x * 2 ^ 32"
proof -
  obtain s c where sc: "vli_lshift x 32 = (s, c)" by force
  from lshift_loop_val [OF _ _ _ sc [unfolded vli_lshift_def]] assms
  have "length s = 6" "val s + 2 ^ 384 * unat c = val x * 2 ^ 32" "unat c < 2 ^ 32" by simp_all
  then show ?thesis using that sc by (metis length_6)
qed

lemma zeros_12: "vli_clear 6 @ vli_clear 6 = [0, 0, 0, 0, 0, 0, 0, 0, 0, 0, 0, 0]"
  by (simp add: vli_clear_def numeral_eq_Suc)

lemma omega_arith:
  fixes R :: nat
  assumes "T + 2 ^ 384 * c1 = R * 2 ^ 32" "S + 2 ^ 384 * c2 = R1 + T" "U + 2 ^ 384 * c3 = X + R" "W + T = Y + 2 ^ 384 * b"
    "s1 + 2 ^ 64 * X = S + 2 ^ 384 * (c1 + c2)" "r0 + 2 ^ 64 * R1 = R"
    "Y + 2 ^ 384 * (u6 + 2 ^ 64 * u7) = r0 + 2 ^ 64 * s1 + 2 ^ 128 * U"
  shows "W + 2 ^ 384 * (u6 + 2 ^ 64 * u7 + 2 ^ 128 * c3) = omega * R + 2 ^ 384 * (c1 + b)"
  using assms by simp

lemma omega_mult_val:
  assumes "length r = 6"
  shows "\<exists>x. omega_mult (vli_clear 6 @ vli_clear 6) r = Some x \<and> length x = 12 \<and> val x = omega * val r \<and> drop 9 x = [0, 0, 0]"
proof -
  from assms obtain r0 r1 r2 r3 r4 r5 where r: "r = [r0, r1, r2, r3, r4, r5]" by (rule length_6)
  obtain t0 t1 t2 t3 t4 t5 c1 where t: "vli_lshift r 32 = ([t0, t1, t2, t3, t4, t5], c1)" "unat c1 < 2 ^ 32"
    "val [t0, t1, t2, t3, t4, t5] + 2 ^ 384 * unat c1 = val r * 2 ^ 32" using assms by (rule vli_lshift_6)
  obtain s1 s2 s3 s4 s5 s6 c2 where s: "vli_add [r1, r2, r3, r4, r5, 0] [t0, t1, t2, t3, t4, t5] = ([s1, s2, s3, s4, s5, s6], c2)" "unat c2 \<le> 1"
    "val [s1, s2, s3, s4, s5, s6] + 2 ^ 384 * unat c2 = val [r1, r2, r3, r4, r5, 0] + val [t0, t1, t2, t3, t4, t5]"
    by (rule vli_add_6 [of "[r1, r2, r3, r4, r5, 0]" "[t0, t1, t2, t3, t4, t5]"]) auto
  obtain u2 u3 u4 u5 u6 u7 c3 where u: "vli_add [s2, s3, s4, s5, s6, c1 + c2] r = ([u2, u3, u4, u5, u6, u7], c3)" "unat c3 \<le> 1"
    "val [u2, u3, u4, u5, u6, u7] + 2 ^ 384 * unat c3 = val [s2, s3, s4, s5, s6, c1 + c2] + val r"
    using assms by (rule vli_add_6 [of "[s2, s3, s4, s5, s6, c1 + c2]" r, rotated]) auto
  obtain w0 w1 w2 w3 w4 w5 b where w: "vli_sub [r0, s1, u2, u3, u4, u5] [t0, t1, t2, t3, t4, t5] = ([w0, w1, w2, w3, w4, w5], b)" "unat b \<le> 1"
    "val [w0, w1, w2, w3, w4, w5] + val [t0, t1, t2, t3, t4, t5] = val [r0, s1, u2, u3, u4, u5] + 2 ^ 384 * unat b"
    by (rule vli_sub_6 [of "[r0, s1, u2, u3, u4, u5]" "[t0, t1, t2, t3, t4, t5]"]) auto
  have c12: "unat (c1 + c2) = unat c1 + unat c2" "unat (c1 + b) = unat c1 + unat b"
    using t(2) s(2) w(2) by (simp_all add: unat_add_less)
  have V: "val [w0, w1, w2, w3, w4, w5] + 2 ^ 384 * (unat u6 + 2 ^ 64 * unat u7 + 2 ^ 128 * unat c3)
      = omega * val r + 2 ^ 384 * (unat c1 + unat b)"
    by (rule omega_arith [OF t(3) s(3) u(3) w(3)]) (simp_all add: r c12)
  have om: "omega_mult (vli_clear 6 @ vli_clear 6) r = map_option (\<lambda>r. r[6 := u6 - (c1 + b)])
      (if u6 < u6 - (c1 + b) then borrow_loop 5 7 [w0, w1, w2, w3, w4, w5, u6, u7, c3, 0, 0, 0]
       else Some [w0, w1, w2, w3, w4, w5, u6, u7, c3, 0, 0, 0])"
    unfolding zeros_12 by (simp add: omega_mult_def write_at_def Let_def t(1) [unfolded r] s(1) u(1) [unfolded r] w(1) r list_update_12)
  define h where "h = unat u6 + 2 ^ 64 * unat u7 + 2 ^ 128 * unat c3"
  have wB: "val [w0, w1, w2, w3, w4, w5] < 2 ^ 384" using val_less [of "[w0, w1, w2, w3, w4, w5]"] by simp
  have ge: "unat c1 + unat b \<le> h"
  proof (rule ccontr)
    assume "\<not> unat c1 + unat b \<le> h"
    then have "2 ^ 384 * (h + 1) \<le> 2 ^ 384 * (unat c1 + unat b)" by (intro mult_le_mono2) simp
    then show False using V wB unfolding h_def [symmetric] by simp
  qed
  show ?thesis
  proof (cases "u6 < u6 - (c1 + b)")
    case False
    then have "unat (u6 - (c1 + b)) + (unat c1 + unat b) = unat u6"
      using c12(2) by (metis add.commute diff_add_cancel linorder_not_less unat_plus_simple word_sub_le_iff)
    then have "val [w0, w1, w2, w3, w4, w5, u6 - (c1 + b), u7, c3, 0, 0, 0] = omega * val r"
      using V by simp
    then show ?thesis using False by (simp add: om list_update_12)
  next
    case True
    define k where "k = c1 + b"
    have "unat u6 + 2 ^ 64 * (if u6 < k then 1 else 0) = unat (u6 - k) + unat k" using add_carry [of "u6 - k" k] by simp
    moreover have "unat u6 < unat (u6 - k)" using True by (simp add: k_def word_less_nat_alt)
    ultimately have d: "unat (u6 - k) + (unat c1 + unat b) = unat u6 + 2 ^ 64"
      using c12(2) unfolding k_def by (auto split: if_splits)
    moreover have "unat (u6 - k) < 2 ^ 64" using unat_bound [of "u6 - k"] by simp
    ultimately have "0 < unat u7 + 2 ^ 64 * unat c3" using ge unfolding h_def by (cases "unat u7 = 0 \<and> unat c3 = 0") auto
    from borrow_loop_val [OF this, of w0 w1 w2 w3 w4 w5 u6] obtain v7 v8 where
      v: "borrow_loop 5 7 [w0, w1, w2, w3, w4, w5, u6, u7, c3, 0, 0, 0] = Some [w0, w1, w2, w3, w4, w5, u6, v7, v8, 0, 0, 0]"
        "unat v7 + 2 ^ 64 * unat v8 + 1 = unat u7 + 2 ^ 64 * unat c3" by blast
    have "val [w0, w1, w2, w3, w4, w5, u6 - k, v7, v8, 0, 0, 0] = omega * val r" using V d v(2) by simp
    then show ?thesis using True v(1) by (simp add: om list_update_12 k_def)
  qed
qed

lemma fold_high_384_val:
  assumes "length x = 12"
  shows "\<exists>y. fold_high_384 x = Some y \<and> length y = 12 \<and> val y = val (take 6 x) + omega * val (drop 6 x)"
proof -
  have r: "length (drop 6 x) = 6" using assms by simp
  from omega_mult_val [OF r] obtain t where
    t: "omega_mult (vli_clear 6 @ vli_clear 6) (drop 6 x) = Some t" "length t = 12" "val t = omega * val (drop 6 x)" "drop 9 t = [0, 0, 0]"
    by blast
  define q where "q = take 6 x @ vli_clear 6"
  have q: "write_at 6 (vli_clear 6) x = q" "length q = 12" using assms by (simp_all add: write_at_def q_def vli_clear_def)
  have vq: "val q = val (take 6 x)" by (simp add: q_def val_append vli_clear_def)
  have dq: "drop 9 q = [0, 0, 0]" using assms by (simp add: q_def vli_clear_def numeral_eq_Suc)
  have v9: "val z = val (take 9 z)" if "length z = 12" "drop 9 z = [0, 0, 0]" for z
    using val_take_drop [of 9 z] that by simp
  obtain s c where sc: "add_loop (take 9 q) (take 9 t) 0 = (s, c)" by force
  from add_loop_val [OF _ _ sc] q(2) t(2)
  have s: "length s = 9" "val s + base 9 * unat c = val (take 9 q) + val (take 9 t)" by simp_all
  have tot: "val s + base 9 * unat c = val (take 6 x) + omega * val (drop 6 x)"
    using s(2) v9 [OF q(2) dq] v9 [OF t(2,4)] vq t(3) by simp
  have "unat c = 0"
  proof (rule ccontr)
    assume "unat c \<noteq> 0"
    then have "base 9 * 1 \<le> base 9 * unat c" by (intro mult_le_mono2) simp
    moreover have "val (take 6 x) < base 6" "val (drop 6 x) < base 6" using val_less [of "take 6 x"] val_less [of "drop 6 x"] assms by simp_all
    ultimately show False using tot by simp
  qed
  then have "val (write_at 0 s q) = val (take 6 x) + omega * val (drop 6 x)"
    using tot s(1) dq by (simp add: write_at_def val_append)
  moreover have "length (write_at 0 s q) = 12" using s(1) q(2) by (simp add: write_at_def)
  ultimately show ?thesis using t(1) q(1) sc by (simp add: fold_high_384_def Let_def)
qed

lemma fold_high_loop:
  assumes "length x = 12"
  shows "\<exists>y. while_option (\<lambda>q. case q of None \<Rightarrow> False | Some x \<Rightarrow> \<not> vli_isZero (drop 6 x))
        (\<lambda>q. case q of None \<Rightarrow> None | Some x \<Rightarrow> fold_high_384 x) (Some x) = Some (Some y) \<and>
     length y = 12 \<and> val (drop 6 y) = 0 \<and> val y mod val (curve_p secp384r1) = val x mod val (curve_p secp384r1)"
  using assms
proof (induction "val x" arbitrary: x rule: less_induct)
  case less
  show ?case
  proof (cases "val (drop 6 x) = 0")
    case True
    then show ?thesis using less.prems by (subst while_option_unfold) (simp add: vli_isZero_eq)
  next
    case False
    from fold_high_384_val [OF less.prems] obtain y where
      y: "fold_high_384 x = Some y" "length y = 12" "val y = val (take 6 x) + omega * val (drop 6 x)" by blast
    have "val x = val (take 6 x) + (val (curve_p secp384r1) + omega) * val (drop 6 x)"
      unfolding curve_p_384 using val_take_drop [of 6 x] less.prems by simp
    then have x: "val x = val y + val (curve_p secp384r1) * val (drop 6 x)" unfolding y(3) by (simp add: distrib_right del: curve_p.simps)
    then have "val y < val x" using False by simp
    from less.hyps [OF this y(2)] show ?thesis
      using False y(1) x by (subst while_option_unfold) (simp add: vli_isZero_eq del: curve_p.simps)
  qed
qed

lemma mmod_fast_384_eq:
  assumes "length x = 12"
  shows "\<exists>v. mmod_fast_384 x = Some (digits 6 v) \<and> v \<le> val (curve_p secp384r1) \<and> v mod val (curve_p secp384r1) = val x mod val (curve_p secp384r1)"
proof -
  let ?P = "val (curve_p secp384r1)"
  from fold_high_loop [OF assms] obtain y where
    y: "while_option (\<lambda>q. case q of None \<Rightarrow> False | Some x \<Rightarrow> \<not> vli_isZero (drop 6 x))
        (\<lambda>q. case q of None \<Rightarrow> None | Some x \<Rightarrow> fold_high_384 x) (Some x) = Some (Some y)"
      "length y = 12" "val (drop 6 y) = 0" "val y mod ?P = val x mod ?P" by blast
  define t where "t = take 6 y"
  have t: "length t = 6" "val t = val y" using y(2,3) val_take_drop [of 6 y] by (simp_all add: t_def)
  have cmp: "vli_cmp z (curve_p secp384r1) > 0 \<longleftrightarrow> ?P < val z" if "length z = 6" for z
    using vli_cmp_eq [OF that, of "curve_p secp384r1"] by (simp add: sgn_if del: val.simps)
  let ?b = "\<lambda>x. vli_cmp (take 6 x) (curve_p secp384r1) > 0"
  let ?c = "\<lambda>x. write_at 0 (fst (vli_sub (take 6 x) (curve_p secp384r1))) x"
  show ?thesis
  proof (cases "?P < val y")
    case False
    then have "while_option ?b ?c y = Some y" using cmp [OF t(1)] t by (subst while_option_unfold) (simp add: t_def)
    then have "mmod_fast_384 x = Some (digits 6 (val y))" using y(1) t digits_val [of t] by (simp add: mmod_fast_384_def t_def)
    then show ?thesis using False y(4) by (intro exI [of _ "val y"]) simp
  next
    case True
    have B: "val y < base 6" using val_less [of t] t by simp
    have sub: "fst (vli_sub t (curve_p secp384r1)) = digits 6 (val y - ?P)"
    proof -
      have "base 6 + val t - ?P = (val y - ?P) + base 6" using True t by simp
      then have "digits 6 (base 6 + val t - ?P) = digits 6 (val y - ?P)" by (metis digits_mod mod_add_self2)
      then show ?thesis using vli_sub_eq [OF t(1), of "curve_p secp384r1"] by simp
    qed
    have lt: "val y - ?P < base 6" "val y - ?P \<le> ?P" using B by simp_all
    have c: "?c y = digits 6 (val y - ?P) @ drop 6 y" using sub by (simp add: write_at_def t_def)
    have "while_option ?b ?c y = while_option ?b ?c (?c y)" using cmp [OF t(1)] True t by (subst while_option_unfold) (simp add: t_def)
    also have "\<dots> = Some (?c y)"
      unfolding c using cmp [of "digits 6 (val y - ?P)"] lt
      by (subst while_option_unfold) (simp add: val_digits_less del: curve_p.simps)
    finally have "mmod_fast_384 x = Some (digits 6 (val y - ?P))"
      unfolding c using y(1) by (simp add: mmod_fast_384_def del: curve_p.simps)
    moreover have "(val y - ?P) mod ?P = val y mod ?P" using True by (simp add: le_mod_geq)
    ultimately show ?thesis using lt y(4) by metis
  qed
qed

section \<open>Properties\<close>

lemma vli_mmod_fast_eq:
  assumes "C \<noteq> secp384r1" "length x = NUM_ECC_DIGITS C * 2"
  shows "vli_mmod_fast C x = Some (digits (NUM_ECC_DIGITS C) (val x mod val (curve_p C)))"
  using assms mmod_fast_128_eq [of x] mmod_fast_192_eq [of x] mmod_fast_256_eq [of x]
  by (cases C) (simp_all add: NUM_ECC_DIGITS_def del: curve_p.simps)

text \<open>
  C12. The fast reductions end and return a number congruent to the product modulo the prime of the
  curve, for every double-length input and all four curves; it is fully reduced for secp128r1, secp192r1
  and secp256r1, and at most the prime for secp384r1.
\<close>

theorem mmod_fast_reduces:
  assumes "length x = 2 * NUM_ECC_DIGITS C"
  shows "\<exists>r. vli_mmod_fast C x = Some r \<and> length r = NUM_ECC_DIGITS C \<and>
    val r mod val (curve_p C) = val x mod val (curve_p C) \<and>
    (if C = secp384r1 then val r \<le> val (curve_p C) else val r < val (curve_p C))"
proof (cases "C = secp384r1")
  case True
  from mmod_fast_384_eq [of x] assms True obtain v where
    v: "mmod_fast_384 x = Some (digits 6 v)" "v \<le> val (curve_p secp384r1)"
      "v mod val (curve_p secp384r1) = val x mod val (curve_p secp384r1)" by (auto simp: NUM_ECC_DIGITS_def simp del: curve_p.simps)
  have "val (digits 6 v) = v" using v(2) by (intro val_digits_less) simp
  then show ?thesis using v True by (simp add: NUM_ECC_DIGITS_def del: curve_p.simps)
next
  case False
  have "val x mod val (curve_p C) < val (curve_p C)" by (intro mod_less_divisor) (cases C; simp)
  moreover have "val (curve_p C) < base (NUM_ECC_DIGITS C)" using val_less [of "curve_p C"] by (cases C) (simp_all add: NUM_ECC_DIGITS_def)
  ultimately show ?thesis using False vli_mmod_fast_eq [OF False, of x] assms by (simp add: val_digits_less mult.commute del: curve_p.simps)
qed

theorem mmod_fast_reduces_witness:
  "\<exists>r. vli_mmod_fast secp256r1 [0, 0, 0, 0, 1, 0, 0, 0] = Some r \<and> val r = 2 ^ 224 - 2 ^ 192 - 2 ^ 96 + 1"
  using mmod_fast_reduces [of "[0, 0, 0, 0, 1, 0, 0, 0]" secp256r1] by (auto simp: NUM_ECC_DIGITS_def)

text \<open>
  For secp384r1 the last loop of the reduction stops at the prime itself, so a product equal to the prime is
  returned unreduced instead of as zero.
\<close>

theorem mmod_fast_384_unreduced:
  "vli_mmod_fast secp384r1 (curve_p secp384r1 @ vli_clear 6) = Some (curve_p secp384r1) \<and>
   val (curve_p secp384r1 @ vli_clear 6) mod val (curve_p secp384r1) = 0"
proof -
  have z: "vli_clear 6 = [0, 0, 0, 0, 0, 0]" by (simp add: vli_clear_def numeral_eq_Suc)
  have "vli_cmp (curve_p secp384r1) (curve_p secp384r1) = 0" using vli_cmp_eq [of "curve_p secp384r1" 6] by simp
  then have "vli_mmod_fast secp384r1 (curve_p secp384r1 @ vli_clear 6) = Some (curve_p secp384r1)"
    by (simp add: mmod_fast_384_def z while_option_unfold)
  then show ?thesis by (simp add: z val_append)
qed

end
