(* ===== verification/Mod_Arith.thy ===== *)
theory Mod_Arith
  imports Mod_Reduce
begin

unbundle bit_operations_syntax

text \<open>
  Arithmetic modulo an arbitrary number in \<^verbatim>\<open>emod_manager/attest/ecc.c\<close>: the binary inverse \<open>vli_modInv\<close>, used modulo
  the prime and the group order of a curve, and \<open>vli_modMult\<close>, used modulo the group order.

  The inverse is first described on numbers (\<open>inv_step_nat\<close>), where the invariant \<open>inv_ok\<close> and the decreasing measure are
  proved; the loop on arrays refines it. The multiplication keeps the product below twice the shifted modulus.
\<close>

section \<open>Operations\<close>

definition EVEN :: "vli \<Rightarrow> bool" where
  "EVEN x \<longleftrightarrow> x ! 0 AND 1 = 0"

text \<open>
  The halving that the four branches of \<open>vli_modInv\<close> share: add the modulus to an odd number, shift, and put
  the carry back as the top bit.
\<close>

definition inv_halve :: "vli \<Rightarrow> vli \<Rightarrow> vli" where
  "inv_halve u p_mod =
     (let (u, l_carry) = (if \<not> EVEN u then vli_add u p_mod else (u, 0));
          u = vli_rshift1 u
      in if l_carry \<noteq> 0 then u[length u - 1 := u ! (length u - 1) OR 0x8000000000000000] else u)"

definition inv_step :: "vli \<Rightarrow> vli \<times> vli \<times> vli \<times> vli \<Rightarrow> vli \<times> vli \<times> vli \<times> vli" where
  "inv_step p_mod = (\<lambda>(a, b, u, v).
     let l_cmpResult = vli_cmp a b in
     if EVEN a then (vli_rshift1 a, b, inv_halve u p_mod, v)
     else if EVEN b then (a, vli_rshift1 b, u, inv_halve v p_mod)
     else if l_cmpResult > 0 then
       (let a = vli_rshift1 (fst (vli_sub a b));
            u = (if vli_cmp u v < 0 then fst (vli_add u p_mod) else u);
            u = fst (vli_sub u v)
        in (a, b, inv_halve u p_mod, v))
     else
       (let b = vli_rshift1 (fst (vli_sub b a));
            v = (if vli_cmp v u < 0 then fst (vli_add v p_mod) else v);
            v = fst (vli_sub v u)
        in (a, b, u, inv_halve v p_mod)))"

definition vli_modInv :: "vli \<Rightarrow> vli \<Rightarrow> vli option" where
  "vli_modInv p_input p_mod =
     (let n = length p_mod in
      if vli_isZero p_input then Some (vli_clear n)
      else map_option (\<lambda>(a, b, u, v). u)
        (while_option (\<lambda>(a, b, u, v). vli_cmp a b \<noteq> 0) (inv_step p_mod)
          (p_input, p_mod, (vli_clear n)[0 := 1], vli_clear n)))"

text \<open>
  Multiplication modulo an arbitrary number, which the code calls with \<open>curve_n\<close> only. The array
  \<^verbatim>\<open>l_modMultiple\<close> has room for the modulus shifted by as many bits as it has itself; the top bit of
  \<open>curve_n\<close> is set, so every shift stays inside the array.
\<close>

definition modMult_step :: "nat \<Rightarrow> vli \<times> vli \<times> nat \<Rightarrow> vli \<times> vli \<times> nat" where
  "modMult_step n = (\<lambda>(l_product, l_modMultiple, l_productBits).
     let l_cmp = vli_cmp (drop n l_modMultiple) (drop n l_product);
         l_product =
           (if l_cmp < 0 \<or> l_cmp = 0 \<and> vli_cmp (take n l_modMultiple) (take n l_product) \<le> 0 then
              (let (lo, b) = vli_sub (take n l_product) (take n l_modMultiple);
                   hi = (if b \<noteq> 0 then fst (vli_sub (drop n l_product) ((vli_clear n)[0 := 1])) else drop n l_product);
                   hi = fst (vli_sub hi (drop n l_modMultiple))
               in lo @ hi)
            else l_product);
         l_carry = push_bit 63 (l_modMultiple ! n AND 0x01);
         hi = vli_rshift1 (drop n l_modMultiple);
         lo = vli_rshift1 (take n l_modMultiple);
         lo = lo[n - 1 := lo ! (n - 1) OR l_carry]
     in (l_product, lo @ hi, l_productBits - 1))"

definition vli_modMult :: "vli \<Rightarrow> vli \<Rightarrow> vli \<Rightarrow> vli option" where
  "vli_modMult p_left p_right p_mod =
     (let n = length p_mod;
          l_modBits = vli_numBits p_mod;
          l_product = vli_mult p_left p_right;
          l_productBits = vli_numBits (drop n l_product);
          l_productBits = (if l_productBits \<noteq> 0 then l_productBits + n * 64 else vli_numBits (take n l_product))
      in if l_productBits < l_modBits then Some (take n l_product)
      else
        (let l_digitShift = (l_productBits - l_modBits) div 64;
             l_bitShift = (l_productBits - l_modBits) mod 64;
             l_modMultiple = vli_clear n @ vli_clear n;
             l_modMultiple =
               (if l_bitShift \<noteq> 0 then
                  (let (s, c) = vli_lshift p_mod l_bitShift
                   in (write_at l_digitShift s l_modMultiple)[l_digitShift + n := c])
                else write_at l_digitShift p_mod l_modMultiple)
         in map_option (\<lambda>(l_product, l_modMultiple, l_productBits). take n l_product)
              (while_option (\<lambda>(l_product, l_modMultiple, l_productBits).
                  n * 64 < l_productBits \<or> vli_cmp (take n l_modMultiple) p_mod \<ge> 0)
                (modMult_step n) (l_product, l_modMultiple, l_productBits))))"

section \<open>The binary inverse on numbers\<close>

definition half_mod :: "nat \<Rightarrow> nat \<Rightarrow> nat" where
  "half_mod m u = (if even u then u div 2 else (u + m) div 2)"

definition sub_mod :: "nat \<Rightarrow> nat \<Rightarrow> nat \<Rightarrow> nat" where
  "sub_mod m u v = (if u < v then u + m - v else u - v)"

definition inv_step_nat :: "nat \<Rightarrow> nat \<times> nat \<times> nat \<times> nat \<Rightarrow> nat \<times> nat \<times> nat \<times> nat" where
  "inv_step_nat m = (\<lambda>(a, b, u, v).
     if even a then (a div 2, b, half_mod m u, v)
     else if even b then (a, b div 2, u, half_mod m v)
     else if b < a then ((a - b) div 2, b, half_mod m (sub_mod m u v), v)
     else (a, (b - a) div 2, u, half_mod m (sub_mod m v u)))"

text \<open>\<open>inv_rel m x a u\<close>: the coefficient \<open>u\<close> is reduced and \<open>u * x\<close> is congruent to \<open>a\<close>.\<close>

definition inv_rel :: "nat \<Rightarrow> nat \<Rightarrow> nat \<Rightarrow> nat \<Rightarrow> bool" where
  "inv_rel m x a u \<longleftrightarrow> u < m \<and> int m dvd int u * int x - int a"

definition inv_ok :: "nat \<Rightarrow> nat \<Rightarrow> nat \<times> nat \<times> nat \<times> nat \<Rightarrow> bool" where
  "inv_ok m x = (\<lambda>(a, b, u, v). 0 < a \<and> 0 < b \<and> (odd a \<or> odd b) \<and> gcd a b = gcd x m \<and>
     inv_rel m x a u \<and> inv_rel m x b v)"

lemma half_mod_less: "odd m \<Longrightarrow> u < m \<Longrightarrow> half_mod m u < m"
  by (simp add: half_mod_def) presburger

lemma half_mod_twice: "odd m \<Longrightarrow> 2 * half_mod m u = u \<or> 2 * half_mod m u = u + m"
  by (auto simp: half_mod_def)

lemma inv_rel_half:
  assumes "odd m" "inv_rel m x a u" "even a"
  shows "inv_rel m x (a div 2) (half_mod m u)"
proof -
  have u: "u < m" "int m dvd int u * int x - int a" using assms(2) by (simp_all add: inv_rel_def)
  have a: "2 * int (a div 2) = int a" using dvd_mult_div_cancel [OF assms(3)] by linarith
  have "int m dvd 2 * int (half_mod m u) * int x - int a"
    using half_mod_twice [OF assms(1), of u]
  proof
    assume "2 * half_mod m u = u"
    then have "2 * int (half_mod m u) = int u" by linarith
    then show ?thesis using u(2) by simp
  next
    assume "2 * half_mod m u = u + m"
    then have "2 * int (half_mod m u) = int u + int m" by linarith
    then have "2 * int (half_mod m u) * int x - int a = (int u * int x - int a) + int m * int x" by (simp add: algebra_simps)
    then show ?thesis using dvd_add [OF u(2) dvd_triv_left [of "int m" "int x"]] by (simp only:)
  qed
  then have "int m dvd 2 * (int (half_mod m u) * int x - int (a div 2))" by (simp add: a right_diff_distrib mult.assoc)
  moreover have "coprime (int m) 2" using assms(1) by (simp add: coprime_right_2_iff_odd)
  ultimately have "int m dvd int (half_mod m u) * int x - int (a div 2)" by (simp only: coprime_dvd_mult_right_iff)
  then show ?thesis using half_mod_less [OF assms(1) u(1)] by (simp add: inv_rel_def)
qed

lemma inv_rel_sub:
  assumes "inv_rel m x a u" "inv_rel m x b v" "b \<le> a"
  shows "inv_rel m x (a - b) (sub_mod m u v)"
proof -
  have uv: "u < m" "v < m" "int m dvd int u * int x - int a" "int m dvd int v * int x - int b"
    using assms by (simp_all add: inv_rel_def)
  have d: "int m dvd (int u * int x - int a) - (int v * int x - int b)" using uv(3,4) by (rule dvd_diff)
  show ?thesis
  proof (cases "u < v")
    case True
    then have "int (sub_mod m u v) * int x - int (a - b) = (int u * int x - int a) - (int v * int x - int b) + int m * int x"
      using uv assms(3) by (simp add: sub_mod_def algebra_simps)
    then have "int m dvd int (sub_mod m u v) * int x - int (a - b)"
      using dvd_add [OF d dvd_triv_left [of "int m" "int x"]] by (simp only:)
    then show ?thesis using True uv by (simp add: inv_rel_def sub_mod_def)
  next
    case False
    then have "int (sub_mod m u v) * int x - int (a - b) = (int u * int x - int a) - (int v * int x - int b)"
      using assms(3) by (simp add: sub_mod_def algebra_simps of_nat_diff)
    then have "int m dvd int (sub_mod m u v) * int x - int (a - b)" using d by (simp only:)
    then show ?thesis using False uv by (simp add: inv_rel_def sub_mod_def)
  qed
qed

lemma gcd_half: "odd b \<Longrightarrow> even a \<Longrightarrow> gcd (a div 2) b = gcd a b" for a b :: nat
  by (elim evenE) (simp add: gcd_mult_left_left_cancel coprime_right_2_iff_odd)

lemma gcd_half': "odd a \<Longrightarrow> even b \<Longrightarrow> gcd a (b div 2) = gcd a b" for a b :: nat
  unfolding gcd.commute [of a] by (rule gcd_half)

lemma inv_step_ok:
  assumes "odd m" "inv_ok m x s" "fst s \<noteq> fst (snd s)"
  shows "inv_ok m x (inv_step_nat m s)"
    "fst (inv_step_nat m s) + fst (snd (inv_step_nat m s)) < fst s + fst (snd s)"
proof -
  obtain a b u v where s: "s = (a, b, u, v)" by (metis prod_cases4)
  have ok: "0 < a" "0 < b" "odd a \<or> odd b" "gcd a b = gcd x m" "inv_rel m x a u" "inv_rel m x b v" "a \<noteq> b"
    using assms s by (simp_all add: inv_ok_def)
  consider "even a" | "odd a" "even b" | "odd a" "odd b" "b < a" | "odd a" "odd b" "a < b" using ok(7) by linarith
  then have "inv_ok m x (inv_step_nat m s) \<and> fst (inv_step_nat m s) + fst (snd (inv_step_nat m s)) < fst s + fst (snd s)"
  proof cases
    case 1
    then have "0 < a div 2" "odd b" using ok by auto
    then show ?thesis using 1 ok inv_rel_half [OF assms(1) ok(5) 1] by (simp add: s inv_step_nat_def inv_ok_def gcd_half)
  next
    case 2
    then have "0 < b div 2" using ok by auto
    then show ?thesis using 2 ok inv_rel_half [OF assms(1) ok(6) 2(2)] by (simp add: s inv_step_nat_def inv_ok_def gcd_half')
  next
    case 3
    have "even (a - b)" using 3 by simp
    moreover from this have "0 < (a - b) div 2" using 3(3) by presburger
    ultimately have e: "even (a - b)" "0 < (a - b) div 2" .
    have "gcd ((a - b) div 2) b = gcd x m" using gcd_half [OF 3(2) e(1)] gcd_diff1_nat [of b a] 3 ok by simp
    then show ?thesis using 3 e ok inv_rel_half [OF assms(1) inv_rel_sub [OF ok(5,6)] e(1)]
      by (simp add: s inv_step_nat_def inv_ok_def)
  next
    case 4
    have "even (b - a)" using 4 by simp
    moreover from this have "0 < (b - a) div 2" using 4(3) by presburger
    ultimately have e: "even (b - a)" "0 < (b - a) div 2" .
    have "gcd a ((b - a) div 2) = gcd x m" using gcd_half' [OF 4(1) e(1)] gcd_diff1_nat [of a b] 4 ok by (simp add: gcd.commute)
    then show ?thesis using 4 e ok inv_rel_half [OF assms(1) inv_rel_sub [OF ok(6,5)] e(1)]
      by (simp add: s inv_step_nat_def inv_ok_def)
  qed
  then show "inv_ok m x (inv_step_nat m s)"
    "fst (inv_step_nat m s) + fst (snd (inv_step_nat m s)) < fst s + fst (snd s)" by simp_all
qed

section \<open>The inverse on arrays\<close>

lemma EVEN_iff: "0 < length x \<Longrightarrow> EVEN x \<longleftrightarrow> even (val x)"
proof (cases x)
  case (Cons d ds)
  have "EVEN x \<longleftrightarrow> unat (d mod 2) = 0" by (simp only: EVEN_def Cons nth_Cons_0 and_one_eq unat_eq_0)
  then have "EVEN x \<longleftrightarrow> even (unat d)" by (simp add: unat_mod_u64 even_iff_mod_2_eq_zero)
  then show ?thesis by (simp add: Cons)
qed simp

lemma val_update:
  assumes "i < length x"
  shows "val (x[i := d]) + base i * unat (x ! i) = val x + base i * unat d"
proof -
  have "val (x[i := d]) = val (take i x) + base i * (unat d + 2 ^ 64 * val (drop (Suc i) x))"
    using assms by (simp add: upd_conv_take_nth_drop val_append min_absorb2)
  moreover have "val x = val (take i x) + base i * (unat (x ! i) + 2 ^ 64 * val (drop (Suc i) x))"
    using val_append [of "take i x" "x ! i # drop (Suc i) x"] assms by (simp add: id_take_nth_drop [symmetric] min_absorb2)
  ultimately show ?thesis by (simp add: distrib_left)
qed

lemma set_top_bit:
  assumes "length x = n" "0 < n" "val x < 2 ^ (64 * n - 1)"
  shows "x[n - 1 := x ! (n - 1) OR push_bit 63 1] = digits n (val x + 2 ^ (64 * n - 1))"
    "x[n - 1 := x ! (n - 1) OR 0x8000000000000000] = digits n (val x + 2 ^ (64 * n - 1))"
proof -
  obtain k where n: "n = Suc k" using assms(2) by (cases n) simp_all
  have p: "2 ^ (64 * n - 1) = base k * 2 ^ 63" by (simp add: n power_add)
  have "val x = val (take k x) + base k * unat (x ! k)" using val_take_Suc [of k x] assms(1) n by simp
  then have "base k * unat (x ! k) < base k * 2 ^ 63" using assms(3) unfolding p by linarith
  then have lt: "unat (x ! k) < 2 ^ 63" by simp
  have "unat (x ! k OR push_bit 63 1) = unat (x ! k) + 2 ^ 63" using unat_or_push [OF lt, of 1] by simp
  then have "val (x[k := x ! k OR push_bit 63 1]) = val x + base k * 2 ^ 63"
    using val_update [of k x "x ! k OR push_bit 63 1"] assms(1) n by (simp add: distrib_left)
  moreover have "val x + base k * 2 ^ 63 < base n" using assms(3) unfolding p by (simp add: n power_add)
  ultimately show 1: "x[n - 1 := x ! (n - 1) OR push_bit 63 1] = digits n (val x + 2 ^ (64 * n - 1))"
    unfolding p using assms(1) by (intro vli_eqI) (simp_all add: n)
  have "(push_bit 63 1 :: u64) = 0x8000000000000000" by simp
  with 1 show "x[n - 1 := x ! (n - 1) OR 0x8000000000000000] = digits n (val x + 2 ^ (64 * n - 1))" by (simp only:)
qed

lemma rshift_carry:
  assumes "length x = n" "0 < n" "v < 2 * base n" "x = digits n v"
  shows "(if base n \<le> v then (vli_rshift1 x)[n - 1 := vli_rshift1 x ! (n - 1) OR push_bit 63 1] else vli_rshift1 x) = digits n (v div 2)"
proof (cases "base n \<le> v")
  case True
  have B: "base n = 2 * 2 ^ (64 * n - 1)" using assms(2) by (simp flip: power_Suc)
  have "val x = v - base n" unfolding assms(4) val_digits using True assms(3) by (rule mod_once)
  then have h: "val x div 2 < 2 ^ (64 * n - 1)" "val x div 2 + 2 ^ (64 * n - 1) = v div 2"
    using True assms(3) unfolding B by simp_all
  then have "val (vli_rshift1 x) = val x div 2" using vli_rshift1_eq [OF assms(1)] B by (simp add: val_digits)
  then show ?thesis using set_top_bit(1) [of "vli_rshift1 x" n] vli_rshift1_eq [OF assms(1)] assms(2) h True by simp
next
  case False
  then have "val x = v" using assms(4) by (simp add: val_digits)
  then show ?thesis using False vli_rshift1_eq [OF assms(1)] by simp
qed

lemma inv_halve_eq:
  assumes "length u = n" "length m = n" "0 < n" "val u < val m"
  shows "inv_halve u m = digits n (half_mod (val m) (val u))"
proof (cases "EVEN u")
  case True
  then show ?thesis using EVEN_iff [of u] assms vli_rshift1_eq [of u n] by (simp add: inv_halve_def half_mod_def)
next
  case False
  have b: "val u < base n" "val m < base n" using val_less [of u] val_less [of m] assms by simp_all
  have p: "(0x8000000000000000 :: u64) = push_bit 63 1" by simp
  show ?thesis
    using False EVEN_iff [of u] assms b rshift_carry [of "digits n (val u + val m)" n "val u + val m"]
    by (simp only: inv_halve_def vli_add_eq [OF assms(1,2)] Let_def prod.case p half_mod_def bool_u64_def length_digits)
      (simp add: vli_rshift1_eq [of "digits n (val u + val m)" n] split: if_splits)
qed

lemma sub_mod_eq:
  assumes "length u = n" "length v = n" "length m = n" "val u < val m" "val v < val m"
  shows "fst (vli_sub (if vli_cmp u v < 0 then fst (vli_add u m) else u) v) = digits n (sub_mod (val m) (val u) (val v))"
proof -
  have m: "val m < base n" using val_less [of m] assms by simp
  have c: "vli_cmp u v < 0 \<longleftrightarrow> val u < val v" using vli_cmp_eq [OF assms(1,2)] by (simp add: sgn_if)
  show ?thesis
  proof (cases "val u < val v")
    case True
    have "(base n + (val u + val m) mod base n - val v) mod base n = (val u + val m - val v) mod base n"
    proof (cases "val u + val m < base n")
      case True
      then have "base n + (val u + val m) mod base n - val v = val u + val m - val v + base n" using assms by simp
      then show ?thesis by (simp only: mod_add_self2)
    next
      case False
      then have "(val u + val m) mod base n = val u + val m - base n" using assms m by (intro mod_once) simp_all
      then show ?thesis using False by simp
    qed
    then have "digits n (base n + (val u + val m) mod base n - val v) = digits n (val u + val m - val v)" by (metis digits_mod)
    then show ?thesis using True c assms by (simp add: vli_add_eq vli_sub_eq val_digits sub_mod_def)
  next
    case False
    then have "base n + val u - val v = val u - val v + base n" by simp
    then have "digits n (base n + val u - val v) = digits n (val u - val v)" by (metis digits_mod mod_add_self2)
    then show ?thesis using False c assms by (simp add: vli_sub_eq sub_mod_def)
  qed
qed

definition vals :: "vli \<times> vli \<times> vli \<times> vli \<Rightarrow> nat \<times> nat \<times> nat \<times> nat" where
  "vals = (\<lambda>(a, b, u, v). (val a, val b, val u, val v))"

definition len4 :: "nat \<Rightarrow> vli \<times> vli \<times> vli \<times> vli \<Rightarrow> bool" where
  "len4 n = (\<lambda>(a, b, u, v). length a = n \<and> length b = n \<and> length u = n \<and> length v = n)"

lemma sub_rshift1:
  assumes "length a = n" "length b = n" "val b \<le> val a"
  shows "vli_rshift1 (fst (vli_sub a b)) = digits n ((val a - val b) div 2)"
proof -
  have "base n + val a - val b = val a - val b + base n" using assms(3) by simp
  then have "digits n (base n + val a - val b) = digits n (val a - val b)" by (metis digits_mod mod_add_self2)
  moreover have "val a - val b < base n" using val_less [of a] assms(1) by simp
  ultimately show ?thesis using assms vli_rshift1_eq [of "digits n (val a - val b)" n] by (simp add: vli_sub_eq val_digits_less)
qed

lemma inv_step_refines:
  assumes "0 < n" "length m = n" "odd (val m)" "len4 n s" "inv_ok (val m) x (vals s)"
  shows "len4 n (inv_step m s) \<and> vals (inv_step m s) = inv_step_nat (val m) (vals s)"
proof -
  obtain a b u v where s: "s = (a, b, u, v)" by (metis prod_cases4)
  have len: "length a = n" "length b = n" "length u = n" "length v = n" using assms(4) by (simp_all add: s len4_def)
  have uv: "val u < val m" "val v < val m" using assms(5) by (simp_all add: s vals_def inv_ok_def inv_rel_def)
  have lt: "val a < base n" "val b < base n" "val m < base n" using val_less [of a] val_less [of b] val_less [of m] len assms(2) by simp_all
  have par: "EVEN a \<longleftrightarrow> even (val a)" "EVEN b \<longleftrightarrow> even (val b)" using EVEN_iff [of a] EVEN_iff [of b] len assms(1) by simp_all
  have c: "vli_cmp a b > 0 \<longleftrightarrow> val b < val a" using vli_cmp_eq [OF len(1,2)] by (simp add: sgn_if)
  have hm: "half_mod (val m) w < base n" if "w < val m" for w using half_mod_less [OF assms(3) that] lt(3) by simp
  have sm: "sub_mod (val m) (val u) (val v) < val m" "sub_mod (val m) (val v) (val u) < val m"
    using uv by (auto simp: sub_mod_def)
  then have sb: "sub_mod (val m) (val u) (val v) < base n" "sub_mod (val m) (val v) (val u) < base n" using lt(3) by simp_all
  note eqs = vli_rshift1_eq [OF len(1)] vli_rshift1_eq [OF len(2)] inv_halve_eq [OF len(3) assms(2,1) uv(1)] inv_halve_eq [OF len(4) assms(2,1) uv(2)]
    sub_mod_eq [OF len(3,4) assms(2) uv] sub_mod_eq [OF len(4,3) assms(2) uv(2,1)]
    inv_halve_eq [of "digits n (sub_mod (val m) (val u) (val v))" n m] inv_halve_eq [of "digits n (sub_mod (val m) (val v) (val u))" n m]
  consider "EVEN a" | "\<not> EVEN a" "EVEN b" | "\<not> EVEN a" "\<not> EVEN b" "val b < val a" | "\<not> EVEN a" "\<not> EVEN b" "\<not> val b < val a" by blast
  then show ?thesis
  proof cases
    case 1
    then show ?thesis using lt uv hm by (simp add: s inv_step_def inv_step_nat_def vals_def len4_def len eqs par val_digits_less)
  next
    case 2
    then show ?thesis using lt uv hm by (simp add: s inv_step_def inv_step_nat_def vals_def len4_def len eqs par val_digits_less)
  next
    case 3
    then show ?thesis using lt uv hm sm sb assms(1,2) sub_rshift1 [OF len(1,2)]
      by (simp add: s inv_step_def Let_def inv_step_nat_def vals_def len4_def len eqs par c val_digits_less)
  next
    case 4
    then show ?thesis using lt uv hm sm sb assms(1,2) sub_rshift1 [OF len(2,1)]
      by (simp add: s inv_step_def Let_def inv_step_nat_def vals_def len4_def len eqs par c val_digits_less)
  qed
qed

lemma inv_loop:
  assumes "0 < n" "length m = n" "odd (val m)" "len4 n s" "inv_ok (val m) x (vals s)"
  shows "\<exists>a b u v. while_option (\<lambda>(a, b, u, v). vli_cmp a b \<noteq> 0) (inv_step m) s = Some (a, b, u, v) \<and>
    length u = n \<and> inv_rel (val m) x (gcd x (val m)) (val u)"
  using assms(4,5)
proof (induction "fst (vals s) + fst (snd (vals s))" arbitrary: s rule: less_induct)
  case less
  obtain a b u v where s: "s = (a, b, u, v)" by (metis prod_cases4)
  have len: "length a = n" "length b = n" "length u = n" using less.prems(1) by (simp_all add: s len4_def)
  have c: "vli_cmp a b \<noteq> 0 \<longleftrightarrow> val a \<noteq> val b" using vli_cmp_eq [OF len(1,2)] by (simp add: sgn_if)
  show ?case
  proof (cases "val a = val b")
    case True
    then have "inv_rel (val m) x (gcd x (val m)) (val u)" using less.prems(2) by (auto simp: s vals_def inv_ok_def)
    then show ?thesis using True c len by (subst while_option_unfold) (simp add: s)
  next
    case False
    note r = inv_step_refines [OF assms(1-3) less.prems]
    have "fst (vals s) \<noteq> fst (snd (vals s))" using False by (simp add: s vals_def)
    note st = inv_step_ok [OF assms(3) less.prems(2) this]
    from r st less.hyps [of "inv_step m s"] have "\<exists>a b u v. while_option (\<lambda>(a, b, u, v). vli_cmp a b \<noteq> 0) (inv_step m) (inv_step m s) = Some (a, b, u, v) \<and>
      length u = n \<and> inv_rel (val m) x (gcd x (val m)) (val u)" by simp
    moreover have "while_option (\<lambda>(a, b, u, v). vli_cmp a b \<noteq> 0) (inv_step m) s = while_option (\<lambda>(a, b, u, v). vli_cmp a b \<noteq> 0) (inv_step m) (inv_step m s)"
      using False c by (subst while_option_unfold) (simp add: s)
    ultimately show ?thesis by simp
  qed
qed

lemma vli_modInv_gcd:
  assumes "length x = n" "length m = n" "0 < n" "odd (val m)" "1 < val m" "0 < val x"
  shows "\<exists>r. vli_modInv x m = Some r \<and> length r = n \<and> inv_rel (val m) (val x) (gcd (val x) (val m)) (val r)"
proof -
  have one: "(vli_clear n)[0 := 1] = digits n 1" using assms(3) by (cases n) (simp_all add: vli_clear_def flip: vli_clear_eq)
  have v1: "val (digits n (Suc 0)) = 1" "val (digits n 0) = 0" using assms(3) by (simp_all add: val_digits)
  have "inv_ok (val m) (val x) (vals (x, m, digits n 1, digits n 0))"
    using assms by (simp add: inv_ok_def vals_def v1 inv_rel_def)
  moreover have "len4 n (x, m, digits n 1, digits n 0)" using assms by (simp add: len4_def)
  ultimately obtain a b u v where
    "while_option (\<lambda>(a, b, u, v). vli_cmp a b \<noteq> 0) (inv_step m) (x, m, digits n 1, digits n 0) = Some (a, b, u, v)"
    "length u = n" "inv_rel (val m) (val x) (gcd (val x) (val m)) (val u)"
    using inv_loop [OF assms(3,2,4), of "(x, m, digits n 1, digits n 0)" "val x"] by blast
  moreover from this(1) have "vli_modInv x m = Some u"
    unfolding vli_modInv_def Let_def assms(2) one unfolding vli_clear_eq vli_isZero_eq using assms(6) by simp
  ultimately show ?thesis by blast
qed

lemma vli_modInv_eq:
  assumes "length x = n" "length m = n" "0 < n" "odd (val m)" "1 < val m" "coprime (val x) (val m)"
  shows "\<exists>r. vli_modInv x m = Some r \<and> length r = n \<and> val r < val m \<and> val r * val x mod val m = 1"
proof -
  have "0 < val x" using assms(5,6) by (intro gr0I) simp
  from vli_modInv_gcd [OF assms(1-5) this] assms(6) obtain r where
    r: "vli_modInv x m = Some r" "length r = n" "val r < val m" "int (val m) dvd int (val r) * int (val x) - 1"
    by (auto simp: inv_rel_def)
  have "int (val r * val x) mod int (val m) = 1 mod int (val m)" using r(4) by (simp add: mod_eq_dvd_iff)
  then have "val r * val x mod val m = 1" using assms(5) by (metis of_nat_1 of_nat_eq_iff of_nat_mod mod_less)
  then show ?thesis using r by blast
qed

section \<open>Multiplication modulo a number\<close>

lemma val_halves: "length p = n * 2 \<Longrightarrow> val p = val (take n p) + base n * val (drop n p)"
  by (rule val_take_drop) simp

lemma base_double: "base (n * 2) = base n * base n"
  by (simp add: mult_2_right distrib_left flip: power_add)

lemma double_cmp:
  assumes "length p = n * 2" "length q = n * 2"
  shows "(vli_cmp (drop n q) (drop n p) < 0 \<or> vli_cmp (drop n q) (drop n p) = 0 \<and> vli_cmp (take n q) (take n p) \<le> 0) \<longleftrightarrow> val q \<le> val p"
proof -
  define pl ph ql qh where "pl = val (take n p)" and "ph = val (drop n p)" and "ql = val (take n q)" and "qh = val (drop n q)"
  have b: "pl < base n" "ql < base n" using val_less [of "take n p"] val_less [of "take n q"] assms by (simp_all add: pl_def ql_def min_absorb2)
  have cmp: "vli_cmp (drop n q) (drop n p) = sgn (int qh - int ph)" "vli_cmp (take n q) (take n p) = sgn (int ql - int pl)"
    unfolding pl_def ph_def ql_def qh_def using assms by (auto intro: vli_cmp_eq [where n = n])
  have lt: "x + base n * h < base n * (h + 1)" if "x < base n" for x h using that by simp
  have mono: "base n * (h + 1) \<le> base n * k" if "h < k" for h k using that by (intro mult_le_mono2) simp
  have "ql + base n * qh \<le> pl + base n * ph \<longleftrightarrow> qh < ph \<or> qh = ph \<and> ql \<le> pl"
  proof (cases qh ph rule: linorder_cases)
    case less
    then show ?thesis using lt [OF b(2), of qh] mono [OF less] by linarith
  next
    case greater
    then show ?thesis using lt [OF b(1), of ph] mono [OF greater] by linarith
  qed simp
  then show ?thesis using val_halves [OF assms(1)] val_halves [OF assms(2)]
    by (simp add: cmp sgn_if pl_def ph_def ql_def qh_def)
qed

lemma double_sub:
  assumes "length p = n * 2" "length q = n * 2" "0 < n" "val q \<le> val p"
    and "vli_sub (take n p) (take n q) = (lo, b)"
  defines "hi \<equiv> fst (vli_sub (if b \<noteq> 0 then fst (vli_sub (drop n p) ((vli_clear n)[0 := 1])) else drop n p) (drop n q))"
  shows "lo @ hi = digits (n * 2) (val p - val q)"
proof -
  define one where "one = (vli_clear n)[0 := 1]"
  have one: "length one = n" "val one = 1"
    using assms(3) by (cases n; simp add: one_def vli_clear_def)+
  define h1 where "h1 = (if b \<noteq> 0 then fst (vli_sub (drop n p) one) else drop n p)"
  obtain r2 b2 where r2: "vli_sub (drop n p) one = (r2, b2)" by force
  obtain r3 b3 where r3: "vli_sub h1 (drop n q) = (r3, b3)" by force
  have hi: "hi = r3" unfolding hi_def one_def [symmetric] h1_def [symmetric] r3 by simp
  note s1 = sub_loop_val [OF _ _ assms(5) [unfolded vli_sub_def]] and s2 = sub_loop_val [OF _ _ r2 [unfolded vli_sub_def]]
    and s3 = sub_loop_val [OF _ _ r3 [unfolded vli_sub_def]]
  have lo: "length lo = n" "val lo + val (take n q) = val (take n p) + base n * unat b" "unat b \<le> 1"
    using s1 assms(1,2) by (simp_all add: min_absorb2)
  have r2v: "length r2 = n" "val r2 + 1 = val (drop n p) + base n * unat b2" using s2 assms(1) one by simp_all
  have h1: "length h1 = n" using r2v assms(1) by (simp add: h1_def r2)
  have "\<exists>c. val h1 + unat b = val (drop n p) + base n * c"
  proof (cases "b = 0")
    case True
    then show ?thesis by (intro exI [of _ 0]) (simp add: h1_def)
  next
    case False
    then have "unat b = 1" using lo(3) unat_gt_0 [of b] by linarith
    then show ?thesis using False r2v(2) by (intro exI [of _ "unat b2"]) (simp add: h1_def r2)
  qed
  then obtain c where c: "val h1 + unat b = val (drop n p) + base n * c" by blast
  have r3v: "length r3 = n" "val r3 + val (drop n q) = val h1 + base n * unat b3" using s3 h1 assms(2) by simp_all
  have "val r3 + val (drop n q) + unat b = val (drop n p) + base n * (c + unat b3)" using c r3v(2) by (simp add: distrib_left)
  then have "base n * (val r3 + val (drop n q) + unat b) = base n * (val (drop n p) + base n * (c + unat b3))" by (simp only:)
  then have tot: "val lo + base n * val r3 + val q = val p + base (n * 2) * (c + unat b3)"
    using lo(2) unfolding val_halves [OF assms(1)] val_halves [OF assms(2)] base_double by (simp add: distrib_left mult.assoc)
  have v: "val (lo @ hi) = val lo + base n * val r3" by (simp add: val_append lo(1) hi)
  moreover have B: "val (lo @ hi) < base (n * 2)" using val_less [of "lo @ hi"] lo(1) r3v(1) hi by (simp add: mult_2_right)
  moreover have "c + unat b3 = 0"
  proof (rule ccontr)
    assume "c + unat b3 \<noteq> 0"
    then have "base (n * 2) * 1 \<le> base (n * 2) * (c + unat b3)" by (intro mult_le_mono2) linarith
    then show False using tot B v assms(4) by linarith
  qed
  ultimately have "val (lo @ hi) = val p - val q" using tot by simp
  then show ?thesis using B lo(1) r3v(1) hi by (intro vli_eqI) (simp_all add: mult_2_right)
qed

lemma double_rshift:
  assumes "length q = n * 2" "0 < n"
  defines "lo \<equiv> vli_rshift1 (take n q)"
  shows "lo[n - 1 := lo ! (n - 1) OR push_bit 63 (q ! n AND 1)] @ vli_rshift1 (drop n q) = digits (n * 2) (val q div 2)"
proof -
  have len: "length (take n q) = n" "length (drop n q) = n" using assms by simp_all
  have B: "base n = 2 * 2 ^ (64 * n - 1)" using assms(2) by (simp flip: power_Suc)
  have lt: "val (take n q) div 2 < 2 ^ (64 * n - 1)" "val (drop n q) < base n" using val_less [of "take n q"] val_less [of "drop n q"] len B by simp_all
  have lo: "length lo = n" "val lo = val (take n q) div 2" using vli_rshift1_eq [OF len(1)] lt(1) B by (simp_all add: lo_def val_digits)
  have hd: "EVEN (drop n q) \<longleftrightarrow> q ! n AND 1 = 0" using assms by (simp add: EVEN_def)
  have ev: "EVEN (drop n q) \<longleftrightarrow> even (val (drop n q))" using EVEN_iff [of "drop n q"] len assms(2) by simp
  have top: "lo[n - 1 := lo ! (n - 1) OR push_bit 63 (q ! n AND 1)] = digits n (val (take n q) div 2 + 2 ^ (64 * n - 1) * (val (drop n q) mod 2))"
  proof (cases "even (val (drop n q))")
    case True
    then have "q ! n AND 1 = 0" using hd ev by simp
    then show ?thesis using True lo digits_val [of lo] by simp
  next
    case False
    then have "q ! n AND 1 = 1" using hd ev by (simp add: and_one_eq)
    then have "lo[n - 1 := lo ! (n - 1) OR push_bit 63 (q ! n AND 1)] = lo[n - 1 := lo ! (n - 1) OR push_bit 63 1]" by simp
    also have "\<dots> = digits n (val lo + 2 ^ (64 * n - 1))" by (rule set_top_bit(1)) (use lo lt(1) assms(2) in simp_all)
    finally show ?thesis using False lo(2) by (simp add: odd_iff_mod_2_eq_one)
  qed
  define x where "x = val (take n q) div 2 + 2 ^ (64 * n - 1) * (val (drop n q) mod 2)"
  have "2 ^ (64 * n - 1) * (val (drop n q) mod 2) \<le> 2 ^ (64 * n - 1) * 1" by (intro mult_le_mono2) simp
  then have x: "x < base n" using lt(1) unfolding x_def B by linarith
  have h: "val (vli_rshift1 (drop n q)) = val (drop n q) div 2" "length (vli_rshift1 (drop n q)) = n"
    using vli_rshift1_eq [OF len(2)] lt(2) by (simp_all add: val_digits)
  have "val q div 2 = x + base n * (val (drop n q) div 2)"
  proof -
    have "val q = val (take n q) + 2 * (2 ^ (64 * n - 1) * val (drop n q))" using val_halves [OF assms(1)] B by simp
    then have "val q div 2 = val (take n q) div 2 + 2 ^ (64 * n - 1) * val (drop n q)" by simp
    also have "2 ^ (64 * n - 1) * val (drop n q) = 2 ^ (64 * n - 1) * (val (drop n q) mod 2 + 2 * (val (drop n q) div 2))" by simp
    also have "\<dots> = 2 ^ (64 * n - 1) * (val (drop n q) mod 2) + 2 * 2 ^ (64 * n - 1) * (val (drop n q) div 2)"
      by (simp only: distrib_left mult.assoc mult.left_commute)
    finally show ?thesis unfolding x_def B by (simp only: add.assoc)
  qed
  then have "val (digits n x @ vli_rshift1 (drop n q)) = val q div 2" using x h by (simp add: val_append val_digits_less)
  moreover have "val q div 2 < base (n * 2)" using val_less [of q] assms(1) by simp
  ultimately show ?thesis unfolding top x_def [symmetric] using h(2) by (intro vli_eqI) (simp_all add: mult_2_right)
qed

lemma modMult_step_eq:
  assumes "length p = n * 2" "length q = n * 2" "0 < n"
  shows "modMult_step n (p, q, k) = (digits (n * 2) (if val q \<le> val p then val p - val q else val p), digits (n * 2) (val q div 2), k - 1)"
proof -
  obtain lo b where lb: "vli_sub (take n p) (take n q) = (lo, b)" by force
  show ?thesis
    using double_cmp [OF assms(1,2)] double_sub [OF assms _ lb] double_rshift [OF assms(2,3)] digits_val [of p] assms(1)
    by (simp add: modMult_step_def Let_def lb)
qed

lemma while_step: "b s \<Longrightarrow> while_option b c s = while_option b c (c s)"
  by (subst while_option_unfold) simp

lemma while_stop: "\<not> b s \<Longrightarrow> while_option b c s = Some s"
  by (subst while_option_unfold) simp

definition modMult_cond :: "nat \<Rightarrow> vli \<Rightarrow> vli \<times> vli \<times> nat \<Rightarrow> bool" where
  "modMult_cond n m = (\<lambda>(l_product, l_modMultiple, l_productBits).
     n * 64 < l_productBits \<or> vli_cmp (take n l_modMultiple) m \<ge> 0)"

lemma take_digits: "n \<le> k \<Longrightarrow> take n (digits k v) = digits n v"
proof (induction n arbitrary: k v)
  case (Suc n)
  then show ?case by (cases k) simp_all
qed simp

lemma modMult_loop:
  assumes n: "0 < n" and m: "length m = n"
    and "length p = n * 2" "val p < 2 * (val m * 2 ^ k)" "val m * 2 ^ k < base (n * 2)"
  shows "\<exists>q b. while_option (modMult_cond n m) (modMult_step n) (p, digits (n * 2) (val m * 2 ^ k), 64 * n + k) =
    Some (digits (n * 2) (val p mod val m), q, b)"
  using assms(3-)
proof (induction k arbitrary: p)
  case 0
  have mB: "val m < base n" using val_less [of m] m by simp
  have m0: "0 < val m" using 0(2) by simp
  have "modMult_cond n m (p, digits (n * 2) (val m), 64 * n)"
    using m digits_val [of m] by (simp add: modMult_cond_def take_digits vli_cmp_eq)
  moreover define r where "r = (if val m \<le> val p then val p - val m else val p)"
  have r: "r = val p mod val m" using 0(2) m0 by (auto simp: r_def mod_once)
  have "modMult_step n (p, digits (n * 2) (val m), 64 * n) = (digits (n * 2) r, digits (n * 2) (val m div 2), 64 * n - 1)"
    using modMult_step_eq [OF 0(1) _ n, of "digits (n * 2) (val m)"] 0(3) by (simp add: val_digits_less r_def)
  moreover have "\<not> modMult_cond n m (digits (n * 2) r, digits (n * 2) (val m div 2), 64 * n - 1)"
  proof -
    have "val (digits n (val m div 2)) = val m div 2" using mB by (intro val_digits_less) simp
    moreover have "val m div 2 < val m" "\<not> n * 64 < 64 * n - 1" using m0 by simp_all
    ultimately show ?thesis using m by (simp add: modMult_cond_def take_digits vli_cmp_eq [where n = n])
  qed
  ultimately have "while_option (modMult_cond n m) (modMult_step n) (p, digits (n * 2) (val m), 64 * n) =
      Some (digits (n * 2) r, digits (n * 2) (val m div 2), 64 * n - 1)"
    by (simp only: while_step while_stop not_False_eq_True)
  then show ?case unfolding r by simp
next
  case (Suc k)
  define q where "q = val m * 2 ^ Suc k"
  have q: "q div 2 = val m * 2 ^ k" "q < base (n * 2)" using Suc.prems(3) by (simp_all add: q_def)
  define r where "r = (if q \<le> val p then val p - q else val p)"
  have pB: "val p < base (n * 2)" using val_less [of p] Suc.prems(1) by simp
  have r: "r < 2 * (val m * 2 ^ k)" "r < base (n * 2)" "r mod val m = val p mod val m"
  proof -
    show "r < 2 * (val m * 2 ^ k)" using Suc.prems(2) by (auto simp: r_def q_def)
    show "r < base (n * 2)" using pB by (auto simp: r_def)
    have "val p = r + val m * (if q \<le> val p then 2 ^ Suc k else 0)" by (simp add: r_def q_def)
    then show "r mod val m = val p mod val m" by (metis mod_mult_self2)
  qed
  have "modMult_cond n m (p, digits (n * 2) q, 64 * n + Suc k)" by (simp add: modMult_cond_def)
  moreover have "modMult_step n (p, digits (n * 2) q, 64 * n + Suc k) = (digits (n * 2) r, digits (n * 2) (val m * 2 ^ k), 64 * n + k)"
    using modMult_step_eq [OF Suc.prems(1) _ n, of "digits (n * 2) q"] q by (simp add: val_digits_less r_def)
  ultimately have "while_option (modMult_cond n m) (modMult_step n) (p, digits (n * 2) q, 64 * n + Suc k) =
      while_option (modMult_cond n m) (modMult_step n) (digits (n * 2) r, digits (n * 2) (val m * 2 ^ k), 64 * n + k)"
    by (simp only: while_step)
  moreover have "\<exists>q b. while_option (modMult_cond n m) (modMult_step n) (digits (n * 2) r, digits (n * 2) (val m * 2 ^ k), 64 * n + k) =
    Some (digits (n * 2) (val (digits (n * 2) r) mod val m), q, b)"
    using r Suc.prems(3) by (intro Suc.IH) (simp_all add: val_digits_less)
  ultimately show ?case unfolding q_def using r by (simp add: val_digits_less)
qed

lemma shifted_modulus:
  assumes "length m = n" "0 < n" "s \<le> 64 * n" "val m * 2 ^ s < base (n * 2)"
  shows "(if s mod 64 \<noteq> 0 then (let (sh, c) = vli_lshift m (s mod 64) in (write_at (s div 64) sh (vli_clear n @ vli_clear n))[s div 64 + n := c])
     else write_at (s div 64) m (vli_clear n @ vli_clear n)) = digits (n * 2) (val m * 2 ^ s)"
proof -
  define d b where "d = s div 64" and "b = s mod 64"
  have s: "s = 64 * d + b" "b < 64" by (simp_all add: d_def b_def)
  have z: "vli_clear n @ vli_clear n = replicate (n * 2) 0" by (simp add: vli_clear_def mult_2_right replicate_add)
  have w: "write_at d x (replicate (n * 2) 0) = replicate d 0 @ x @ replicate (n - d) 0" if "length x = n" "d \<le> n" for x
    using that by (simp add: write_at_def min_absorb2)
  show ?thesis
  proof (cases "b = 0")
    case True
    then have d: "d \<le> n" using assms(3) s by simp
    then have "write_at d m (replicate (n * 2) 0) = digits (n * 2) (val m * 2 ^ s)"
      using assms(1,4) s(1) True by (intro vli_eqI) (simp_all add: w val_append mult.commute)
    then show ?thesis using True z by (simp add: d_def b_def)
  next
    case False
    then have d: "d < n" using assms(3) s by simp
    obtain sh c where sh: "vli_lshift m b = (sh, c)" by force
    from lshift_loop_val [of b 0 m sh c] sh False s(2) assms(1)
    have v: "length sh = n" "val sh + base n * unat c = val m * 2 ^ b" by (simp_all add: vli_lshift_def)
    have "(write_at d sh (replicate (n * 2) 0))[d + n := c] = replicate d 0 @ sh @ c # replicate (n - d - 1) 0"
      using d v(1) by (simp add: w list_update_append Suc_diff_Suc [symmetric] replicate_Suc [symmetric] del: replicate_Suc)
        (simp add: replicate_Suc)
    moreover have "replicate d 0 @ sh @ c # replicate (n - d - 1) 0 = digits (n * 2) (val m * 2 ^ s)"
      using d v assms(4) s(1) by (intro vli_eqI) (simp_all add: val_append power_add mult.left_commute)
    ultimately show ?thesis using False z sh by (simp add: d_def b_def)
  qed
qed

lemma product_bits:
  assumes "length p = n * 2"
  defines "b \<equiv> (if vli_numBits (drop n p) \<noteq> 0 then vli_numBits (drop n p) + n * 64 else vli_numBits (take n p))"
  shows "val p < 2 ^ b" "b \<le> 128 * n"
proof -
  have len: "length (take n p) = n" "length (drop n p) = n" using assms(1) by simp_all
  note h = val_halves [OF assms(1)]
  have lt: "val (take n p) < base n" "val (drop n p) < base n" using val_less [of "take n p"] val_less [of "drop n p"] len by simp_all
  have nb: "vli_numBits (drop n p) \<le> 64 * n" "vli_numBits (take n p) \<le> 64 * n" using vli_numBits_le lt by simp_all
  then show "b \<le> 128 * n" by (auto simp: b_def)
  show "val p < 2 ^ b"
  proof (cases "vli_numBits (drop n p) = 0")
    case True
    then have "val p = val (take n p)" using h vli_numBits_eq_0 [of "drop n p"] by simp
    then show ?thesis using True vli_numBits_bounds(1) [of "take n p"] by (simp add: b_def)
  next
    case False
    have "val p < base n * (val (drop n p) + 1)" using h lt by simp
    also have "\<dots> \<le> base n * 2 ^ vli_numBits (drop n p)" using vli_numBits_bounds(1) [of "drop n p"] by (intro mult_le_mono2) simp
    finally show ?thesis using False by (simp add: b_def power_add mult.commute)
  qed
qed

lemma vli_modMult_eq:
  assumes "length x = n" "length y = n" "length m = n" "0 < n" "2 * n < 2 ^ 64" "2 ^ (64 * n - 1) \<le> val m"
  shows "vli_modMult x y m = Some (digits n (val x * val y mod val m))"
proof -
  define p where "p = vli_mult x y"
  have p: "length p = n * 2" "val p = val x * val y"
    using vli_mult_eq [OF assms(1,2,4,5)] val_mult_less [OF assms(1,2)] by (simp_all add: p_def val_digits_less)
  have mB: "val m < base n" using val_less [of m] assms(3) by simp
  have mb: "vli_numBits m = 64 * n" using vli_numBits_unique [of "64 * n - 1" m] assms(4,6) mB by (simp flip: power_Suc)
  define b where "b = (if vli_numBits (drop n p) \<noteq> 0 then vli_numBits (drop n p) + n * 64 else vli_numBits (take n p))"
  note b = product_bits [OF p(1), folded b_def]
  note unf = vli_modMult_def [of x y m, unfolded Let_def assms(3) p_def [symmetric] mb b_def [symmetric] modMult_cond_def [symmetric]]
  show ?thesis
  proof (cases "b < 64 * n")
    case True
    then have "(2 :: nat) ^ b \<le> 2 ^ (64 * n - 1)" by (intro power_increasing) simp_all
    then have lt: "val p < val m" using b(1) assms(6) by linarith
    then have "val (drop n p) = 0"
    proof -
      have "base n * val (drop n p) < base n * 1" using lt mB val_halves [OF p(1)] by linarith
      then show ?thesis by simp
    qed
    then have "take n p = digits n (val p)" using val_halves [OF p(1)] p(1) digits_val [of "take n p"] by simp
    then show ?thesis unfolding unf using True lt p(2) by simp
  next
    case False
    define s where "s = b - 64 * n"
    have s: "b = 64 * n + s" "s \<le> 64 * n" using False b(2) by (simp_all add: s_def)
    have "val m * 2 ^ s < base n * 2 ^ s" using mB by simp
    also have "\<dots> \<le> base n * base n" using s(2) by (intro mult_le_mono2 power_increasing) simp_all
    finally have sm: "val m * 2 ^ s < base (n * 2)" by (simp only: base_double)
    have "val p < 2 * (2 ^ (64 * n - 1) * 2 ^ s)" using b(1) assms(4) by (simp add: s(1) power_add flip: power_Suc mult.assoc)
    also have "\<dots> \<le> 2 * (val m * 2 ^ s)" using assms(6) by simp
    finally have "val p < 2 * (val m * 2 ^ s)" .
    from modMult_loop [OF assms(4,3) p(1) this sm] obtain q c where
      "while_option (modMult_cond n m) (modMult_step n) (p, digits (n * 2) (val m * 2 ^ s), b) = Some (digits (n * 2) (val p mod val m), q, c)"
      unfolding s(1) by blast
    then show ?thesis
      unfolding unf s_def [symmetric] shifted_modulus [OF assms(3,4) s(2) sm, unfolded Let_def]
      using False p(2) by (simp add: take_digits)
  qed
qed

lemma curve_n_top: "length (curve_n C) = NUM_ECC_DIGITS C" "2 ^ (64 * NUM_ECC_DIGITS C - 1) \<le> val (curve_n C)"
  "odd (val (curve_n C))" "1 < val (curve_n C)"
  by (cases C; simp add: NUM_ECC_DIGITS_def)+

lemma curve_p_basic: "length (curve_p C) = NUM_ECC_DIGITS C" "odd (val (curve_p C))" "1 < val (curve_p C)" "0 < NUM_ECC_DIGITS C"
  by (cases C; simp add: NUM_ECC_DIGITS_def)+

lemma modMult_n:
  assumes "length x = NUM_ECC_DIGITS C" "length y = NUM_ECC_DIGITS C"
  shows "vli_modMult x y (curve_n C) = Some (digits (NUM_ECC_DIGITS C) (val x * val y mod val (curve_n C)))"
proof -
  have "2 * NUM_ECC_DIGITS C < 2 ^ 64" by (cases C) (simp_all add: NUM_ECC_DIGITS_def)
  then show ?thesis by (rule vli_modMult_eq [OF assms curve_n_top(1) curve_p_basic(4) _ curve_n_top(2)])
qed

section \<open>Properties\<close>

text \<open>
  C26. The binary inverse ends for every non-zero input and every odd modulus greater than one, and the result \<open>r\<close> is
  reduced and satisfies \<open>r * x \<equiv> gcd x m\<close>; it is the inverse of \<open>x\<close> whenever the input is coprime to the modulus. The inverse of
  zero is zero.
\<close>

theorem modInv_inverts:
  assumes "length x = n" "length m = n" "0 < n" "odd (val m)" "1 < val m"
  shows "\<exists>r. vli_modInv x m = Some r \<and> length r = n \<and> val r < val m \<and>
    (if val x = 0 then val r = 0 else val r * val x mod val m = gcd (val x) (val m) mod val m) \<and>
    (coprime (val x) (val m) \<longrightarrow> val r * val x mod val m = 1)"
proof (cases "val x = 0")
  case True
  then have "vli_modInv x m = Some (digits n 0)" using assms by (simp add: vli_modInv_def vli_isZero_eq vli_clear_eq)
  then show ?thesis using True assms by (simp add: val_digits)
next
  case False
  then obtain r where r: "vli_modInv x m = Some r" "length r = n" "inv_rel (val m) (val x) (gcd (val x) (val m)) (val r)"
    using vli_modInv_gcd [OF assms] by blast
  have "int (val r * val x) mod int (val m) = int (gcd (val x) (val m)) mod int (val m)"
    using r(3) by (simp add: inv_rel_def mod_eq_dvd_iff)
  then have "val r * val x mod val m = gcd (val x) (val m) mod val m" by (metis of_nat_eq_iff zmod_int)
  then show ?thesis using r False assms(5) by (auto simp: inv_rel_def)
qed

theorem modInv_inverts_witness: "\<exists>r. vli_modInv [3, 0] [7, 0] = Some r \<and> val r = 5"
proof -
  from modInv_inverts [of "[3, 0]" 2 "[7, 0]"] obtain r where
    r: "vli_modInv [3, 0] [7, 0] = Some r" "val r < 7" "val r * 3 mod 7 = 1" by (auto simp: coprime_iff_gcd_eq_1 gcd_non_0_nat)
  then have "val r = 5" by presburger
  with r(1) show ?thesis by blast
qed

text \<open>
  C27. Multiplication modulo the group order by shifting and subtracting ends and gives the remainder of the product, for all
  operands of the length of the order, whether reduced or not.
\<close>

theorem modMult_exact:
  assumes "length x = NUM_ECC_DIGITS C" "length y = NUM_ECC_DIGITS C"
  shows "vli_modMult x y (curve_n C) = Some (digits (NUM_ECC_DIGITS C) (val x * val y mod val (curve_n C)))"
  using assms by (rule modMult_n)

theorem modMult_exact_witness:
  "vli_modMult [2, 0, 0, 0] [3, 0, 0, 0] (curve_n secp256r1) = Some (digits 4 6)"
  using modMult_exact [of "[2, 0, 0, 0]" secp256r1 "[3, 0, 0, 0]"] by (simp add: NUM_ECC_DIGITS_def)

end
