(* ===== verification/Ecc_Point.thy ===== *)
theory Ecc_Point
  imports Mod_Arith "HOL-Library.Monad_Syntax"
begin

unbundle bit_operations_syntax

text \<open>
  Elliptic curve points of \<^verbatim>\<open>emod_manager/attest/ecc.c\<close>: the Jacobian and co-Z formulas and the Montgomery ladder.

  Functions that update coordinates in place return the new coordinates; a result of \<open>None\<close> would be a
  reduction that does not end. A null pointer argument is \<open>None\<close> of an option type.

  Section \<open>Field elements\<close> gives the interface to the arithmetic below as the locale \<open>curve_field\<close>: \<open>fe a\<close> is the array of the
  residue of \<open>a\<close>, and the modular operations act on residues as the ring operations act on integers. The formulas for points
  are then identities of polynomials in the affine coordinates (section \<open>The affine group law\<close>), and the ladder is correct by induction on the
  bits of the scalar. The locale is interpreted for the three curves whose fast reduction is exact.
\<close>

section \<open>Point operations\<close>

record EccPoint =
  pt_x :: vli
  pt_y :: vli

fun curve_G :: "ecc_curve \<Rightarrow> EccPoint" where
  "curve_G secp128r1 = \<lparr>pt_x = [0x0C28607CA52C5B86, 0x161FF7528B899B2D], pt_y = [0xC02DA292DDED7A83, 0xCF5AC8395BAFEB13]\<rparr>"
| "curve_G secp192r1 = \<lparr>pt_x = [0xF4FF0AFD82FF1012, 0x7CBF20EB43A18800, 0x188DA80EB03090F6],
     pt_y = [0x73F977A11E794811, 0x631011ED6B24CDD5, 0x07192B95FFC8DA78]\<rparr>"
| "curve_G secp256r1 = \<lparr>pt_x = [0xF4A13945D898C296, 0x77037D812DEB33A0, 0xF8BCE6E563A440F2, 0x6B17D1F2E12C4247],
     pt_y = [0xCBB6406837BF51F5, 0x2BCE33576B315ECE, 0x8EE7EB4A7C0F9E16, 0x4FE342E2FE1A7F9B]\<rparr>"
| "curve_G secp384r1 = \<lparr>pt_x = [0x3A545E3872760AB7, 0x5502F25DBF55296C, 0x59F741E082542A38, 0x6E1D3B628BA79B98,
       0x8EB1C71EF320AD74, 0xAA87CA22BE8B0537],
     pt_y = [0x7A431D7C90EA0E5F, 0x0A60B1CE1D7E819D, 0xE9DA3113B5F0B8C0, 0xF8F41DBD289A147C,
       0x5D9E98BF9292DC29, 0x3617DE4A96262C6F]\<rparr>"

definition EccPoint_isZero :: "EccPoint \<Rightarrow> bool" where
  "EccPoint_isZero p_point \<longleftrightarrow> vli_isZero (pt_x p_point) \<and> vli_isZero (pt_y p_point)"

text \<open>Halving modulo the prime: the odd numbers become even by adding the prime.\<close>

definition halve_mod_p :: "ecc_curve \<Rightarrow> vli \<Rightarrow> vli" where
  "halve_mod_p C X1 =
     (if vli_testBit X1 0 \<noteq> 0 then
        (let (s, l_carry) = vli_add X1 (curve_p C);
             r = vli_rshift1 s;
             n = NUM_ECC_DIGITS C
         in r[n - 1 := r ! (n - 1) OR push_bit 63 l_carry])
      else vli_rshift1 X1)"

definition EccPoint_double_jacobian :: "ecc_curve \<Rightarrow> vli \<Rightarrow> vli \<Rightarrow> vli \<Rightarrow> (vli \<times> vli \<times> vli) option" where
  "EccPoint_double_jacobian C X1 Y1 Z1 =
     (if vli_isZero Z1 then Some (X1, Y1, Z1)
      else do {
        t4 \<leftarrow> vli_modSquare_fast C Y1;
        t5 \<leftarrow> vli_modMult_fast C X1 t4;
        t4 \<leftarrow> vli_modSquare_fast C t4;
        Y1 \<leftarrow> vli_modMult_fast C Y1 Z1;
        Z1 \<leftarrow> vli_modSquare_fast C Z1;
        let X1 = vli_modAdd X1 Z1 (curve_p C);
        let Z1 = vli_modAdd Z1 Z1 (curve_p C);
        let Z1 = vli_modSub X1 Z1 (curve_p C);
        X1 \<leftarrow> vli_modMult_fast C X1 Z1;
        let Z1 = vli_modAdd X1 X1 (curve_p C);
        let X1 = vli_modAdd X1 Z1 (curve_p C);
        let X1 = halve_mod_p C X1;
        Z1 \<leftarrow> vli_modSquare_fast C X1;
        let Z1 = vli_modSub Z1 t5 (curve_p C);
        let Z1 = vli_modSub Z1 t5 (curve_p C);
        let t5 = vli_modSub t5 Z1 (curve_p C);
        X1 \<leftarrow> vli_modMult_fast C X1 t5;
        let t4 = vli_modSub X1 t4 (curve_p C);
        Some (Z1, t4, Y1)
      })"

definition apply_z :: "ecc_curve \<Rightarrow> vli \<Rightarrow> vli \<Rightarrow> vli \<Rightarrow> (vli \<times> vli) option" where
  "apply_z C X1 Y1 Z =
     do {
       t1 \<leftarrow> vli_modSquare_fast C Z;
       X1 \<leftarrow> vli_modMult_fast C X1 t1;
       t1 \<leftarrow> vli_modMult_fast C t1 Z;
       Y1 \<leftarrow> vli_modMult_fast C Y1 t1;
       Some (X1, Y1)
     }"

text \<open>The result is \<open>(X1, Y1)\<close> and \<open>(X2, Y2)\<close> after the call.\<close>

definition XYcZ_initial_double :: "ecc_curve \<Rightarrow> vli \<Rightarrow> vli \<Rightarrow> vli option \<Rightarrow> ((vli \<times> vli) \<times> (vli \<times> vli)) option" where
  "XYcZ_initial_double C X1 Y1 p_initialZ =
     do {
       let X2 = X1;
       let Y2 = Y1;
       let z = (case p_initialZ of None \<Rightarrow> (vli_clear (NUM_ECC_DIGITS C))[0 := 1] | Some iz \<Rightarrow> iz);
       (X1, Y1) \<leftarrow> apply_z C X1 Y1 z;
       (X1, Y1, z) \<leftarrow> EccPoint_double_jacobian C X1 Y1 z;
       (X2, Y2) \<leftarrow> apply_z C X2 Y2 z;
       Some ((X1, Y1), (X2, Y2))
     }"

definition XYcZ_add :: "ecc_curve \<Rightarrow> vli \<times> vli \<Rightarrow> vli \<times> vli \<Rightarrow> ((vli \<times> vli) \<times> (vli \<times> vli)) option" where
  "XYcZ_add C = (\<lambda>(X1, Y1) (X2, Y2).
     do {
       let t5 = vli_modSub X2 X1 (curve_p C);
       t5 \<leftarrow> vli_modSquare_fast C t5;
       X1 \<leftarrow> vli_modMult_fast C X1 t5;
       X2 \<leftarrow> vli_modMult_fast C X2 t5;
       let Y2 = vli_modSub Y2 Y1 (curve_p C);
       t5 \<leftarrow> vli_modSquare_fast C Y2;
       let t5 = vli_modSub t5 X1 (curve_p C);
       let t5 = vli_modSub t5 X2 (curve_p C);
       let X2 = vli_modSub X2 X1 (curve_p C);
       Y1 \<leftarrow> vli_modMult_fast C Y1 X2;
       let X2 = vli_modSub X1 t5 (curve_p C);
       Y2 \<leftarrow> vli_modMult_fast C Y2 X2;
       let Y2 = vli_modSub Y2 Y1 (curve_p C);
       let X2 = t5;
       Some ((X1, Y1), (X2, Y2))
     })"

definition XYcZ_addC :: "ecc_curve \<Rightarrow> vli \<times> vli \<Rightarrow> vli \<times> vli \<Rightarrow> ((vli \<times> vli) \<times> (vli \<times> vli)) option" where
  "XYcZ_addC C = (\<lambda>(X1, Y1) (X2, Y2).
     do {
       let t5 = vli_modSub X2 X1 (curve_p C);
       t5 \<leftarrow> vli_modSquare_fast C t5;
       X1 \<leftarrow> vli_modMult_fast C X1 t5;
       X2 \<leftarrow> vli_modMult_fast C X2 t5;
       let t5 = vli_modAdd Y2 Y1 (curve_p C);
       let Y2 = vli_modSub Y2 Y1 (curve_p C);
       let t6 = vli_modSub X2 X1 (curve_p C);
       Y1 \<leftarrow> vli_modMult_fast C Y1 t6;
       let t6 = vli_modAdd X1 X2 (curve_p C);
       X2 \<leftarrow> vli_modSquare_fast C Y2;
       let X2 = vli_modSub X2 t6 (curve_p C);
       let t7 = vli_modSub X1 X2 (curve_p C);
       Y2 \<leftarrow> vli_modMult_fast C Y2 t7;
       let Y2 = vli_modSub Y2 Y1 (curve_p C);
       t7 \<leftarrow> vli_modSquare_fast C t5;
       let t7 = vli_modSub t7 t6 (curve_p C);
       let t6 = vli_modSub t7 X1 (curve_p C);
       t6 \<leftarrow> vli_modMult_fast C t6 t5;
       let Y1 = vli_modSub t6 Y1 (curve_p C);
       let X1 = t7;
       Some ((X1, Y1), (X2, Y2))
     })"

text \<open>
  The ladder. \<open>R\<close> is the pair of the points \<^verbatim>\<open>R[0]\<close> and \<^verbatim>\<open>R[1]\<close>; \<open>pick nb\<close> gives the pair of \<^verbatim>\<open>R[1-nb]\<close> and
  \<^verbatim>\<open>R[nb]\<close>, and is its own inverse.
\<close>

fun ofold :: "('i \<Rightarrow> 's \<Rightarrow> 's option) \<Rightarrow> 'i list \<Rightarrow> 's \<Rightarrow> 's option" where
  "ofold f [] s = Some s"
| "ofold f (i # is) s = Option.bind (f i s) (ofold f is)"

definition pick :: "bool \<Rightarrow> 'a \<times> 'a \<Rightarrow> 'a \<times> 'a" where
  "pick nb R = (if nb then (fst R, snd R) else (snd R, fst R))"

definition ladder_add :: "ecc_curve \<Rightarrow> bool \<Rightarrow> (vli \<times> vli) \<times> (vli \<times> vli) \<Rightarrow> ((vli \<times> vli) \<times> (vli \<times> vli)) option" where
  "ladder_add C nb R = (let (A, B) = pick nb R in map_option (\<lambda>(B, A). pick nb (A, B)) (XYcZ_add C B A))"

definition ladder_addC :: "ecc_curve \<Rightarrow> bool \<Rightarrow> (vli \<times> vli) \<times> (vli \<times> vli) \<Rightarrow> ((vli \<times> vli) \<times> (vli \<times> vli)) option" where
  "ladder_addC C nb R = (let (A, B) = pick nb R in map_option (pick nb) (XYcZ_addC C A B))"

definition EccPoint_mult :: "ecc_curve \<Rightarrow> EccPoint \<Rightarrow> vli \<Rightarrow> vli option \<Rightarrow> EccPoint option" where
  "EccPoint_mult C p_point p_scalar p_initialZ =
     do {
       (R1, R0) \<leftarrow> XYcZ_initial_double C (pt_x p_point) (pt_y p_point) p_initialZ;
       R \<leftarrow> ofold (\<lambda>i R. let nb = (vli_testBit p_scalar i = 0) in Option.bind (ladder_addC C nb R) (ladder_add C nb))
              (rev [1..<vli_numBits p_scalar - 1]) (R0, R1);
       let nb = (vli_testBit p_scalar 0 = 0);
       R \<leftarrow> ladder_addC C nb R;
       let (Rb, _) = pick nb R;
       let z = vli_modSub (fst (snd R)) (fst (fst R)) (curve_p C);
       z \<leftarrow> vli_modMult_fast C z (snd Rb);
       z \<leftarrow> vli_modMult_fast C z (pt_x p_point);
       z \<leftarrow> vli_modInv z (curve_p C);
       z \<leftarrow> vli_modMult_fast C z (pt_y p_point);
       z \<leftarrow> vli_modMult_fast C z (fst Rb);
       R \<leftarrow> ladder_add C nb R;
       (x, y) \<leftarrow> apply_z C (fst (fst R)) (snd (fst R)) z;
       Some \<lparr>pt_x = x, pt_y = y\<rparr>
     }"

section \<open>Field elements\<close>

abbreviation prime_of :: "ecc_curve \<Rightarrow> int" where
  "prime_of C \<equiv> int (val (curve_p C))"

definition fe :: "ecc_curve \<Rightarrow> int \<Rightarrow> vli" where
  "fe C a = digits (NUM_ECC_DIGITS C) (nat (a mod prime_of C))"

lemma prime_of_bounds: "1 < prime_of C" "odd (prime_of C)" "val (curve_p C) < base (NUM_ECC_DIGITS C)"
  using curve_p_basic [of C] val_less [of "curve_p C"] by (simp_all del: curve_p.simps)

lemma length_fe [simp]: "length (fe C a) = NUM_ECC_DIGITS C"
  by (simp add: fe_def)

lemma val_fe: "val (fe C a) = nat (a mod prime_of C)"
proof -
  have "a mod prime_of C < prime_of C" using prime_of_bounds(1) [of C] by (intro pos_mod_bound) linarith
  moreover have "0 \<le> a mod prime_of C" using prime_of_bounds(1) [of C] by (intro pos_mod_sign) linarith
  ultimately have "nat (a mod prime_of C) < val (curve_p C)" by linarith
  then show ?thesis unfolding fe_def using prime_of_bounds(3) [of C] by (intro val_digits_less) linarith
qed

lemma int_val_fe: "int (val (fe C a)) = a mod prime_of C"
  using prime_of_bounds(1) [of C] pos_mod_sign [of "prime_of C" a] by (simp add: val_fe)

lemma val_fe_less: "val (fe C a) < val (curve_p C)"
proof -
  have "a mod prime_of C < prime_of C" using prime_of_bounds(1) [of C] by (intro pos_mod_bound) linarith
  then show ?thesis using int_val_fe [of C a] by linarith
qed

lemma fe_eq_iff: "fe C a = fe C b \<longleftrightarrow> a mod prime_of C = b mod prime_of C"
  using int_val_fe [of C a] int_val_fe [of C b] by (metis fe_def)

lemma fe_mod [simp]: "fe C (a mod prime_of C) = fe C a"
  by (simp add: fe_eq_iff)

lemma fe_eqI: "prime_of C dvd a - b \<Longrightarrow> fe C a = fe C b"
  by (simp add: fe_eq_iff mod_eq_dvd_iff)

lemma fe_dvdD: "fe C a = fe C b \<Longrightarrow> prime_of C dvd a - b"
  by (simp add: fe_eq_iff mod_eq_dvd_iff)

lemma digits_fe: "digits (NUM_ECC_DIGITS C) (v mod val (curve_p C)) = fe C (int v)"
  by (simp add: fe_def nat_mod_as_int)

lemma fe_cases: "length x = NUM_ECC_DIGITS C \<Longrightarrow> val x < val (curve_p C) \<Longrightarrow> x = fe C (int (val x))"
  by (metis digits_fe digits_val mod_less)

lemma fe_add: "vli_modAdd (fe C a) (fe C b) (curve_p C) = fe C (a + b)"
proof -
  have "vli_modAdd (fe C a) (fe C b) (curve_p C) = fe C (int (val (fe C a) + val (fe C b)))"
    by (subst vli_modAdd_eq [where n = "NUM_ECC_DIGITS C"]) (simp_all add: curve_p_basic val_fe_less digits_fe del: curve_p.simps)
  then show ?thesis by (simp add: int_val_fe fe_eq_iff mod_simps)
qed

lemma fe_sub: "vli_modSub (fe C a) (fe C b) (curve_p C) = fe C (a - b)"
proof -
  have "vli_modSub (fe C a) (fe C b) (curve_p C) = fe C (int (val (curve_p C) + val (fe C a) - val (fe C b)))"
    by (subst vli_modSub_eq [where n = "NUM_ECC_DIGITS C"]) (simp_all add: curve_p_basic val_fe_less digits_fe del: curve_p.simps)
  also have "int (val (curve_p C) + val (fe C a) - val (fe C b)) = a mod prime_of C - b mod prime_of C + prime_of C"
    using val_fe_less [of C b] by (simp add: int_val_fe of_nat_diff)
  finally show ?thesis by (simp only: fe_eq_iff mod_add_self2 mod_diff_eq)
qed

lemma fe_isZero: "vli_isZero (fe C a) \<longleftrightarrow> prime_of C dvd a"
  using int_val_fe [of C a] by (simp add: vli_isZero_eq dvd_eq_mod_eq_0) linarith

lemma clear_first: "0 < n \<Longrightarrow> v < 2 ^ 64 \<Longrightarrow> (vli_clear n)[0 := of_nat v] = digits n v"
  by (cases n) (simp_all add: vli_clear_def flip: vli_clear_eq)

lemma fe_small: "0 \<le> a \<Longrightarrow> a < 2 ^ 64 \<Longrightarrow> (vli_clear (NUM_ECC_DIGITS C))[0 := of_int a] = fe C a"
proof -
  assume a: "0 \<le> a" "a < 2 ^ 64"
  have "a < prime_of C" using a(2) by (cases C) simp_all
  then have "a mod prime_of C = a" using a(1) by simp
  then have "fe C a = digits (NUM_ECC_DIGITS C) (nat a)" by (simp add: fe_def)
  moreover have "(of_int a :: u64) = of_nat (nat a)" using a(1) by simp
  ultimately show ?thesis using clear_first [of "NUM_ECC_DIGITS C" "nat a"] curve_p_basic(4) [of C] a by simp
qed

lemma fe_one: "(vli_clear (NUM_ECC_DIGITS C))[0 := 1] = fe C 1" "(vli_clear (NUM_ECC_DIGITS C))[0 := 3] = fe C 3"
  using fe_small [of 1 C] fe_small [of 3 C] by simp_all

named_theorems fe_simps \<open>the modular operations on residues\<close>

declare fe_add [fe_simps] fe_sub [fe_simps]

text \<open>
  What the point operations rely on: the fast reduction of the curve returns the remainder. Everything else about
  the operations on residues follows.
\<close>

locale curve_field =
  fixes C :: ecc_curve
  assumes mmod: "length x = NUM_ECC_DIGITS C * 2 \<Longrightarrow>
    vli_mmod_fast C x = Some (digits (NUM_ECC_DIGITS C) (val x mod val (curve_p C)))"
begin

lemma small: "2 * NUM_ECC_DIGITS C < 2 ^ 64"
  by (cases C) (simp_all add: NUM_ECC_DIGITS_def)

lemma modMult_val:
  assumes "length x = NUM_ECC_DIGITS C" "length y = NUM_ECC_DIGITS C"
  shows "vli_modMult_fast C x y = Some (fe C (int (val x) * int (val y)))"
proof -
  have m: "vli_mult x y = digits (NUM_ECC_DIGITS C * 2) (val x * val y)"
    by (rule vli_mult_eq [OF assms curve_p_basic(4) small])
  have "val (vli_mult x y) = val x * val y" unfolding m using val_mult_less [OF assms] by (rule val_digits_less)
  then show ?thesis using mmod [of "vli_mult x y"] by (simp add: vli_modMult_fast_def m digits_fe)
qed

lemma modSquare_val:
  assumes "length x = NUM_ECC_DIGITS C"
  shows "vli_modSquare_fast C x = Some (fe C (int (val x) * int (val x)))"
  using modMult_val [OF assms assms] vli_mult_eq [OF assms assms curve_p_basic(4) small] vli_square_eq [OF assms curve_p_basic(4) small]
  by (simp add: vli_modMult_fast_def vli_modSquare_fast_def)

lemma fe_mult [fe_simps]: "vli_modMult_fast C (fe C a) (fe C b) = Some (fe C (a * b))"
  by (simp add: modMult_val int_val_fe fe_eq_iff mod_simps)

lemma fe_square [fe_simps]: "vli_modSquare_fast C (fe C a) = Some (fe C (a * a))"
  by (simp add: modSquare_val int_val_fe fe_eq_iff mod_simps)

lemma fe_halve:
  assumes "prime_of C dvd 2 * h - a"
  shows "halve_mod_p C (fe C a) = fe C h"
proof -
  define n x where "n = NUM_ECC_DIGITS C" and "x = fe C a"
  have n: "0 < n" "length x = n" by (simp_all add: n_def x_def curve_p_basic)
  have x: "val x < val (curve_p C)" "val (curve_p C) < base n" using val_fe_less [of C a] prime_of_bounds(3) [of C] by (simp_all add: x_def n_def)
  have xB: "val x < base n" using x by linarith
  have odd: "vli_testBit x 0 \<noteq> 0 \<longleftrightarrow> odd (val x)" using vli_testBit_eq [of 0 x] n by simp
  have len: "length (curve_p C) = n" by (simp add: n_def curve_p_basic)
  have eq: "halve_mod_p C x = digits n (half_mod (val (curve_p C)) (val x))"
  proof (cases "odd (val x)")
    case False
    then show ?thesis using odd vli_rshift1_eq [OF n(2)] by (simp add: halve_mod_p_def half_mod_def)
  next
    case True
    define v where "v = val x + val (curve_p C)"
    have b: "r[n - 1 := r ! (n - 1) OR push_bit 63 (bool_u64 (base n \<le> v))] = (if base n \<le> v then r[n - 1 := r ! (n - 1) OR push_bit 63 1] else r)" for r :: vli
      by (simp add: bool_u64_def)
    have "v < 2 * base n" unfolding v_def using x xB by linarith
    note rshift_carry [OF length_digits n(1) this refl, folded b]
    then have "halve_mod_p C x = digits n (v div 2)"
      using True odd n vli_add_eq [OF n(2) len, folded v_def]
      by (simp only: halve_mod_p_def Let_def n_def [symmetric] if_True not_False_eq_True prod.case simp_thms length_digits)
    then show ?thesis using True by (simp add: half_mod_def v_def)
  qed
  define k where "k = half_mod (val (curve_p C)) (val x)"
  have "k < val (curve_p C)" unfolding k_def by (rule half_mod_less) (use prime_of_bounds(2) [of C] x in simp_all)
  then have "halve_mod_p C x = fe C (int k)" unfolding eq k_def [symmetric] by (simp add: n_def digits_fe [symmetric])
  moreover have "prime_of C dvd int k - h"
  proof -
    have "2 * k = val x \<or> 2 * k = val x + val (curve_p C)"
      unfolding k_def by (rule half_mod_twice) (use prime_of_bounds(2) [of C] in simp)
    then have "2 * int k = int (val x) \<or> 2 * int k = int (val x) + prime_of C" by linarith
    then have "prime_of C dvd 2 * int k - int (val x)" by auto
    moreover have "prime_of C dvd int (val x) - a" unfolding x_def int_val_fe by (simp add: mod_eq_dvd_iff [symmetric])
    ultimately have "prime_of C dvd (2 * int k - int (val x)) + (int (val x) - a) - (2 * h - a)" by (rule dvd_diff [OF dvd_add assms])
    then have "prime_of C dvd 2 * (int k - h)" by (simp add: algebra_simps)
    moreover have "coprime (prime_of C) 2" using prime_of_bounds(2) [of C] by (simp only: coprime_right_2_iff_odd simp_thms)
    ultimately show ?thesis by (simp only: coprime_dvd_mult_right_iff)
  qed
  ultimately show ?thesis unfolding x_def by (simp add: fe_eqI)
qed

lemma fe_inverse:
  assumes "prime_of C dvd i * a - 1"
  shows "vli_modInv (fe C a) (curve_p C) = Some (fe C i)"
proof -
  define x m where "x = val (fe C a)" and "m = val (curve_p C)"
  have xa: "int m dvd int x - a" unfolding x_def m_def int_val_fe by (simp add: mod_eq_dvd_iff [symmetric])
  have ix: "int m dvd i * int x - 1"
  proof -
    have "i * int x - 1 = i * (int x - a) + (i * a - 1)" by (simp add: algebra_simps)
    then show ?thesis using dvd_add [OF dvd_mult [OF xa, of i]] assms unfolding m_def by metis
  qed
  have "coprime (int x) (int m)"
  proof (rule coprimeI)
    fix d assume "d dvd int x" "d dvd int m"
    then have "d dvd i * int x" "d dvd i * int x - 1" using ix dvd_trans by (auto intro: dvd_mult)
    then have "d dvd i * int x - (i * int x - 1)" by (rule dvd_diff)
    then show "is_unit d" by simp
  qed
  then have "coprime x m" by simp
  from vli_modInv_eq [OF length_fe [of C a] curve_p_basic(1) curve_p_basic(4) curve_p_basic(2,3), folded x_def m_def, OF this] obtain r where
    r: "vli_modInv (fe C a) (curve_p C) = Some r" "length r = NUM_ECC_DIGITS C" "val r < m" "val r * x mod m = 1" by blast
  have "int (val r * x) mod int m = 1 mod int m" using r(4) curve_p_basic(3) [of C]
    by (metis m_def of_nat_1 of_nat_mod mod_less)
  then have rx: "int m dvd int (val r) * int x - 1" by (simp add: mod_eq_dvd_iff)
  have "int m dvd int (val r) - i"
  proof -
    have "int (val r) - i = i * (int (val r) * int x - 1) - int (val r) * (i * int x - 1)" by (simp add: algebra_simps)
    then show ?thesis using rx ix by (simp add: dvd_diff)
  qed
  then have "fe C (int (val r)) = fe C i" by (intro fe_eqI) (simp add: m_def)
  then show ?thesis using r(1-3) fe_cases [of r C] by (simp add: m_def)
qed

end

interpretation p128: curve_field secp128r1
  by unfold_locales (rule vli_mmod_fast_eq; simp)

interpretation p192: curve_field secp192r1
  by unfold_locales (rule vli_mmod_fast_eq; simp)

interpretation p256: curve_field secp256r1
  by unfold_locales (rule vli_mmod_fast_eq; simp)

lemma reducing_curve: "C \<noteq> secp384r1 \<Longrightarrow> curve_field C"
  using p128.curve_field_axioms p192.curve_field_axioms p256.curve_field_axioms by (cases C) simp_all

section \<open>The affine group law\<close>

text \<open>
  The law of the curve \<open>y\<^sup>2 = x\<^sup>3 - 3 x + b\<close> in affine coordinates modulo the prime: \<open>chord A B D\<close> says that \<open>A\<close> and \<open>B\<close>
  have different abscissas and sum \<open>D\<close>, \<open>tangent A D\<close> that \<open>D\<close> is the double of \<open>A\<close>; \<open>i\<close> is the inverse of
  the denominator of the slope. \<open>co z A\<close> are the Jacobian coordinates of \<open>A\<close> with the third
  coordinate \<open>z\<close>.
\<close>

type_synonym affine = "int \<times> int"

definition chord :: "ecc_curve \<Rightarrow> affine \<Rightarrow> affine \<Rightarrow> affine \<Rightarrow> bool" where
  "chord C A B D \<longleftrightarrow> (\<exists>i. prime_of C dvd i * (fst B - fst A) - 1 \<and>
     prime_of C dvd fst D - ((i * (snd B - snd A))\<^sup>2 - fst A - fst B) \<and>
     prime_of C dvd snd D - (i * (snd B - snd A) * (fst A - fst D) - snd A))"

definition tangent :: "ecc_curve \<Rightarrow> affine \<Rightarrow> affine \<Rightarrow> bool" where
  "tangent C A D \<longleftrightarrow> (\<exists>i. prime_of C dvd i * (2 * snd A) - 1 \<and>
     prime_of C dvd fst D - ((i * (3 * (fst A)\<^sup>2 - 3))\<^sup>2 - 2 * fst A) \<and>
     prime_of C dvd snd D - (i * (3 * (fst A)\<^sup>2 - 3) * (fst A - fst D) - snd A))"

definition aneg :: "affine \<Rightarrow> affine" where
  "aneg A = (fst A, - snd A)"

definition co :: "ecc_curve \<Rightarrow> int \<Rightarrow> affine \<Rightarrow> vli \<times> vli" where
  "co C z A = (fe C (fst A * z\<^sup>2), fe C (snd A * z ^ 3))"

lemma aneg_simps [simp]: "fst (aneg A) = fst A" "snd (aneg A) = - snd A" "aneg (aneg A) = A"
  by (simp_all add: aneg_def)

lemma co_cong: "prime_of C dvd z - z' \<Longrightarrow> co C z A = co C z' A"
proof -
  assume d: "prime_of C dvd z - z'"
  have "fst A * z\<^sup>2 - fst A * z'\<^sup>2 = (z - z') * (fst A * (z + z'))"
    "snd A * z ^ 3 - snd A * z' ^ 3 = (z - z') * (snd A * (z\<^sup>2 + z * z' + z'\<^sup>2))"
    by (simp_all add: algebra_simps power2_eq_square power3_eq_cube)
  then show ?thesis unfolding co_def using d by (auto intro!: fe_eqI)
qed

lemma inverse_coprime: "p dvd i * a - 1 \<Longrightarrow> coprime a p" for p :: int
proof (rule coprimeI)
  fix d assume "p dvd i * a - 1" "d dvd a" "d dvd p"
  then have "d dvd i * a - 1" "d dvd i * a" by (auto intro: dvd_trans)
  then have "d dvd i * a - (i * a - 1)" by (meson dvd_diff)
  then show "is_unit d" by simp
qed

lemma coprime_inverse: "coprime a p \<Longrightarrow> \<exists>i. p dvd i * a - 1" for p :: int
proof -
  assume "coprime a p"
  then obtain u v where "u * a + v * p = 1" using bezout_int [of a p] by auto
  then have "u * a - 1 = p * (- v)" by (simp add: algebra_simps)
  then show ?thesis by (metis dvd_triv_left)
qed

lemma chord_coprime: "chord C A B D \<Longrightarrow> coprime (fst B - fst A) (prime_of C)"
  unfolding chord_def by (blast intro: inverse_coprime)

lemma tangent_coprime: "tangent C A D \<Longrightarrow> coprime (snd A) (prime_of C)"
  unfolding tangent_def by (metis coprime_mult_left_iff inverse_coprime)

lemma chord_slope:
  assumes "chord C A B D"
  obtains l where "prime_of C dvd l * (fst B - fst A) - (snd B - snd A)"
    "prime_of C dvd fst D - (l\<^sup>2 - fst A - fst B)" "prime_of C dvd snd D - (l * (fst A - fst D) - snd A)"
proof -
  from assms obtain i where i: "prime_of C dvd i * (fst B - fst A) - 1"
    "prime_of C dvd fst D - ((i * (snd B - snd A))\<^sup>2 - fst A - fst B)"
    "prime_of C dvd snd D - (i * (snd B - snd A) * (fst A - fst D) - snd A)"
    unfolding chord_def by blast
  have "i * (snd B - snd A) * (fst B - fst A) - (snd B - snd A) = (snd B - snd A) * (i * (fst B - fst A) - 1)"
    by (simp add: algebra_simps)
  then have "prime_of C dvd i * (snd B - snd A) * (fst B - fst A) - (snd B - snd A)" using i(1) by (metis dvd_mult)
  from that [OF this i(2,3)] show thesis .
qed

lemma chord_sym: "chord C A B D \<Longrightarrow> chord C B A D"
proof -
  assume c: "chord C A B D"
  then obtain i where i: "prime_of C dvd i * (fst B - fst A) - 1"
    "prime_of C dvd fst D - ((i * (snd B - snd A))\<^sup>2 - fst A - fst B)"
    "prime_of C dvd snd D - (i * (snd B - snd A) * (fst A - fst D) - snd A)"
    unfolding chord_def by blast
  have e: "snd D - (- i * (snd A - snd B) * (fst B - fst D) - snd B) =
      (snd D - (i * (snd B - snd A) * (fst A - fst D) - snd A)) - (snd B - snd A) * (i * (fst B - fst A) - 1)"
    "- i * (fst A - fst B) - 1 = i * (fst B - fst A) - 1"
    "fst D - ((- i * (snd A - snd B))\<^sup>2 - fst B - fst A) = fst D - ((i * (snd B - snd A))\<^sup>2 - fst A - fst B)"
    by (simp_all add: algebra_simps power2_eq_square)
  show ?thesis unfolding chord_def
    by (rule exI [of _ "- i"], unfold e) (use i in \<open>simp add: dvd_diff\<close>)
qed

lemma chord_aneg: "chord C A B D \<Longrightarrow> chord C (aneg A) (aneg B) (aneg D)"
proof -
  assume "chord C A B D"
  then obtain i where i: "prime_of C dvd i * (fst B - fst A) - 1"
    "prime_of C dvd fst D - ((i * (snd B - snd A))\<^sup>2 - fst A - fst B)"
    "prime_of C dvd snd D - (i * (snd B - snd A) * (fst A - fst D) - snd A)"
    unfolding chord_def by blast
  have e: "- snd D - (i * (- snd B - - snd A) * (fst A - fst D) - - snd A) = - (snd D - (i * (snd B - snd A) * (fst A - fst D) - snd A))"
    "(i * (- snd B - - snd A))\<^sup>2 = (i * (snd B - snd A))\<^sup>2"
    by (simp_all add: algebra_simps power2_eq_square)
  show ?thesis unfolding chord_def aneg_simps
    by (rule exI [of _ i], unfold e) (use i in \<open>simp only: dvd_minus_iff simp_thms\<close>)
qed

text \<open>The coordinates of a sum in terms of the slope \<open>l\<close>.\<close>

lemma chord_co:
  assumes "chord C A B D"
  obtains l where "\<And>z. fe C (snd B * z ^ 3 - snd A * z ^ 3) = fe C (l * (fst B - fst A) * z ^ 3)"
    "\<And>w. co C w D = co C w (l\<^sup>2 - fst A - fst B, l * (fst A - (l\<^sup>2 - fst A - fst B)) - snd A)"
proof -
  obtain l where l: "prime_of C dvd l * (fst B - fst A) - (snd B - snd A)"
    "prime_of C dvd fst D - (l\<^sup>2 - fst A - fst B)" "prime_of C dvd snd D - (l * (fst A - fst D) - snd A)"
    using assms by (rule chord_slope)
  define x3 y3 where "x3 = l\<^sup>2 - fst A - fst B" and "y3 = l * (fst A - x3) - snd A"
  have x: "prime_of C dvd fst D - x3" using l(2) by (simp only: x3_def)
  have "snd D - y3 = (snd D - (l * (fst A - fst D) - snd A)) - l * (fst D - x3)"
    by (simp add: y3_def algebra_simps)
  then have "prime_of C dvd snd D - y3" using l(3) x by (metis dvd_diff dvd_mult)
  then have D: "co C w D = co C w (x3, y3)" for w
    unfolding co_def using x by (auto intro!: fe_eqI simp flip: left_diff_distrib)
  have y: "fe C (snd B * z ^ 3 - snd A * z ^ 3) = fe C (l * (fst B - fst A) * z ^ 3)" for z
  proof (rule fe_eqI)
    have "snd B * z ^ 3 - snd A * z ^ 3 - l * (fst B - fst A) * z ^ 3 = (- (z ^ 3)) * (l * (fst B - fst A) - (snd B - snd A))"
      by (simp add: algebra_simps)
    then show "prime_of C dvd snd B * z ^ 3 - snd A * z ^ 3 - l * (fst B - fst A) * z ^ 3" using l(1) by (metis dvd_mult)
  qed
  show thesis by (rule that [OF y D [unfolded y3_def x3_def]])
qed

lemma tangent_co:
  assumes "tangent C A D"
  obtains l where "prime_of C dvd 2 * (l * snd A) - 3 * ((fst A)\<^sup>2 - 1)"
    "\<And>w. co C w D = co C w (l\<^sup>2 - 2 * fst A, l * (fst A - (l\<^sup>2 - 2 * fst A)) - snd A)"
proof -
  from assms obtain i where i: "prime_of C dvd i * (2 * snd A) - 1"
    "prime_of C dvd fst D - ((i * (3 * (fst A)\<^sup>2 - 3))\<^sup>2 - 2 * fst A)"
    "prime_of C dvd snd D - (i * (3 * (fst A)\<^sup>2 - 3) * (fst A - fst D) - snd A)"
    unfolding tangent_def by blast
  define l where "l = i * (3 * (fst A)\<^sup>2 - 3)"
  define x3 y3 where "x3 = l\<^sup>2 - 2 * fst A" and "y3 = l * (fst A - x3) - snd A"
  have "2 * (l * snd A) - 3 * ((fst A)\<^sup>2 - 1) = (3 * (fst A)\<^sup>2 - 3) * (i * (2 * snd A) - 1)" by (simp add: l_def algebra_simps)
  then have s: "prime_of C dvd 2 * (l * snd A) - 3 * ((fst A)\<^sup>2 - 1)" using i(1) by (metis dvd_mult)
  have x: "prime_of C dvd fst D - x3" using i(2) by (simp only: x3_def l_def)
  have "snd D - y3 = (snd D - (l * (fst A - fst D) - snd A)) - l * (fst D - x3)" by (simp add: y3_def algebra_simps)
  then have "prime_of C dvd snd D - y3" using i(3) x unfolding l_def by (metis dvd_diff dvd_mult)
  then have "co C w D = co C w (x3, y3)" for w
    unfolding co_def using x by (auto intro!: fe_eqI simp flip: left_diff_distrib)
  with s show thesis by (intro that) (simp_all only: y3_def x3_def)
qed

context curve_field
begin

lemma apply_z_co: "apply_z C (fst (co C z A)) (snd (co C z A)) (fe C w) = Some (co C (z * w) A)"
  by (simp add: apply_z_def co_def fe_simps power2_eq_square power3_eq_cube ac_simps)

lemma XYcZ_add_co:
  assumes "chord C A B D"
  shows "XYcZ_add C (co C z A) (co C z B) = Some (co C (z * (z\<^sup>2 * (fst B - fst A))) A, co C (z * (z\<^sup>2 * (fst B - fst A))) D)"
proof -
  obtain x1 y1 x2 y2 where A: "A = (x1, y1)" and B: "B = (x2, y2)" by fastforce
  obtain l where y: "\<And>z. fe C (snd B * z ^ 3 - snd A * z ^ 3) = fe C (l * (fst B - fst A) * z ^ 3)"
    and D: "\<And>w. co C w D = co C w (l\<^sup>2 - fst A - fst B, l * (fst A - (l\<^sup>2 - fst A - fst B)) - snd A)"
    using chord_co [OF assms] by metis
  show ?thesis unfolding D using y [of z]
    by (simp add: A B XYcZ_add_def fe_simps co_def)
      (simp add: algebra_simps power2_eq_square power3_eq_cube)
qed

lemma XYcZ_addC_co:
  assumes "chord C A B D" "chord C A (aneg B) E"
  shows "XYcZ_addC C (co C z A) (co C z B) = Some (co C (z * (z\<^sup>2 * (fst B - fst A))) E, co C (z * (z\<^sup>2 * (fst B - fst A))) D)"
proof -
  obtain x1 y1 x2 y2 where A: "A = (x1, y1)" and B: "B = (x2, y2)" by fastforce
  obtain l where y: "\<And>z. fe C (snd B * z ^ 3 - snd A * z ^ 3) = fe C (l * (fst B - fst A) * z ^ 3)"
    and D: "\<And>w. co C w D = co C w (l\<^sup>2 - fst A - fst B, l * (fst A - (l\<^sup>2 - fst A - fst B)) - snd A)"
    using chord_co [OF assms(1)] by metis
  obtain m where m: "\<And>z. fe C (snd (aneg B) * z ^ 3 - snd A * z ^ 3) = fe C (m * (fst (aneg B) - fst A) * z ^ 3)"
    and E: "\<And>w. co C w E = co C w (m\<^sup>2 - fst A - fst (aneg B), m * (fst A - (m\<^sup>2 - fst A - fst (aneg B))) - snd A)"
    using chord_co [OF assms(2)] by metis
  have "fe C (y2 * z ^ 3 + y1 * z ^ 3) = fe C (- (m * (x2 - x1) * z ^ 3))"
  proof (rule fe_eqI)
    have "prime_of C dvd - (- (y2 * z ^ 3) - y1 * z ^ 3 - m * (x2 - x1) * z ^ 3)"
      using fe_dvdD [OF m [of z]] unfolding dvd_minus_iff by (simp add: A B)
    then show "prime_of C dvd y2 * z ^ 3 + y1 * z ^ 3 - - (m * (x2 - x1) * z ^ 3)" by (simp add: algebra_simps)
  qed
  then show ?thesis unfolding D E using y [of z]
    by (simp add: A B XYcZ_addC_def fe_simps co_def)
      (simp add: algebra_simps power2_eq_square power3_eq_cube)
qed

lemma double_co:
  assumes "tangent C A D" "coprime z (prime_of C)"
  shows "EccPoint_double_jacobian C (fst (co C z A)) (snd (co C z A)) (fe C z) =
    Some (fst (co C (snd A * z ^ 4) D), snd (co C (snd A * z ^ 4) D), fe C (snd A * z ^ 4))"
proof -
  obtain x y where A: "A = (x, y)" by fastforce
  obtain l where l: "prime_of C dvd 2 * (l * snd A) - 3 * ((fst A)\<^sup>2 - 1)"
    and D: "\<And>w. co C w D = co C w (l\<^sup>2 - 2 * fst A, l * (fst A - (l\<^sup>2 - 2 * fst A)) - snd A)"
    using tangent_co [OF assms(1)] by metis
  have z: "\<not> prime_of C dvd z"
    using assms(2) prime_of_bounds(1) [of C] by (metis coprime_absorb_right zdvd1_eq less_irrefl abs_of_nat)
  have h: "halve_mod_p C (fe C (3 * ((x\<^sup>2 - 1) * z ^ 4))) = fe C (l * y * z ^ 4)"
  proof (rule fe_halve)
    have "2 * (l * y * z ^ 4) - 3 * ((x\<^sup>2 - 1) * z ^ 4) = z ^ 4 * (2 * (l * y) - 3 * (x\<^sup>2 - 1))" by (simp add: algebra_simps)
    then show "prime_of C dvd 2 * (l * y * z ^ 4) - 3 * ((x\<^sup>2 - 1) * z ^ 4)" using l by (simp add: A)
  qed
  have "(x * z\<^sup>2 + z * z) * (x * z\<^sup>2 + z * z - (z * z + z * z)) + ((x * z\<^sup>2 + z * z) * (x * z\<^sup>2 + z * z - (z * z + z * z)) +
     (x * z\<^sup>2 + z * z) * (x * z\<^sup>2 + z * z - (z * z + z * z))) = 3 * ((x\<^sup>2 - 1) * z ^ 4)"
    by (simp add: algebra_simps power2_eq_square power4_eq_xxxx)
  note h [folded this]
  then show ?thesis unfolding D using z
    by (simp add: A EccPoint_double_jacobian_def fe_isZero fe_simps co_def)
      (simp add: algebra_simps eval_nat_numeral)
qed

end

section \<open>The ladder\<close>

text \<open>
  \<open>T k\<close> stands for the \<open>k\<close>-th multiple of the point. The ladder adds neighbours \<open>T k\<close> and \<open>T (k + 1)\<close>, whose difference is
  the point itself, and adds the point to or subtracts it from the sum.
\<close>

definition ladder_laws :: "ecc_curve \<Rightarrow> (nat \<Rightarrow> affine) \<Rightarrow> nat \<Rightarrow> bool" where
  "ladder_laws C T k \<longleftrightarrow> chord C (T k) (T (k + 1)) (T (2 * k + 1)) \<and> chord C (T (k + 1)) (aneg (T k)) (T 1) \<and>
     chord C (T (2 * k + 1)) (T 1) (T (2 * k + 2)) \<and> chord C (T (2 * k + 1)) (aneg (T 1)) (T (2 * k))"

lemma ladder_lawsD:
  assumes "ladder_laws C T k"
  shows "chord C (T k) (T (k + 1)) (T (2 * k + 1))" "chord C (T (k + 1)) (T k) (T (2 * k + 1))"
    "chord C (T (k + 1)) (aneg (T k)) (T 1)" "chord C (T k) (aneg (T (k + 1))) (aneg (T 1))"
    "chord C (T (2 * k + 1)) (T 1) (T (2 * k + 2))" "chord C (T (2 * k + 1)) (aneg (T 1)) (T (2 * k))"
proof -
  show l: "chord C (T k) (T (k + 1)) (T (2 * k + 1))" "chord C (T (k + 1)) (aneg (T k)) (T 1)"
    "chord C (T (2 * k + 1)) (T 1) (T (2 * k + 2))" "chord C (T (2 * k + 1)) (aneg (T 1)) (T (2 * k))"
    using assms unfolding ladder_laws_def by blast+
  show "chord C (T (k + 1)) (T k) (T (2 * k + 1))" by (rule chord_sym [OF l(1)])
  show "chord C (T k) (aneg (T (k + 1))) (aneg (T 1))" using chord_aneg [OF chord_sym [OF l(2)]] by simp
qed

text \<open>The coordinates of the two points of the ladder, for \<open>R[0] = T k\<close>.\<close>

definition ladder_pair :: "ecc_curve \<Rightarrow> (nat \<Rightarrow> affine) \<Rightarrow> nat \<Rightarrow> int \<Rightarrow> (vli \<times> vli) \<times> (vli \<times> vli)" where
  "ladder_pair C T k z = (co C z (T k), co C z (T (k + 1)))"

abbreviation signed_base :: "bool \<Rightarrow> (nat \<Rightarrow> affine) \<Rightarrow> affine" where
  "signed_base nb T \<equiv> if nb then aneg (T 1) else T 1"

lemma ofold_append: "ofold f (xs @ ys) s = Option.bind (ofold f xs s) (ofold f ys)"
proof (induction xs arbitrary: s)
  case (Cons x xs)
  then show ?case by (cases "f x s") simp_all
qed simp

context curve_field
begin

lemma coprime_step:
  assumes "chord C A B D" "coprime z (prime_of C)"
  shows "coprime (z * (z\<^sup>2 * (fst B - fst A))) (prime_of C)"
  using chord_coprime [OF assms(1)] assms(2) by simp

lemma ladder_addC_co:
  assumes "ladder_laws C T k" "coprime z (prime_of C)"
  obtains z' where "coprime z' (prime_of C)"
    "ladder_addC C nb (ladder_pair C T k z) = Some (pick nb (co C z' (signed_base nb T), co C z' (T (2 * k + 1))))"
proof (cases nb)
  case True
  show thesis
    by (rule that [OF coprime_step [OF ladder_lawsD(1) [OF assms(1)] assms(2)]])
      (simp add: True XYcZ_addC_co [OF ladder_lawsD(1,4) [OF assms(1)], simplified] ladder_addC_def ladder_pair_def pick_def)
next
  case False
  show thesis
    by (rule that [OF coprime_step [OF ladder_lawsD(2) [OF assms(1)] assms(2)]])
      (simp add: False XYcZ_addC_co [OF ladder_lawsD(2,3) [OF assms(1)], simplified] ladder_addC_def ladder_pair_def pick_def)
qed

lemma ladder_add_co:
  assumes "ladder_laws C T k"
  shows "ladder_add C nb (pick nb (co C z (signed_base nb T), co C z (T (2 * k + 1)))) =
    Some (ladder_pair C T (if nb then 2 * k else 2 * k + 1) (z * (z\<^sup>2 * (fst (T 1) - fst (T (2 * k + 1))))))"
  using XYcZ_add_co [OF ladder_lawsD(5) [OF assms], of z] XYcZ_add_co [OF ladder_lawsD(6) [OF assms], of z]
  by (cases nb) (simp_all add: ladder_add_def ladder_pair_def pick_def)

lemma ladder_round:
  assumes "ladder_laws C T k" "coprime z (prime_of C)"
  obtains z' where "coprime z' (prime_of C)"
    "Option.bind (ladder_addC C nb (ladder_pair C T k z)) (ladder_add C nb) = Some (ladder_pair C T (if nb then 2 * k else 2 * k + 1) z')"
proof -
  obtain y where y: "coprime y (prime_of C)"
    "ladder_addC C nb (ladder_pair C T k z) = Some (pick nb (co C y (signed_base nb T), co C y (T (2 * k + 1))))"
    using ladder_addC_co [OF assms] .
  have "coprime (y * (y\<^sup>2 * (fst (T 1) - fst (T (2 * k + 1))))) (prime_of C)"
    by (rule coprime_step [OF ladder_lawsD(5) [OF assms(1)] y(1)])
  then show thesis by (rule that) (simp only: y(2) bind.bind_lunit ladder_add_co [OF assms(1)])
qed

lemma ladder_loop:
  assumes "j \<le> m" "1 \<le> j" "coprime z (prime_of C)" "\<And>k. 1 \<le> k \<Longrightarrow> 2 * k \<le> val s \<Longrightarrow> ladder_laws C T k"
    "val s div 2 ^ m = 1" "m < 64 * length s"
  shows "\<exists>z'. coprime z' (prime_of C) \<and>
    ofold (\<lambda>i R. let nb = (vli_testBit s i = 0) in Option.bind (ladder_addC C nb R) (ladder_add C nb)) (rev [j..<m]) (ladder_pair C T 1 z) =
      Some (ladder_pair C T (val s div 2 ^ j) z')"
  using assms(1-2)
proof (induction rule: inc_induct)
  case base
  then show ?case using assms(3,5) by auto
next
  case (step j)
  let ?k = "val s div 2 ^ Suc j"
  let ?f = "\<lambda>i R. let nb = (vli_testBit s i = 0) in Option.bind (ladder_addC C nb R) (ladder_add C nb)"
  from step.IH obtain z' where z': "coprime z' (prime_of C)"
    "ofold ?f (rev [Suc j..<m]) (ladder_pair C T 1 z) = Some (ladder_pair C T ?k z')" by auto
  have "(2 :: nat) ^ Suc j \<le> 2 ^ m" using step.hyps by (intro power_increasing) auto
  then have "val s div 2 ^ m \<le> ?k" by (intro div_le_mono2) auto
  then have k: "1 \<le> ?k" using assms(5) by simp
  have "2 * ?k \<le> val s div 2 ^ j" unfolding power_Suc2 div_mult2_eq by simp
  then have k2: "2 * ?k \<le> val s" using div_le_dividend le_trans by blast
  obtain y where y: "coprime y (prime_of C)" "?f j (ladder_pair C T ?k z') = Some (ladder_pair C T (if vli_testBit s j = 0 then 2 * ?k else 2 * ?k + 1) y)"
    unfolding Let_def using ladder_round [OF assms(4) [OF k k2] z'(1)] by blast
  have "(if vli_testBit s j = 0 then 2 * ?k else 2 * ?k + 1) = val s div 2 ^ j"
    using vli_testBit_eq [of j s] step.hyps assms(6) unfolding power_Suc2 div_mult2_eq
    by (auto simp: odd_two_times_div_two_succ)
  with y z' step.hyps(2) show ?case by (intro exI [of _ y]) (simp add: upt_conv_Cons ofold_append)
qed

end

context curve_field
begin

lemma initial_double_co:
  assumes "tangent C A D" "coprime z (prime_of C)" "(case iz of None \<Rightarrow> fe C 1 | Some w \<Rightarrow> w) = fe C z"
  shows "XYcZ_initial_double C (fe C (fst A)) (fe C (snd A)) iz = Some (co C (snd A * z ^ 4) D, co C (snd A * z ^ 4) A)"
proof -
  have a: "apply_z C (fe C (fst A)) (fe C (snd A)) (fe C w) = Some (co C w A)" for w
    using apply_z_co [of 1 A w] by (simp add: co_def)
  have z: "(case iz of None \<Rightarrow> (vli_clear (NUM_ECC_DIGITS C))[0 := 1] | Some w \<Rightarrow> w) = fe C z"
    using assms(3) by (simp only: fe_one)
  show ?thesis using double_co [OF assms(1,2)]
    by (simp add: XYcZ_initial_double_def z a split_beta del: One_nat_def)
qed

text \<open>The last round: the inverse of the third coordinate is recovered from the difference of the two points.\<close>

lemma final_z:
  assumes "coprime z (prime_of C)" "chord C (T (2 * k + 1)) (T 1) D" "coprime (fst (T 1) * snd (T 1)) (prime_of C)"
    and R: "R = pick nb (co C z (signed_base nb T), co C z (T (2 * k + 1)))"
    and Rb: "Rb = co C z (signed_base nb T)"
  obtains t1 t2 t3 t4 w where "prime_of C dvd z * (z\<^sup>2 * (fst (T 1) - fst (T (2 * k + 1)))) * w - 1"
    "vli_modMult_fast C (vli_modSub (fst (snd R)) (fst (fst R)) (curve_p C)) (snd Rb) = Some t1"
    "vli_modMult_fast C t1 (fe C (fst (T 1))) = Some t2" "vli_modInv t2 (curve_p C) = Some t3"
    "vli_modMult_fast C t3 (fe C (snd (T 1))) = Some t4" "vli_modMult_fast C t4 (fst Rb) = Some (fe C w)"
proof -
  define x y X where "x = fst (T 1)" and "y = snd (T 1)" and "X = fst (T (2 * k + 1))"
  note T = x_def [symmetric, unfolded One_nat_def] y_def [symmetric, unfolded One_nat_def] X_def [symmetric, simplified]
  define a where "a = x * y * z ^ 5 * (x - X)"
  have "coprime a (prime_of C)" using assms(1,3) chord_coprime [OF assms(2)] by (simp add: a_def T)
  then obtain i where i: "prime_of C dvd i * a - 1" using coprime_inverse by blast
  have 1: "vli_modMult_fast C (vli_modSub (fst (snd R)) (fst (fst R)) (curve_p C)) (snd Rb) = Some (fe C (y * z ^ 5 * (x - X)))"
    unfolding R Rb
    by (cases nb; simp add: pick_def co_def T fe_simps; simp add: algebra_simps eval_nat_numeral)
  have 2: "prime_of C dvd z * (z\<^sup>2 * (x - X)) * (i * y * (x * z\<^sup>2)) - 1" using i unfolding a_def
    by (simp add: algebra_simps eval_nat_numeral)
  have 3: "vli_modInv (fe C (y * z ^ 5 * (x - X) * x)) (curve_p C) = Some (fe C i)"
    by (rule fe_inverse) (use i in \<open>simp add: a_def ac_simps\<close>)
  have 4: "fst Rb = fe C (x * z\<^sup>2)" by (simp add: Rb co_def T)
  show thesis
    by (rule that [OF 2 [unfolded x_def X_def] 1 _ 3 _]) (simp only: 4 fe_simps x_def [symmetric] y_def [symmetric])+
qed

lemma EccPoint_mult_co:
  assumes P: "pt_x P = fe C (fst (T 1))" "pt_y P = fe C (snd (T 1))" and x: "coprime (fst (T 1)) (prime_of C)"
    and t: "tangent C (T 1) (T 2)" and laws: "\<And>k. 1 \<le> k \<Longrightarrow> 2 * k \<le> max 2 (val s) \<Longrightarrow> ladder_laws C T k"
    and z: "coprime z (prime_of C)" "(case iz of None \<Rightarrow> fe C 1 | Some w \<Rightarrow> w) = fe C z"
    and s: "0 < length s"
  shows "EccPoint_mult C P s iz =
    (let k = if val s < 2 then val s + 2 else val s in Some \<lparr>pt_x = fe C (fst (T k)), pt_y = fe C (snd (T k))\<rparr>)"
proof -
  let ?f = "\<lambda>i R. let nb = (vli_testBit s i = 0) in Option.bind (ladder_addC C nb R) (ladder_add C nb)"
  define m k where "m = vli_numBits s - 1" and "k = (if val s < 2 then 1 else val s div 2)"
  define z0 where "z0 = snd (T 1) * z ^ 4"
  have z0: "coprime z0 (prime_of C)" using tangent_coprime [OF t] z(1) by (simp add: z0_def)
  have init: "XYcZ_initial_double C (pt_x P) (pt_y P) iz = Some (co C z0 (T 2), co C z0 (T 1))"
    unfolding P z0_def by (rule initial_double_co [OF t z])
  have "\<exists>z'. coprime z' (prime_of C) \<and> ofold ?f (rev [1..<m]) (ladder_pair C T 1 z0) = Some (ladder_pair C T k z')"
  proof (cases "val s < 2")
    case True
    then have "vli_numBits s \<le> 1" by (intro vli_numBits_le) simp
    then have "m = 0" by (simp add: m_def)
    then show ?thesis using z0 True by (auto simp: k_def)
  next
    case False
    have b: "val s < 2 ^ vli_numBits s" "2 ^ m \<le> val s" "vli_numBits s \<noteq> 0"
      using vli_numBits_bounds [of s] False by (auto simp: m_def)
    have n: "vli_numBits s = Suc m" using b(3) by (simp add: m_def)
    have "1 \<le> m" using b(1) False unfolding n by (cases m) simp_all
    moreover have "val s div 2 ^ m = 1" using b(1,2) unfolding n by (intro div_nat_eqI) simp_all
    moreover have "m < 64 * length s" using vli_numBits_le [OF val_less [of s]] n by simp
    ultimately have "\<exists>z'. coprime z' (prime_of C) \<and> ofold ?f (rev [1..<m]) (ladder_pair C T 1 z0) =
        Some (ladder_pair C T (val s div 2 ^ 1) z')"
      using laws by (intro ladder_loop z0) auto
    then show ?thesis using False by (simp add: k_def)
  qed
  then obtain z1 where z1: "coprime z1 (prime_of C)" "ofold ?f (rev [1..<m]) (ladder_pair C T 1 z0) = Some (ladder_pair C T k z1)" by blast
  have lk: "ladder_laws C T k" by (rule laws) (auto simp: k_def)
  define nb where "nb = (vli_testBit s 0 = 0)"
  have bit: "(if nb then 2 * k else 2 * k + 1) = (if val s < 2 then val s + 2 else val s)"
    using vli_testBit_eq [of 0 s] s unfolding nb_def k_def
    by (cases "val s = 0"; cases "val s = 1") (auto simp: odd_two_times_div_two_succ)
  obtain z2 where z2: "coprime z2 (prime_of C)"
    "ladder_addC C nb (ladder_pair C T k z1) = Some (pick nb (co C z2 (signed_base nb T), co C z2 (T (2 * k + 1))))"
    using ladder_addC_co [OF lk z1(1)] .
  define R where "R = pick nb (co C z2 (signed_base nb T), co C z2 (T (2 * k + 1)))"
  have Rb: "fst (pick nb R) = co C z2 (signed_base nb T)" by (simp add: R_def pick_def)
  have xy: "coprime (fst (T 1) * snd (T 1)) (prime_of C)" using x tangent_coprime [OF t] by simp
  obtain t1 t2 t3 t4 w where w: "prime_of C dvd z2 * (z2\<^sup>2 * (fst (T 1) - fst (T (2 * k + 1)))) * w - 1"
    "vli_modMult_fast C (vli_modSub (fst (snd R)) (fst (fst R)) (curve_p C)) (snd (fst (pick nb R))) = Some t1"
    "vli_modMult_fast C t1 (pt_x P) = Some t2" "vli_modInv t2 (curve_p C) = Some t3"
    "vli_modMult_fast C t3 (pt_y P) = Some t4" "vli_modMult_fast C t4 (fst (fst (pick nb R))) = Some (fe C w)"
    unfolding P by (rule final_z [OF z2(1) ladder_lawsD(5) [OF lk] xy R_def Rb])
  define z3 j where "z3 = z2 * (z2\<^sup>2 * (fst (T 1) - fst (T (2 * k + 1))))" and "j = (if nb then 2 * k else 2 * k + 1)"
  have "apply_z C (fst (co C z3 (T j))) (snd (co C z3 (T j))) (fe C w) = Some (co C 1 (T j))"
    unfolding apply_z_co using co_cong [OF w(1) [folded z3_def]] by simp
  then have a: "apply_z C (fst (fst (ladder_pair C T j z3))) (snd (fst (ladder_pair C T j z3))) (fe C w) = Some (fe C (fst (T j)), fe C (snd (T j)))"
    unfolding ladder_pair_def fst_conv by (simp add: co_def)
  have l: "ladder_add C nb R = Some (ladder_pair C T j z3)"
    unfolding R_def j_def z3_def by (rule ladder_add_co [OF lk])
  have i: "(co C z0 (T 1), co C z0 (T 2)) = ladder_pair C T 1 z0" by (simp add: ladder_pair_def numeral_2_eq_2)
  show ?thesis unfolding bit [folded j_def, symmetric] EccPoint_mult_def init
    by (simp only: bind.bind_lunit prod.case i m_def [symmetric] z1(2) [unfolded Let_def] Let_def nb_def [symmetric] z2(2) [folded R_def] split_beta w(2-) l a fst_conv snd_conv)
qed

end


section \<open>Properties\<close>

text \<open>
  Concrete sums are checked by giving the inverse \<open>i\<close>, the slope \<open>l\<close> and the quotients.
\<close>

lemma chordI:
  assumes "i * (fst B - fst A) - 1 = prime_of C * q" "i * (snd B - snd A) - l = prime_of C * r"
    "fst D - (l\<^sup>2 - fst A - fst B) = prime_of C * s" "snd D - (l * (fst A - fst D) - snd A) = prime_of C * t"
  shows "chord C A B D"
proof -
  define m where "m = i * (snd B - snd A)"
  have d: "prime_of C dvd i * (fst B - fst A) - 1" "prime_of C dvd m - l" "prime_of C dvd fst D - (l\<^sup>2 - fst A - fst B)"
    "prime_of C dvd snd D - (l * (fst A - fst D) - snd A)"
    unfolding assms m_def by (rule dvd_triv_left)+
  have "fst D - (m\<^sup>2 - fst A - fst B) = fst D - (l\<^sup>2 - fst A - fst B) - (m - l) * (m + l)"
    "snd D - (m * (fst A - fst D) - snd A) = snd D - (l * (fst A - fst D) - snd A) - (m - l) * (fst A - fst D)"
    by (simp_all add: algebra_simps power2_eq_square)
  then have "prime_of C dvd fst D - (m\<^sup>2 - fst A - fst B)" "prime_of C dvd snd D - (m * (fst A - fst D) - snd A)"
    using d by (metis dvd_diff dvd_mult2)+
  then show ?thesis using d(1) unfolding chord_def m_def by blast
qed

lemma tangentI:
  assumes "i * (2 * snd A) - 1 = prime_of C * q" "i * (3 * (fst A)\<^sup>2 - 3) - l = prime_of C * r"
    "fst D - (l\<^sup>2 - 2 * fst A) = prime_of C * s" "snd D - (l * (fst A - fst D) - snd A) = prime_of C * t"
  shows "tangent C A D"
proof -
  define m where "m = i * (3 * (fst A)\<^sup>2 - 3)"
  have d: "prime_of C dvd i * (2 * snd A) - 1" "prime_of C dvd m - l" "prime_of C dvd fst D - (l\<^sup>2 - 2 * fst A)"
    "prime_of C dvd snd D - (l * (fst A - fst D) - snd A)"
    unfolding assms m_def by (rule dvd_triv_left)+
  have "fst D - (m\<^sup>2 - 2 * fst A) = fst D - (l\<^sup>2 - 2 * fst A) - (m - l) * (m + l)"
    "snd D - (m * (fst A - fst D) - snd A) = snd D - (l * (fst A - fst D) - snd A) - (m - l) * (fst A - fst D)"
    by (simp_all add: algebra_simps power2_eq_square)
  then have "prime_of C dvd fst D - (m\<^sup>2 - 2 * fst A)" "prime_of C dvd snd D - (m * (fst A - fst D) - snd A)"
    using d by (metis dvd_diff dvd_mult2)+
  then show ?thesis using d(1) unfolding tangent_def m_def by blast
qed

text \<open>The first four multiples of the generator of secp128r1, the data of the examples below.\<close>

definition base_multiple :: "nat \<Rightarrow> affine" where
  "base_multiple k =
     [(0, 0), (0x161ff7528b899b2d0c28607ca52c5b86, 0xcf5ac8395bafeb13c02da292dded7a83),
      (0x8151a0c6b92171db199db84be753a97e, 0x3d853559455caae838395a9275b7e95),
      (0xad632f542942f23aa423b628a304b3b, 0x7aa67ee421c4e78851e4b4679bcdc41f),
      (0x47487e914aae409decb6495fbdd2647f, 0x4e67a67404c56ae34783239f70a198d3)] ! k"

lemma prime_128: "prime_of secp128r1 = 0xfffffffdffffffffffffffffffffffff"
  by simp

lemma base_multiples:
  "base_multiple 1 = (0x161ff7528b899b2d0c28607ca52c5b86, 0xcf5ac8395bafeb13c02da292dded7a83)"
  "base_multiple 2 = (0x8151a0c6b92171db199db84be753a97e, 0x3d853559455caae838395a9275b7e95)"
  "base_multiple 3 = (0xad632f542942f23aa423b628a304b3b, 0x7aa67ee421c4e78851e4b4679bcdc41f)"
  "base_multiple 4 = (0x47487e914aae409decb6495fbdd2647f, 0x4e67a67404c56ae34783239f70a198d3)"
  by (simp_all add: base_multiple_def)

lemma base_multiple_laws: "ladder_laws secp128r1 base_multiple 1"
proof -
  have "chord secp128r1 (base_multiple 1) (base_multiple 2) (base_multiple 3)"
    by (rule chordI [where i = "0xb3bfd45d8bfbd08b271e1d716af14c39" and l = "0xd809a9344f42f1c945a32898096c8aac" and q = "0x4b440c768c13754e1d0ddb7583a203c9" and r = "- 0x8ee4b6e3fe984aabe72f195e4239b556" and s = "- 0xb6504de707e541dd646d1825b2726caf" and t = "- 0x986aabcb10028a5aa84b372f4f3de3e"]; unfold base_multiples prime_128; simp)
  moreover have "chord secp128r1 (base_multiple 2) (aneg (base_multiple 1)) (base_multiple 1)"
    by (rule chordI [where i = "0x4c402ba074042f74d8e1e28e950eb3c6" and l = "0x8169f01f50d4b7892b391afdead229c" and q = "- 0x1fed9cfda184615ff0677c59be854a2f" and r = "- 0x3ee81cf3c616c5619d13d9e96d666cd4" and s = "- 0x416befd6ed394a882bb2ded626917a" and t = "- 0x3630624e23ba01cf7a8a071bc6285f8"]; unfold base_multiples prime_128 aneg_simps; simp)
  moreover have "chord secp128r1 (base_multiple 3) (base_multiple 1) (base_multiple 4)"
    by (rule chordI [where i = "0x68d77afef0e9bbd58111c3509b87bc6f" and l = "0x1ce6f8b74fdcb8fb0fd160273b55c895" and q = "0x49f78263e9faa24dbb2aca33030db7c" and r = "0x22b089e6c105ecc492f6196e8ae84339" and s = "- 0x34356cbfb0624aa318360a56f13e487" and t = "0x6d309af0e86cc51ca76594232e6ce7a"]; unfold base_multiples prime_128; simp)
  moreover have "chord secp128r1 (base_multiple 3) (aneg (base_multiple 1)) (base_multiple 2)"
    by (rule chordI [where i = "0x68d77afef0e9bbd58111c3509b87bc6f" and l = "0x27f656c9b0bd0e36ba5cd767f6937553" and q = "0x49f78263e9faa24dbb2aca33030db7c" and r = "- 0x87264a8502bf84b9fc09f74da1cf6a6f" and s = "- 0x63cfb7c695f5e4ad926c6f59f995756" and t = "0x127ed08164ef04688adde4dc5dd18e93"]; unfold base_multiples prime_128 aneg_simps; simp)
  moreover have n: "1 + 1 = (2 :: nat)" "2 * 1 = (2 :: nat)" "2 + 1 = (3 :: nat)" "2 + 2 = (4 :: nat)" by simp_all
  ultimately show ?thesis unfolding ladder_laws_def n by blast
qed

lemma base_multiple_double: "tangent secp128r1 (base_multiple 1) (base_multiple 2)"
  by (rule tangentI [where i = "0x12a533d6fdca4017dc8974b1c7744c33" and l = "0xf7e960fc0af2b4876d4c6e502152dd63" and q = "0x1e346328d9ec616c498990e1e1eb67cf" and r = "0x6af533b7b05fc191d7b22848c2a50b7a401cd624c8fcc0d5ce1f21a5dd2278" and s = "- 0xf0142de9ecd2a25962c48f7f18cc4c41" and t = "0x67cea34f4b5c369115ccb75d85c4c800"]; unfold base_multiples prime_128; simp)

lemma base_multiple_G:
  "curve_G secp128r1 = \<lparr>pt_x = fe secp128r1 (fst (base_multiple 1)), pt_y = fe secp128r1 (snd (base_multiple 1))\<rparr>"
  "coprime (fst (base_multiple 1)) (prime_of secp128r1)"
proof -
  have v: "fe secp128r1 (int (val x)) = x" if "length x = 2" "val x < val (curve_p secp128r1)" for x
    using fe_cases [of x secp128r1] that by (simp add: NUM_ECC_DIGITS_def del: curve_p.simps)
  show "curve_G secp128r1 = \<lparr>pt_x = fe secp128r1 (fst (base_multiple 1)), pt_y = fe secp128r1 (snd (base_multiple 1))\<rparr>"
    using v [of "pt_x (curve_G secp128r1)"] v [of "pt_y (curve_G secp128r1)"] unfolding base_multiples by simp
  have "0x6a251464d4da298b07063e9ceea93ac2 * fst (base_multiple 1) - 1 = prime_of secp128r1 * 0x92c70ca3542697ddb5c2317c8304875"
    unfolding base_multiples prime_128 by simp
  then show "coprime (fst (base_multiple 1)) (prime_of secp128r1)" by (rule inverse_coprime [OF dvdI])
qed

text \<open>
  C28. Scalar multiplication. Let \<open>T k\<close> be the affine coordinates of the multiples of a point: the tangent and chord laws
  hold between those multiples that the ladder visits. For every scalar from 2 on, every of the three
  curves with an exact reduction and every invertible initial third coordinate, the co-Z ladder ends and returns the affine coordinates
  of the multiple, reduced modulo the prime.
\<close>

theorem ladder_multiplies:
  assumes "C \<noteq> secp384r1" "pt_x P = fe C (fst (T 1))" "pt_y P = fe C (snd (T 1))" "coprime (fst (T 1)) (prime_of C)"
    "tangent C (T 1) (T 2)" "\<forall>k. 1 \<le> k \<and> 2 * k \<le> val s \<longrightarrow> ladder_laws C T k" "2 \<le> val s"
    "coprime z (prime_of C)" "(case iz of None \<Rightarrow> fe C 1 | Some w \<Rightarrow> w) = fe C z"
  shows "EccPoint_mult C P s iz = Some \<lparr>pt_x = fe C (fst (T (val s))), pt_y = fe C (snd (T (val s)))\<rparr>"
proof -
  have s: "0 < length s" using assms(7) by (cases s) simp_all
  have l: "ladder_laws C T k" if "1 \<le> k" "2 * k \<le> max 2 (val s)" for k using assms(6,7) that by simp
  show ?thesis using curve_field.EccPoint_mult_co [OF reducing_curve [OF assms(1)] assms(2-5) l assms(8,9) s] assms(7) by (simp add: Let_def)
qed

theorem ladder_multiplies_witness:
  "EccPoint_mult secp128r1 (curve_G secp128r1) [3, 0] None =
     Some \<lparr>pt_x = fe secp128r1 (fst (base_multiple 3)), pt_y = fe secp128r1 (snd (base_multiple 3))\<rparr>"
proof -
  have v: "val [3, 0] = 3" by simp
  have "k = 1" if "1 \<le> k \<and> 2 * k \<le> 3" for k :: nat using that by linarith
  then have "\<forall>k. 1 \<le> k \<and> 2 * k \<le> val [3, 0] \<longrightarrow> ladder_laws secp128r1 base_multiple k"
    unfolding v using base_multiple_laws by metis
  then show ?thesis
    using ladder_multiplies [of secp128r1 "curve_G secp128r1" base_multiple "[3, 0]" 1 None] base_multiple_G base_multiple_double
    by (simp del: curve_G.simps curve_p.simps)
qed

text \<open>
  C29. The ladder starts at the second bit from the top and treats the lowest bit separately, so a scalar below 2 has its only bit
  processed after the leading one was assumed: multiplying by 1 returns three times the point, multiplying by 0 returns the double.
\<close>

theorem ladder_small_scalars:
  assumes "C \<noteq> secp384r1" "pt_x P = fe C (fst (T 1))" "pt_y P = fe C (snd (T 1))" "coprime (fst (T 1)) (prime_of C)"
    "tangent C (T 1) (T 2)" "ladder_laws C T 1" "val s < 2" "0 < length s"
  shows "EccPoint_mult C P s None = Some \<lparr>pt_x = fe C (fst (T (val s + 2))), pt_y = fe C (snd (T (val s + 2)))\<rparr>"
proof -
  have l: "ladder_laws C T k" if "1 \<le> k" "2 * k \<le> max 2 (val s)" for k
  proof -
    have "k = 1" using that assms(7) by (simp add: max_def)
    then show ?thesis using assms(6) by simp
  qed
  show ?thesis using curve_field.EccPoint_mult_co [OF reducing_curve [OF assms(1)] assms(2-5) l, where z = 1 and iz = None] assms(7,8) by (simp add: Let_def)
qed

theorem ladder_small_scalars_witness:
  "EccPoint_mult secp128r1 (curve_G secp128r1) [1, 0] None =
     Some \<lparr>pt_x = fe secp128r1 (fst (base_multiple 3)), pt_y = fe secp128r1 (snd (base_multiple 3))\<rparr>"
  using ladder_small_scalars [of secp128r1 "curve_G secp128r1" base_multiple "[1, 0]"] base_multiple_G base_multiple_double base_multiple_laws
  by (simp add: numeral_3_eq_3 del: curve_G.simps curve_p.simps)

end
