(* ===== verification/Ecdsa.thy ===== *)
theory Ecdsa
  imports Ecc_Point
begin

unbundle bit_operations_syntax

text \<open>
  Keys and signatures of \<^verbatim>\<open>emod_manager/attest/ecc.c\<close>: the emodule manager checks the signature of an emodule with
  \<open>ecdsa_verify\<close> before it loads it; a copy of the file in \<^verbatim>\<open>tools/sign\<close>, which differs in having a
  random number generator, makes the keys and the signatures.

  The verification loop is correct by induction on the bits of the two scalars, over the point formulas of \<open>Ecc_Point\<close>; the
  group laws for the sums that the loop visits are a hypothesis (\<open>shamir_laws\<close>).
\<close>

section \<open>Keys and signatures\<close>

definition digit_of_bytes :: "u8 list \<Rightarrow> u64" where
  "digit_of_bytes d = push_bit 56 (ucast (d ! 0)) OR push_bit 48 (ucast (d ! 1)) OR push_bit 40 (ucast (d ! 2)) OR
     push_bit 32 (ucast (d ! 3)) OR push_bit 24 (ucast (d ! 4)) OR push_bit 16 (ucast (d ! 5)) OR
     push_bit 8 (ucast (d ! 6)) OR ucast (d ! 7)"

definition bytes_of_digit :: "u64 \<Rightarrow> u8 list" where
  "bytes_of_digit d = [ucast (drop_bit 56 d), ucast (drop_bit 48 d), ucast (drop_bit 40 d), ucast (drop_bit 32 d),
     ucast (drop_bit 24 d), ucast (drop_bit 16 d), ucast (drop_bit 8 d), ucast d]"

definition ecc_bytes2native :: "ecc_curve \<Rightarrow> u8 list \<Rightarrow> vli" where
  "ecc_bytes2native C p_bytes =
     map (\<lambda>i. digit_of_bytes (take 8 (drop (8 * (NUM_ECC_DIGITS C - 1 - i)) p_bytes))) [0..<NUM_ECC_DIGITS C]"

definition ecc_native2bytes :: "ecc_curve \<Rightarrow> vli \<Rightarrow> u8 list" where
  "ecc_native2bytes C p_native =
     concat (map (\<lambda>j. bytes_of_digit (p_native ! (NUM_ECC_DIGITS C - 1 - j))) [0..<NUM_ECC_DIGITS C])"

definition mod_sqrt :: "ecc_curve \<Rightarrow> vli \<Rightarrow> vli option" where
  "mod_sqrt C a =
     (let one = (vli_clear (NUM_ECC_DIGITS C))[0 := 1];
          p1 = fst (vli_add (curve_p C) one)
      in ofold (\<lambda>i l_result. do {
             l_result \<leftarrow> vli_modSquare_fast C l_result;
             if vli_testBit p1 i \<noteq> 0 then vli_modMult_fast C l_result a else Some l_result
           }) (rev [2..<vli_numBits p1]) one)"

definition ecc_point_decompress :: "ecc_curve \<Rightarrow> u8 list \<Rightarrow> EccPoint option" where
  "ecc_point_decompress C p_compressed =
     do {
       let three = (vli_clear (NUM_ECC_DIGITS C))[0 := 3];
       let x = ecc_bytes2native C (tl p_compressed);
       y \<leftarrow> vli_modSquare_fast C x;
       let y = vli_modSub y three (curve_p C);
       y \<leftarrow> vli_modMult_fast C y x;
       let y = vli_modAdd y (curve_b C) (curve_p C);
       y \<leftarrow> mod_sqrt C y;
       let y = (if y ! 0 AND 0x01 \<noteq> ucast (hd p_compressed AND 0x01) then fst (vli_sub (curve_p C) y) else y);
       Some \<lparr>pt_x = x, pt_y = y\<rparr>
     }"

text \<open>
  Random numbers: \<open>rng k\<close> is the \<open>k\<close>-th number the generator delivers in a call, \<open>None\<close> when it fails. The
  emodule manager is built without a generator. A loop that executes \<^verbatim>\<open>continue\<close> tests the
  condition at its end, which reads the point that the loop has not computed yet in the first round; \<open>junk\<close> stands for
  what the uninitialised variable holds. The result is \<open>None\<close> when a reduction does not end, \<open>Some None\<close> for the return value 0.
\<close>

type_synonym rng = "nat \<Rightarrow> vli option"

definition getRandomNumber :: rng where
  "getRandomNumber k = None"

definition MAX_TRIES :: nat where "MAX_TRIES = 16"

definition reduce_once :: "ecc_curve \<Rightarrow> vli \<Rightarrow> vli" where
  "reduce_once C k = (if vli_cmp (curve_n C) k \<noteq> 1 then fst (vli_sub k (curve_n C)) else k)"

function make_key_loop :: "ecc_curve \<Rightarrow> rng \<Rightarrow> nat \<Rightarrow> EccPoint \<Rightarrow> (vli \<times> EccPoint) option option" where
  "make_key_loop C rng l_tries l_public =
     (case rng l_tries of
       None \<Rightarrow> Some None
     | Some l_private \<Rightarrow>
         if l_tries \<ge> MAX_TRIES then Some None
         else if vli_isZero l_private then
           (if EccPoint_isZero l_public then make_key_loop C rng (l_tries + 1) l_public else Some (Some (l_private, l_public)))
         else
           (let l_private = reduce_once C l_private in
            case EccPoint_mult C (curve_G C) l_private None of
              None \<Rightarrow> None
            | Some l_public \<Rightarrow>
                if EccPoint_isZero l_public then make_key_loop C rng (l_tries + 1) l_public
                else Some (Some (l_private, l_public))))"
  by auto
termination
  by (relation "measure (\<lambda>(C, rng, k, p). MAX_TRIES - k)") auto

definition ecc_make_key :: "ecc_curve \<Rightarrow> rng \<Rightarrow> EccPoint \<Rightarrow> (u8 list \<times> u8 list) option option" where
  "ecc_make_key C rng junk =
     map_option (map_option (\<lambda>(l_private, l_public).
         ((2 + ucast (pt_y l_public ! 0 AND 0x01)) # ecc_native2bytes C (pt_x l_public), ecc_native2bytes C l_private)))
       (make_key_loop C rng 0 junk)"

definition ecdh_shared_secret :: "ecc_curve \<Rightarrow> rng \<Rightarrow> u8 list \<Rightarrow> u8 list \<Rightarrow> (u8 list \<times> bool) option option" where
  "ecdh_shared_secret C rng p_publicKey p_privateKey =
     (case rng 0 of
       None \<Rightarrow> Some None
     | Some l_random \<Rightarrow>
         do {
           l_public \<leftarrow> ecc_point_decompress C p_publicKey;
           let l_private = ecc_bytes2native C p_privateKey;
           l_product \<leftarrow> EccPoint_mult C l_public l_private (Some l_random);
           Some (Some (ecc_native2bytes C (pt_x l_product), \<not> EccPoint_isZero l_product))
         })"

function sign_loop :: "ecc_curve \<Rightarrow> rng \<Rightarrow> nat \<Rightarrow> vli \<Rightarrow> (vli \<times> vli) option option" where
  "sign_loop C rng l_tries px =
     (case rng l_tries of
       None \<Rightarrow> Some None
     | Some k \<Rightarrow>
         if l_tries \<ge> MAX_TRIES then Some None
         else if vli_isZero k then
           (if vli_isZero px then sign_loop C rng (l_tries + 1) px else Some (Some (k, px)))
         else
           (let k = reduce_once C k in
            case EccPoint_mult C (curve_G C) k None of
              None \<Rightarrow> None
            | Some p \<Rightarrow>
                (let px = reduce_once C (pt_x p) in
                 if vli_isZero px then sign_loop C rng (l_tries + 1) px else Some (Some (k, px)))))"
  by auto
termination
  by (relation "measure (\<lambda>(C, rng, k, p). MAX_TRIES - k)") auto

definition ecdsa_sign :: "ecc_curve \<Rightarrow> rng \<Rightarrow> vli \<Rightarrow> u8 list \<Rightarrow> u8 list \<Rightarrow> u8 list option option" where
  "ecdsa_sign C rng junk p_privateKey p_hash =
     do {
       r \<leftarrow> sign_loop C rng 0 junk;
       case r of None \<Rightarrow> Some None
       | Some (k, px) \<Rightarrow> do {
           l_s \<leftarrow> vli_modMult px (ecc_bytes2native C p_privateKey) (curve_n C);
           let l_s = vli_modAdd (ecc_bytes2native C p_hash) l_s (curve_n C);
           k \<leftarrow> vli_modInv k (curve_n C);
           l_s \<leftarrow> vli_modMult l_s k (curve_n C);
           Some (Some (ecc_native2bytes C px @ ecc_native2bytes C l_s))
         }
     }"

text \<open>
  Verification. The table of points holds the generator, the public key and their sum; index 0 is the
  null pointer, which the first access would dereference (\<open>NullDeref\<close> is modelled by \<open>None\<close> here) and the loop tests for.
\<close>

definition l_points :: "ecc_curve \<Rightarrow> EccPoint \<Rightarrow> EccPoint \<Rightarrow> vli \<Rightarrow> vli \<Rightarrow> nat \<Rightarrow> EccPoint option" where
  "l_points C l_public l_sum u1 u2 i =
     (case (vli_testBit u1 i \<noteq> 0, vli_testBit u2 i \<noteq> 0) of
       (False, False) \<Rightarrow> None
     | (True, False) \<Rightarrow> Some (curve_G C)
     | (False, True) \<Rightarrow> Some l_public
     | (True, True) \<Rightarrow> Some l_sum)"

definition shamir_step :: "ecc_curve \<Rightarrow> EccPoint option \<Rightarrow> vli \<times> vli \<times> vli \<Rightarrow> (vli \<times> vli \<times> vli) option" where
  "shamir_step C l_point = (\<lambda>(rx, ry, z).
     do {
       (rx, ry, z) \<leftarrow> EccPoint_double_jacobian C rx ry z;
       case l_point of None \<Rightarrow> Some (rx, ry, z)
       | Some p \<Rightarrow> do {
           (tx, ty) \<leftarrow> apply_z C (pt_x p) (pt_y p) z;
           let tz = vli_modSub rx tx (curve_p C);
           ((tx, ty), (rx, ry)) \<leftarrow> XYcZ_add C (tx, ty) (rx, ry);
           z \<leftarrow> vli_modMult_fast C z tz;
           Some (rx, ry, z)
         }
     })"

definition sum_with_G :: "ecc_curve \<Rightarrow> EccPoint \<Rightarrow> EccPoint option" where
  "sum_with_G C l_public =
     do {
       let G = curve_G C;
       let z = vli_modSub (pt_x l_public) (pt_x G) (curve_p C);
       ((tx, ty), (sx, sy)) \<leftarrow> XYcZ_add C (pt_x G, pt_y G) (pt_x l_public, pt_y l_public);
       z \<leftarrow> vli_modInv z (curve_p C);
       (sx, sy) \<leftarrow> apply_z C sx sy z;
       Some \<lparr>pt_x = sx, pt_y = sy\<rparr>
     }"

definition ecdsa_verify :: "ecc_curve \<Rightarrow> u8 list \<Rightarrow> u8 list \<Rightarrow> u8 list \<Rightarrow> bool option" where
  "ecdsa_verify C p_publicKey p_hash p_signature =
     do {
       l_public \<leftarrow> ecc_point_decompress C p_publicKey;
       let l_r = ecc_bytes2native C p_signature;
       let l_s = ecc_bytes2native C (drop (ECC_BYTES C) p_signature);
       if vli_isZero l_r \<or> vli_isZero l_s then Some False
       else if vli_cmp (curve_n C) l_r \<noteq> 1 \<or> vli_cmp (curve_n C) l_s \<noteq> 1 then Some False
       else do {
         z \<leftarrow> vli_modInv l_s (curve_n C);
         u1 \<leftarrow> vli_modMult (ecc_bytes2native C p_hash) z (curve_n C);
         u2 \<leftarrow> vli_modMult l_r z (curve_n C);
         l_sum \<leftarrow> sum_with_G C l_public;
         let l_numBits = max (vli_numBits u1) (vli_numBits u2);
         let points = l_points C l_public l_sum u1 u2;
         l_point \<leftarrow> points (l_numBits - 1);
         (rx, ry, z) \<leftarrow> ofold (\<lambda>i. shamir_step C (points i)) (rev [0..<l_numBits - 1])
            (pt_x l_point, pt_y l_point, (vli_clear (NUM_ECC_DIGITS C))[0 := 1]);
         z \<leftarrow> vli_modInv z (curve_p C);
         (rx, ry) \<leftarrow> apply_z C rx ry z;
         let rx = reduce_once C rx;
         Some (vli_cmp rx l_r = 0)
       }
     }"

declare make_key_loop.simps [simp del] sign_loop.simps [simp del]

section \<open>Square roots and bytes\<close>

context curve_field
begin

lemma power_loop:
  assumes "j \<le> m" "m \<le> 64 * length e" "val e div 2 ^ m = 0"
  shows "ofold (\<lambda>i r. do { r \<leftarrow> vli_modSquare_fast C r; if vli_testBit e i \<noteq> 0 then vli_modMult_fast C r (fe C a) else Some r })
    (rev [j..<m]) (fe C 1) = Some (fe C (a ^ (val e div 2 ^ j)))"
  using assms(1)
proof (induction rule: inc_induct)
  case base
  then show ?case using assms(3) by simp
next
  case (step j)
  have k: "val e div 2 ^ Suc j = (val e div 2 ^ j) div 2" unfolding power_Suc2 div_mult2_eq ..
  have t: "vli_testBit e j \<noteq> 0 \<longleftrightarrow> odd (val e div 2 ^ j)" by (rule vli_testBit_eq) (use step assms(2) in simp)
  define q where "q = val e div 2 ^ j"
  have "a ^ (q div 2) * a ^ (q div 2) = a ^ q" if "even q" using that by (simp flip: power_add mult_2)
  moreover have "a ^ (q div 2) * a ^ (q div 2) * a = a ^ q" if "odd q"
    using that by (metis power_add power_Suc2 mult_2 odd_two_times_div_two_succ Suc_eq_plus1)
  ultimately show ?case using step t unfolding k q_def [symmetric]
    by (auto simp: upt_conv_Cons ofold_append fe_simps)
qed

lemma p_succ: "val (curve_p C) + 1 < base (NUM_ECC_DIGITS C)"
  by (cases C) (simp_all add: NUM_ECC_DIGITS_def)

lemma mod_sqrt_fe: "mod_sqrt C (fe C a) = Some (fe C (a ^ ((val (curve_p C) + 1) div 4)))"
proof -
  define e where "e = fst (vli_add (curve_p C) (fe C 1))"
  have "val (fe C 1) = 1" using prime_of_bounds(1) [of C] by (simp add: val_fe)
  then have e: "e = digits (NUM_ECC_DIGITS C) (val (curve_p C) + 1)"
    unfolding e_def using vli_add_eq [OF curve_p_basic(1) length_fe] by simp
  then have v: "val e = val (curve_p C) + 1" using p_succ by (simp add: val_digits)
  have m: "vli_numBits e \<le> 64 * length e" by (rule vli_numBits_le [OF val_less])
  have z: "val e div 2 ^ vli_numBits e = 0" using vli_numBits_bounds(1) [of e] by simp
  have "1 < val e" using v curve_p_basic(3) [of C] by simp
  have "\<not> vli_numBits e \<le> 1"
  proof
    assume "vli_numBits e \<le> 1"
    then have "(2 :: nat) ^ vli_numBits e \<le> 2 ^ 1" by (rule power_increasing) simp
    then show False using vli_numBits_bounds(1) [of e] \<open>1 < val e\<close> by simp
  qed
  then have "2 \<le> vli_numBits e" by simp
  then show ?thesis
    using power_loop [OF _ m z, of 2 a] unfolding mod_sqrt_def fe_one Let_def e_def [symmetric] v by simp
qed

end

lemma digit_bytes_digit: "digit_of_bytes (bytes_of_digit d) = d"
proof (rule bit_word_eqI)
  fix n assume "n < LENGTH(64)"
  then consider "n < 8" | "8 \<le> n" "n < 16" | "16 \<le> n" "n < 24" | "24 \<le> n" "n < 32" | "32 \<le> n" "n < 40" | "40 \<le> n" "n < 48" |
    "48 \<le> n" "n < 56" | "56 \<le> n" "n < 64" by fastforce
  then show "bit (digit_of_bytes (bytes_of_digit d)) n = bit d n"
    by cases (simp_all add: digit_of_bytes_def bytes_of_digit_def bit_simps less_diff_conv2)
qed

lemma no_high_bit: "8 \<le> n \<Longrightarrow> \<not> bit (b :: u8) n"
  using bit_imp_le_length [of b n] by auto

lemma bytes_digit_bytes: "length b = 8 \<Longrightarrow> bytes_of_digit (digit_of_bytes b) = b"
proof -
  assume "length b = 8"
  then obtain b0 b1 b2 b3 b4 b5 b6 b7 where b: "b = [b0, b1, b2, b3, b4, b5, b6, b7]"
    by (auto simp: eval_nat_numeral length_Suc_conv)
  show ?thesis unfolding b digit_of_bytes_def bytes_of_digit_def
    by (auto intro!: bit_word_eqI simp: bit_simps no_high_bit)
qed

lemma length_bytes_of_digit [simp]: "length (bytes_of_digit d) = 8"
  by (simp add: bytes_of_digit_def)

lemma length_native [simp]: "length (ecc_bytes2native C b) = NUM_ECC_DIGITS C"
  by (simp add: ecc_bytes2native_def)

lemma chunk_concat:
  assumes "\<And>x. x \<in> set xs \<Longrightarrow> length x = 8" "i < length xs"
  shows "take 8 (drop (8 * i) (concat xs)) = xs ! i"
  using assms
proof (induction xs arbitrary: i)
  case (Cons x xs)
  then show ?case by (cases i) simp_all
qed simp

lemma concat_chunks: "length b = 8 * n \<Longrightarrow> concat (map (\<lambda>j. take 8 (drop (8 * j) b)) [0..<n]) = b"
proof (induction n arbitrary: b)
  case (Suc n)
  have u: "[0..<Suc n] = 0 # map Suc [0..<n]" by (simp only: upt_conv_Cons map_Suc_upt zero_less_Suc)
  have m: "map (\<lambda>j. take 8 (drop (8 * Suc j) b)) [0..<n] = map (\<lambda>j. take 8 (drop (8 * j) (drop 8 b))) [0..<n]"
    by (simp add: ac_simps)
  have "concat (map (\<lambda>j. take 8 (drop (8 * Suc j) b)) [0..<n]) = drop 8 b"
    unfolding m by (rule Suc.IH) (use Suc.prems in simp)
  then show ?case unfolding u by (simp add: comp_def)
qed simp

lemma native_bytes_native: "length x = NUM_ECC_DIGITS C \<Longrightarrow> ecc_bytes2native C (ecc_native2bytes C x) = x"
proof (rule nth_equalityI)
  fix i assume x: "length x = NUM_ECC_DIGITS C" and "i < length (ecc_bytes2native C (ecc_native2bytes C x))"
  then have i: "i < NUM_ECC_DIGITS C" by simp
  have "take 8 (drop (8 * (NUM_ECC_DIGITS C - 1 - i)) (ecc_native2bytes C x)) = bytes_of_digit (x ! i)"
    unfolding ecc_native2bytes_def using i by (subst chunk_concat) auto
  then show "ecc_bytes2native C (ecc_native2bytes C x) ! i = x ! i"
    using i by (simp add: ecc_bytes2native_def digit_bytes_digit)
qed simp

lemma bytes_native_bytes: "length b = ECC_BYTES C \<Longrightarrow> ecc_native2bytes C (ecc_bytes2native C b) = b"
proof -
  assume b: "length b = ECC_BYTES C"
  define n where "n = NUM_ECC_DIGITS C"
  have bn: "length b = 8 * n" using b by (cases C) (simp_all add: n_def NUM_ECC_DIGITS_def)
  have "ecc_native2bytes C (ecc_bytes2native C b) = concat (map (\<lambda>j. take 8 (drop (8 * j) b)) [0..<n])"
    unfolding ecc_native2bytes_def n_def [symmetric]
    by (intro arg_cong [of _ _ concat] map_cong) (auto simp: ecc_bytes2native_def n_def [symmetric] bn intro!: bytes_digit_bytes)
  then show ?thesis using concat_chunks [OF bn] by simp
qed

text \<open>The right-hand side of the curve equation at the abscissa \<open>x\<close>.\<close>

definition curve_rhs :: "ecc_curve \<Rightarrow> int \<Rightarrow> int" where
  "curve_rhs C x = x ^ 3 - 3 * x + int (val (curve_b C))"

lemma curve_b_fe: "curve_b C = fe C (int (val (curve_b C)))"
  by (rule fe_cases; cases C; simp add: NUM_ECC_DIGITS_def)

lemma p_mod_4: "C \<noteq> secp384r1 \<Longrightarrow> val (curve_p C) mod 4 = 3"
  by (cases C) simp_all

lemma digits_base: "digits n (base n + v) = digits n v"
  by (metis digits_mod mod_add_self1)

lemma low_bit: "0 < length y \<Longrightarrow> y ! 0 AND 1 = of_bool (odd (val y))"
  using EVEN_iff [of y] by (cases "odd (val y)") (auto simp: EVEN_def and_one_eq odd_iff_mod_2_eq_one)

lemma low_bit_u8: "(ucast (b AND 1 :: u8) :: u64) = of_bool (odd b)"
  by (simp add: and_one_eq mod2_eq_if)

context curve_field
begin

lemma decompress_raw:
  assumes "r = fe C (curve_rhs C (int (val (ecc_bytes2native C b))) ^ ((val (curve_p C) + 1) div 4))"
  shows "ecc_point_decompress C (h # b) =
    Some \<lparr>pt_x = ecc_bytes2native C b, pt_y = if odd (val r) = odd h then r else fst (vli_sub (curve_p C) r)\<rparr>"
proof -
  define x where "x = int (val (ecc_bytes2native C b))"
  let ?x = "ecc_bytes2native C b"
  have "vli_modSquare_fast C ?x = Some (fe C (x * x))" by (simp add: modSquare_val x_def)
  moreover have "vli_modMult_fast C (fe C (x * x - 3)) ?x = Some (fe C ((x * x - 3) * x))"
    by (simp add: modMult_val x_def int_val_fe fe_eq_iff mod_simps)
  moreover have "vli_modAdd (fe C ((x * x - 3) * x)) (curve_b C) (curve_p C) = fe C (curve_rhs C x)"
    by (subst curve_b_fe) (simp add: fe_add curve_rhs_def algebra_simps power3_eq_cube)
  moreover have "mod_sqrt C (fe C (curve_rhs C x)) = Some r" unfolding mod_sqrt_fe assms x_def ..
  moreover have "(r ! 0 AND 1 \<noteq> ucast (h AND 1)) \<longleftrightarrow> odd (val r) \<noteq> odd h"
    using low_bit [of r] curve_p_basic(4) [of C] by (simp add: low_bit_u8 assms)
  ultimately show ?thesis by (simp add: ecc_point_decompress_def fe_one fe_sub)
qed

lemma decompress_eq:
  assumes "val (curve_p C) mod 4 = 3" "length b = ECC_BYTES C"
    "prime_of C dvd curve_rhs C x ^ ((val (curve_p C) - 1) div 2) - 1" "x = int (val (ecc_bytes2native C b))"
  shows "\<exists>y. ecc_point_decompress C (h # b) = Some \<lparr>pt_x = ecc_bytes2native C b, pt_y = y\<rparr> \<and> length y = NUM_ECC_DIGITS C \<and>
    val y < val (curve_p C) \<and> prime_of C dvd (int (val y))\<^sup>2 - curve_rhs C x \<and> (odd (val y) \<longleftrightarrow> odd h)"
proof -
  define p a q where "p = val (curve_p C)" and "a = curve_rhs C x" and "q = p div 4"
  have q: "p = 4 * q + 3" using assms(1) by (simp add: p_def q_def) presburger
  have e: "(p + 1) div 4 = q + 1" "(p - 1) div 2 = 2 * q + 1" unfolding q by simp_all
  have euler: "prime_of C dvd a ^ (2 * q + 1) - 1" using assms(3) unfolding p_def [symmetric] a_def [symmetric] e .
  define r where "r = fe C (a ^ (q + 1))"
  have r: "length r = NUM_ECC_DIGITS C" "val r < p" "prime_of C dvd int (val r) - a ^ (q + 1)"
    using val_fe_less [of C "a ^ (q + 1)"] by (simp_all add: r_def int_val_fe p_def mod_eq_dvd_iff [symmetric])
  have sq: "prime_of C dvd (int (val r))\<^sup>2 - a"
  proof -
    have "(int (val r))\<^sup>2 - a = (int (val r) - a ^ (q + 1)) * (int (val r) + a ^ (q + 1)) + a * (a ^ (2 * q + 1) - 1)"
      by (simp add: algebra_simps power2_eq_square flip: power_add mult_2)
    then show ?thesis using r(3) euler by (metis dvd_add dvd_mult dvd_mult2)
  qed
  have "val r \<noteq> 0"
  proof
    assume "val r = 0"
    then have "prime_of C dvd - a" using sq by simp
    then have "prime_of C dvd a * a ^ (2 * q)" by simp
    then have "prime_of C dvd a ^ (2 * q + 1) - (a ^ (2 * q + 1) - 1)" using euler by (metis dvd_diff power_Suc Suc_eq_plus1)
    then show False using prime_of_bounds(1) [of C] by simp
  qed
  define n where "n = fst (vli_sub (curve_p C) r)"
  have "n = digits (NUM_ECC_DIGITS C) (p - val r)"
    unfolding n_def vli_sub_eq [OF curve_p_basic(1) r(1)] fst_conv p_def [symmetric]
    using digits_base [of "NUM_ECC_DIGITS C" "p - val r"] r(2) by simp
  then have n: "length n = NUM_ECC_DIGITS C" "val n = p - val r" using prime_of_bounds(3) [of C]
    by (simp_all add: val_digits_less p_def)
  have "(int (val n))\<^sup>2 - a = int p * (int p - 2 * int (val r)) + ((int (val r))\<^sup>2 - a)"
    using r(2) by (simp add: n(2) of_nat_diff algebra_simps power2_eq_square)
  then have nsq: "prime_of C dvd (int (val n))\<^sup>2 - a" using sq unfolding p_def by (metis dvd_add dvd_triv_left)
  have odd: "odd (val n) \<longleftrightarrow> even (val r)" using curve_p_basic(2) [of C] r(2) unfolding n(2) p_def by (simp add: even_diff_nat)
  have "ecc_point_decompress C (h # b) = Some \<lparr>pt_x = ecc_bytes2native C b, pt_y = if odd (val r) = odd h then r else n\<rparr>"
    unfolding n_def by (rule decompress_raw) (simp only: r_def a_def assms(4) p_def [symmetric] e)
  then show ?thesis using r n sq nsq odd \<open>val r \<noteq> 0\<close> unfolding a_def [symmetric] p_def [symmetric] by auto
qed

end

section \<open>Signature verification\<close>

text \<open>
  \<open>S a b\<close> stands for the sum of \<open>a\<close> times the generator and \<open>b\<close> times the public key. A round doubles the sum of the
  prefixes of the two scalars and adds the point that the next bits select.
\<close>

definition shamir_laws :: "ecc_curve \<Rightarrow> (nat \<Rightarrow> nat \<Rightarrow> affine) \<Rightarrow> nat \<Rightarrow> nat \<Rightarrow> bool" where
  "shamir_laws C S u1 u2 \<longleftrightarrow>
     chord C (S 1 0) (S 0 1) (S 1 1) \<and>
     (\<forall>i < max u1 u2. let a = u1 div 2 ^ Suc i; b = u2 div 2 ^ Suc i; d = u1 div 2 ^ i mod 2; e = u2 div 2 ^ i mod 2 in
       a \<noteq> 0 \<or> b \<noteq> 0 \<longrightarrow>
         tangent C (S a b) (S (2 * a) (2 * b)) \<and>
         (d \<noteq> 0 \<or> e \<noteq> 0 \<longrightarrow> chord C (S d e) (S (2 * a) (2 * b)) (S (2 * a + d) (2 * b + e))))"

definition jac :: "ecc_curve \<Rightarrow> int \<Rightarrow> affine \<Rightarrow> vli \<times> vli \<times> vli" where
  "jac C z A = (fst (co C z A), snd (co C z A), fe C z)"

definition epoint :: "ecc_curve \<Rightarrow> affine \<Rightarrow> EccPoint" where
  "epoint C A = \<lparr>pt_x = fe C (fst A), pt_y = fe C (snd A)\<rparr>"

lemma shamir_lawsD:
  assumes "shamir_laws C S u1 u2" "i < max u1 u2" "u1 div 2 ^ Suc i \<noteq> 0 \<or> u2 div 2 ^ Suc i \<noteq> 0"
  defines "a \<equiv> u1 div 2 ^ Suc i" and "b \<equiv> u2 div 2 ^ Suc i" and "d \<equiv> u1 div 2 ^ i mod 2" and "e \<equiv> u2 div 2 ^ i mod 2"
  shows "tangent C (S a b) (S (2 * a) (2 * b))" "d \<noteq> 0 \<or> e \<noteq> 0 \<Longrightarrow> chord C (S d e) (S (2 * a) (2 * b)) (S (2 * a + d) (2 * b + e))"
  using assms(1-3) unfolding shamir_laws_def Let_def assms(4-) by blast+

lemma l_points_eq:
  assumes "i < 64 * length u1" "i < 64 * length u2" "curve_G C = epoint C (S 1 0)"
  defines "d \<equiv> val u1 div 2 ^ i mod 2" and "e \<equiv> val u2 div 2 ^ i mod 2"
  shows "l_points C (epoint C (S 0 1)) (epoint C (S 1 1)) u1 u2 i = (if d \<noteq> 0 \<or> e \<noteq> 0 then Some (epoint C (S d e)) else None)"
proof -
  have "vli_testBit u1 i \<noteq> 0 \<longleftrightarrow> d = 1" "vli_testBit u2 i \<noteq> 0 \<longleftrightarrow> e = 1"
    using vli_testBit_eq [OF assms(1)] vli_testBit_eq [OF assms(2)] by (simp_all add: d_def e_def odd_iff_mod_2_eq_one)
  moreover have "d = 0 \<or> d = 1" "e = 0 \<or> e = 1" unfolding d_def e_def by presburger+
  ultimately show ?thesis unfolding l_points_def using assms(3) by auto
qed

context curve_field
begin

lemma shamir_step_double:
  assumes "tangent C A D" "coprime z (prime_of C)"
  shows "\<exists>z'. coprime z' (prime_of C) \<and> shamir_step C None (jac C z A) = Some (jac C z' D)"
  using double_co [OF assms] tangent_coprime [OF assms(1)] assms(2)
  by (intro exI [of _ "snd A * z ^ 4"]) (simp add: shamir_step_def jac_def)

lemma shamir_step_add:
  assumes "tangent C A D" "coprime z (prime_of C)" "chord C P D E"
  shows "\<exists>z'. coprime z' (prime_of C) \<and> shamir_step C (Some (epoint C P)) (jac C z A) = Some (jac C z' E)"
proof -
  define y where "y = snd A * z ^ 4"
  have y: "coprime y (prime_of C)" using tangent_coprime [OF assms(1)] assms(2) by (simp add: y_def)
  have d: "EccPoint_double_jacobian C (fst (co C z A)) (snd (co C z A)) (fe C z) = Some (fst (co C y D), snd (co C y D), fe C y)"
    unfolding y_def by (rule double_co [OF assms(1,2)])
  have a: "apply_z C (pt_x (epoint C P)) (pt_y (epoint C P)) (fe C y) = Some (co C y P)"
    using apply_z_co [of 1 P y] by (simp add: co_def epoint_def)
  have s: "vli_modMult_fast C (fe C y) (vli_modSub (fst (co C y D)) (fst (co C y P)) (curve_p C)) = Some (fe C (y * (y\<^sup>2 * (fst D - fst P))))"
    by (simp add: co_def fe_simps algebra_simps)
  show ?thesis using coprime_step [OF assms(3) y] XYcZ_add_co [OF assms(3), of y]
    by (intro exI [of _ "y * (y\<^sup>2 * (fst D - fst P))"]) (simp add: shamir_step_def jac_def d a s split_beta)
qed

lemma sum_with_G_co:
  assumes "chord C G Q D" "curve_G C = epoint C G"
  shows "sum_with_G C (epoint C Q) = Some (epoint C D)"
proof -
  from chord_coprime [OF assms(1)] obtain i where i: "prime_of C dvd i * (fst Q - fst G) - 1" using coprime_inverse by blast
  have c: "(fe C (fst A), fe C (snd A)) = co C 1 A" for A by (simp add: co_def)
  have "co C ((fst Q - fst G) * i) D = co C 1 D" by (rule co_cong) (use i in \<open>simp add: mult.commute\<close>)
  then show ?thesis using XYcZ_add_co [OF assms(1), of 1] fe_inverse [OF i] apply_z_co [of "fst Q - fst G" D i]
    by (simp add: sum_with_G_def assms(2) epoint_def fe_sub c split_beta) (simp add: co_def)
qed

lemma shamir_loop:
  assumes "0 < m" "j \<le> m - 1" "m \<le> 64 * length u1" "m \<le> 64 * length u2" "curve_G C = epoint C (S 1 0)"
    and laws: "shamir_laws C S (val u1) (val u2)" and top: "2 ^ (m - 1) \<le> max (val u1) (val u2)"
  shows "\<exists>z. coprime z (prime_of C) \<and>
    ofold (\<lambda>i. shamir_step C (l_points C (epoint C (S 0 1)) (epoint C (S 1 1)) u1 u2 i)) (rev [j..<m - 1])
      (jac C 1 (S (val u1 div 2 ^ (m - 1)) (val u2 div 2 ^ (m - 1)))) = Some (jac C z (S (val u1 div 2 ^ j) (val u2 div 2 ^ j)))"
  using assms(2)
proof (induction rule: inc_induct)
  case base
  then show ?case by (intro exI [of _ 1]) simp
next
  case (step j)
  let ?a = "val u1 div 2 ^ Suc j" and ?b = "val u2 div 2 ^ Suc j"
  let ?f = "\<lambda>i. shamir_step C (l_points C (epoint C (S 0 1)) (epoint C (S 1 1)) u1 u2 i)"
  define d e where "d = val u1 div 2 ^ j mod 2" and "e = val u2 div 2 ^ j mod 2"
  from step.IH obtain z where z: "coprime z (prime_of C)"
    "ofold ?f (rev [Suc j..<m - 1]) (jac C 1 (S (val u1 div 2 ^ (m - 1)) (val u2 div 2 ^ (m - 1)))) = Some (jac C z (S ?a ?b))" by blast
  have pw: "(2 :: nat) ^ Suc j \<le> 2 ^ (m - 1)" using step.hyps by (intro power_increasing) auto
  have j: "j < max (val u1) (val u2)" using pw top less_exp [of j] unfolding power_Suc by linarith
  have nz: "?a \<noteq> 0 \<or> ?b \<noteq> 0" using pw top by (auto simp: div_eq_0_iff max_def split: if_splits)
  have ab: "2 * ?a + d = val u1 div 2 ^ j" "2 * ?b + e = val u2 div 2 ^ j"
    unfolding d_def e_def power_Suc2 div_mult2_eq by simp_all
  note l = shamir_lawsD [OF laws j nz, folded d_def e_def]
  have p: "l_points C (epoint C (S 0 1)) (epoint C (S 1 1)) u1 u2 j = (if d \<noteq> 0 \<or> e \<noteq> 0 then Some (epoint C (S d e)) else None)"
    unfolding d_def e_def by (rule l_points_eq) (use step.hyps assms in auto)
  have "\<exists>y. coprime y (prime_of C) \<and> ?f j (jac C z (S ?a ?b)) = Some (jac C y (S (val u1 div 2 ^ j) (val u2 div 2 ^ j)))"
  proof (cases "d \<noteq> 0 \<or> e \<noteq> 0")
    case True
    then show ?thesis using shamir_step_add [OF l(1) z(1) l(2)] unfolding p ab by simp
  next
    case False
    then show ?thesis using shamir_step_double [OF l(1) z(1)] ab unfolding p by simp
  qed
  then show ?case using z(2) step.hyps(2) by (auto simp: upt_conv_Cons ofold_append)
qed

end

lemma reduce_once_eq: "length k = NUM_ECC_DIGITS C \<Longrightarrow> reduce_once C k = digits (NUM_ECC_DIGITS C) (val k mod val (curve_n C))"
proof -
  assume k: "length k = NUM_ECC_DIGITS C"
  define n m where "n = NUM_ECC_DIGITS C" and "m = val (curve_n C)"
  have "base n = 2 * 2 ^ (64 * n - 1)" using curve_p_basic(4) [of C] by (simp add: n_def flip: power_Suc)
  then have B: "val k < 2 * m" using val_less [of k] k curve_n_top(2) [of C] by (simp add: n_def m_def)
  show ?thesis
  proof (cases "m \<le> val k")
    case True
    have "reduce_once C k = digits n (base n + (val k - m))" using True k
      by (simp add: reduce_once_def vli_cmp_eq [OF curve_n_top(1) k] vli_sub_eq [OF k curve_n_top(1)] m_def n_def sgn_if)
    then show ?thesis using True B by (simp add: digits_base mod_once m_def n_def)
  next
    case False
    then show ?thesis using k digits_val [of k] by (simp add: reduce_once_def vli_cmp_eq [OF curve_n_top(1) k] m_def sgn_if)
  qed
qed

lemma curve_n_basic: "1 < val (curve_n C)" "odd (val (curve_n C))" "val (curve_n C) < base (NUM_ECC_DIGITS C)"
proof -
  show "1 < val (curve_n C)" "odd (val (curve_n C))" by (cases C; simp)+
  show "val (curve_n C) < base (NUM_ECC_DIGITS C)" using val_less [of "curve_n C"] by (simp only: curve_n_top(1))
qed

lemma division_unique:
  fixes n :: nat
  assumes "z * s mod n = 1" "u * s mod n = e mod n" "u < n"
  shows "u = e * z mod n"
proof -
  have "e * z mod n = u * (s * z) mod n" by (metis assms(2) mod_mult_left_eq mult.assoc)
  also have "\<dots> = u * 1 mod n" using assms(1) by (metis mod_mult_right_eq mult.commute)
  finally show ?thesis using assms(3) by simp
qed

lemma max_bits:
  assumes "val y \<noteq> 0" "length x = length y"
  defines "m \<equiv> max (vli_numBits x) (vli_numBits y)"
  shows "0 < m" "m \<le> 64 * length x" "m \<le> 64 * length y" "2 ^ (m - 1) \<le> max (val x) (val y)"
    "val x div 2 ^ (m - 1) mod 2 = val x div 2 ^ (m - 1)" "val y div 2 ^ (m - 1) mod 2 = val y div 2 ^ (m - 1)"
proof -
  note b = vli_numBits_bounds [of x] vli_numBits_bounds [of y]
  show m: "0 < m" using b(5) assms(1) by (auto simp: m_def)
  show "m \<le> 64 * length x" "m \<le> 64 * length y"
    using vli_numBits_le [OF val_less [of x]] vli_numBits_le [OF val_less [of y]] assms(2) by (auto simp: m_def)
  show "2 ^ (m - 1) \<le> max (val x) (val y)" using b(2,3,5) assms(1) unfolding m_def max_def
    by (auto split: if_splits intro: order_trans)
  have M: "(2 :: nat) ^ m = 2 * 2 ^ (m - 1)" using m by (simp flip: power_Suc)
  have "val x < 2 ^ m" "val y < 2 ^ m" using b(1,4) unfolding m_def
    by (meson less_le_trans max.cobounded1 max.cobounded2 one_le_numeral power_increasing)+
  then show "val x div 2 ^ (m - 1) mod 2 = val x div 2 ^ (m - 1)" "val y div 2 ^ (m - 1) mod 2 = val y div 2 ^ (m - 1)"
    unfolding M by (simp_all add: less_mult_imp_div_less)
qed

context curve_field
begin

lemma verify_eq:
  assumes pub: "ecc_point_decompress C pk = Some (epoint C (S 0 1))" and G: "curve_G C = epoint C (S 1 0)"
    and r: "0 < val (ecc_bytes2native C sig)" "val (ecc_bytes2native C sig) < val (curve_n C)"
    and s: "0 < val (ecc_bytes2native C (drop (ECC_BYTES C) sig))" "val (ecc_bytes2native C (drop (ECC_BYTES C) sig)) < val (curve_n C)"
      "coprime (val (ecc_bytes2native C (drop (ECC_BYTES C) sig))) (val (curve_n C))"
    and u1: "u1 * val (ecc_bytes2native C (drop (ECC_BYTES C) sig)) mod val (curve_n C) = val (ecc_bytes2native C hash) mod val (curve_n C)" "u1 < val (curve_n C)"
    and u2: "u2 * val (ecc_bytes2native C (drop (ECC_BYTES C) sig)) mod val (curve_n C) = val (ecc_bytes2native C sig)" "u2 < val (curve_n C)"
    and laws: "shamir_laws C S u1 u2"
  shows "ecdsa_verify C pk hash sig = Some (nat (fst (S u1 u2) mod prime_of C) mod val (curve_n C) = val (ecc_bytes2native C sig))"
proof -
  define l n R s' e m where "l = NUM_ECC_DIGITS C" and "n = val (curve_n C)" and "R = ecc_bytes2native C sig" and "s' = ecc_bytes2native C (drop (ECC_BYTES C) sig)"
    and "e = ecc_bytes2native C hash"
    and "m = max (vli_numBits (digits l u1)) (vli_numBits (digits l u2))"
  note abb = n_def [symmetric] R_def [symmetric] s'_def [symmetric] e_def [symmetric] l_def [symmetric]
  have len: "length R = l" "length s' = l" "length e = l" "length (curve_n C) = l" by (simp_all add: R_def s'_def e_def l_def curve_n_top)
  have n: "1 < n" "odd n" "n < base l" using curve_n_basic [of C] by (simp_all add: n_def l_def)
  have v: "val (digits l u1) = u1" "val (digits l u2) = u2" using u1(2) u2(2) n(3) unfolding abb by (simp_all add: val_digits_less)
  from vli_modInv_eq [OF len(2,4) _ n(2,1) [unfolded n_def] s(3) [folded s'_def]] curve_p_basic(4) [of C] obtain z where
    z: "vli_modInv s' (curve_n C) = Some z" "length z = l" "val z * val s' mod n = 1" unfolding abb by blast
  have U: "vli_modMult e z (curve_n C) = Some (digits l u1)" "vli_modMult R z (curve_n C) = Some (digits l u2)"
    using modMult_n [of e C z] modMult_n [of R C z] division_unique [OF z(3)] u1 u2 len z(2) r(2) unfolding abb by simp_all
  have sum: "sum_with_G C (epoint C (S 0 1)) = Some (epoint C (S 1 1))"
    by (rule sum_with_G_co [OF _ G]) (use laws in \<open>simp add: shamir_laws_def\<close>)
  have cmp: "vli_cmp (curve_n C) R = 1" "vli_cmp (curve_n C) s' = 1"
    using r(2) s(2) vli_cmp_eq [OF len(4) len(1)] vli_cmp_eq [OF len(4) len(2)] unfolding abb by (simp_all add: sgn_if n_def)
  have nz: "\<not> vli_isZero R" "\<not> vli_isZero s'" using r(1) s(1) unfolding abb by (simp_all add: vli_isZero_eq)
  have "u2 \<noteq> 0" using u2(1) r(1) by (intro notI) simp
  then have "val (digits l u2) \<noteq> 0" using v by simp
  note m = max_bits [OF this, of "digits l u1", simplified length_digits, OF refl, folded m_def, unfolded v]
  define t where "t = S (u1 div 2 ^ (m - 1)) (u2 div 2 ^ (m - 1))"
  have top: "u1 div 2 ^ (m - 1) \<noteq> 0 \<or> u2 div 2 ^ (m - 1) \<noteq> 0" using m(4) by (auto simp: div_eq_0_iff max_def split: if_splits)
  have pt: "l_points C (epoint C (S 0 1)) (epoint C (S 1 1)) (digits l u1) (digits l u2) (m - 1) = Some (epoint C t)"
  proof -
    have b: "m - 1 < 64 * length (digits l u1)" "m - 1 < 64 * length (digits l u2)" using m(1-3) by simp_all
    show ?thesis unfolding l_points_eq [where S = S and C = C, OF b G] v m(5,6) t_def using top by simp
  qed
  obtain y where y: "coprime y (prime_of C)"
    "ofold (\<lambda>i. shamir_step C (l_points C (epoint C (S 0 1)) (epoint C (S 1 1)) (digits l u1) (digits l u2) i)) (rev [0..<m - 1]) (jac C 1 t) = Some (jac C y (S u1 u2))"
    using shamir_loop [where j = 0 and m = m and ?u1.0 = "digits l u1" and ?u2.0 = "digits l u2" and S = S] G m laws unfolding v t_def by auto
  from coprime_inverse [OF y(1)] obtain i where i: "prime_of C dvd i * y - 1" by blast
  have "co C (y * i) (S u1 u2) = co C 1 (S u1 u2)" by (rule co_cong) (use i in \<open>simp add: mult.commute\<close>)
  then have a: "apply_z C (fst (co C y (S u1 u2))) (snd (co C y (S u1 u2))) (fe C i) = Some (fe C (fst (S u1 u2)), fe C (snd (S u1 u2)))"
    unfolding apply_z_co by (simp add: co_def)
  have c: "vli_cmp (reduce_once C (fe C a)) R = 0 \<longleftrightarrow> nat (a mod prime_of C) mod n = val R" for a
    using vli_cmp_eq [of "reduce_once C (fe C a)" l R] len(1) n(3) order.strict_trans [OF mod_less_divisor [of n] n(3)] n(1)
    by (simp add: reduce_once_eq l_def n_def val_digits_less val_fe sgn_0_0)
  have j: "(pt_x (epoint C t), pt_y (epoint C t), fe C 1) = jac C 1 t" by (simp add: jac_def co_def epoint_def)
  show ?thesis unfolding ecdsa_verify_def pub abb
    by (simp only: bind.bind_lunit Let_def nz cmp simp_thms if_False z(1) U sum m_def [symmetric] pt fe_one(1) [of C, folded l_def] j y(2))
      (simp add: jac_def fe_inverse [OF i] a c)
qed

end

section \<open>Signing\<close>

text \<open>The sum of a digit array with a residue is congruent to the sum of the values, whatever the first array is.\<close>

lemma modAdd_cong:
  assumes "length x = n" "length y = n" "length m = n" "val y < val m"
  shows "length (vli_modAdd x y m) = n" "val (vli_modAdd x y m) mod val m = (val x + val y) mod val m"
proof -
  define v where "v = val x + val y"
  have B: "val m < base n" "val x < base n" using val_less [of m] val_less [of x] assms by simp_all
  have "vli_modAdd x y m = digits n (if val m \<le> v then v - val m else v)"
  proof (cases "base n \<le> v")
    case True
    have "val (digits n v) = v - base n" unfolding val_digits using True B assms(4) by (intro mod_once) (simp_all add: v_def)
    then have "base n + val (digits n v) - val m = v - val m" using True by simp
    then show ?thesis using True B vli_sub_eq [of "digits n v" n m] assms
      by (simp add: vli_modAdd_def vli_add_eq [OF assms(1,2)] v_def [symmetric] bool_u64_def)
  next
    case False
    then have v: "val (digits n v) = v" by (simp add: val_digits_less)
    have d: "digits n (base n + v - val m) = digits n (v - val m)" if "val m \<le> v" using that digits_base [of n "v - val m"] by simp
    have c: "vli_cmp (digits n v) m \<ge> 0 \<longleftrightarrow> val m \<le> v" using vli_cmp_eq [of "digits n v" n m] assms v by (simp add: sgn_if)
    show ?thesis using False v d c vli_sub_eq [of "digits n v" n m] assms(3)
      by (simp add: vli_modAdd_def vli_add_eq [OF assms(1,2)] v_def [symmetric] bool_u64_def)
  qed
  moreover have "v - val m < base n" "\<not> val m \<le> v \<Longrightarrow> v < base n" using B assms(4) by (simp_all add: v_def)
  ultimately show "length (vli_modAdd x y m) = n" "val (vli_modAdd x y m) mod val m = (val x + val y) mod val m"
    by (auto simp: val_digits_less v_def [symmetric] le_mod_geq)
qed

lemma ecdsa_sign_eq:
  assumes rng: "rng 0 = Some k" "length k = NUM_ECC_DIGITS C" "0 < val k" "val k < val (curve_n C)" "coprime (val k) (val (curve_n C))"
    and mult: "EccPoint_mult C (curve_G C) k None = Some P" "length (pt_x P) = NUM_ECC_DIGITS C"
    and r: "r = val (pt_x P) mod val (curve_n C)" "r \<noteq> 0"
  shows "\<exists>s < val (curve_n C).
    ecdsa_sign C rng junk key hash = Some (Some (ecc_native2bytes C (digits (NUM_ECC_DIGITS C) r) @ ecc_native2bytes C (digits (NUM_ECC_DIGITS C) s))) \<and>
    s * val k mod val (curve_n C) = (val (ecc_bytes2native C hash) + r * val (ecc_bytes2native C key)) mod val (curve_n C)"
proof -
  define l n e d where "l = NUM_ECC_DIGITS C" and "n = val (curve_n C)" and "e = ecc_bytes2native C hash" and "d = ecc_bytes2native C key"
  note abb = l_def [symmetric] n_def [symmetric] e_def [symmetric] d_def [symmetric]
  have len: "length e = l" "length d = l" "length (curve_n C) = l" "length k = l" by (simp_all add: e_def d_def l_def curve_n_top rng)
  have n: "1 < n" "odd n" "n < base l" using curve_n_basic [of C] by (simp_all add: n_def l_def)
  have vd: "val (digits l (a mod n)) = a mod n" for a
    using n(1) by (intro val_digits_less order.strict_trans [OF mod_less_divisor n(3)]) linarith
  have k: "reduce_once C k = k" "\<not> vli_isZero k"
    using reduce_once_eq [of k C] rng(2-4) digits_val [of k] by (simp_all add: vli_isZero_eq)
  have p: "reduce_once C (pt_x P) = digits l r" "\<not> vli_isZero (digits l r)" "val (digits l r) = r"
    using reduce_once_eq [OF mult(2)] r vd [of "val (pt_x P)"] by (simp_all add: vli_isZero_eq n_def l_def)
  have loop: "sign_loop C rng 0 junk = Some (Some (k, digits l r))"
    by (subst sign_loop.simps) (simp add: rng(1) k p mult(1) MAX_TRIES_def)
  obtain i where i: "vli_modInv k (curve_n C) = Some i" "length i = l" "val i * val k mod n = 1"
    using vli_modInv_eq [OF len(4,3) _ n(2,1) [unfolded n_def] rng(5)] curve_p_basic(4) [of C] unfolding abb by blast
  define t where "t = vli_modAdd e (digits l (r * val d mod n)) (curve_n C)"
  have t: "length t = l" "val t mod n = (val e + r * val d) mod n"
    using modAdd_cong [OF len(1) _ len(3), of "digits l (r * val d mod n)"] vd [of "r * val d"] n(1) mod_less_divisor [of n "r * val d"]
    unfolding t_def abb by (simp_all add: mod_simps)
  define s where "s = val t * val i mod n"
  have "s * val k mod n = val t * (val i * val k mod n) mod n" unfolding s_def by (simp add: mod_simps mult.assoc)
  then have "s * val k mod n = (val e + r * val d) mod n" using t(2) by (simp add: i(3))
  moreover have "s < n" using n(1) by (simp add: s_def)
  moreover have "ecdsa_sign C rng junk key hash = Some (Some (ecc_native2bytes C (digits l r) @ ecc_native2bytes C (digits l s)))"
    using modMult_n [of "digits l r" C d] modMult_n [of t C i] len i t(1) p(3)
    unfolding abb by (simp add: ecdsa_sign_def loop e_def [symmetric] d_def [symmetric] t_def [symmetric] s_def)
  ultimately show ?thesis unfolding abb by blast
qed

section \<open>Properties\<close>

lemma dvd_power_one: "p dvd a - 1 \<Longrightarrow> p dvd a ^ k - 1" for a p :: int
proof -
  assume "p dvd a - 1"
  then have "a mod p = 1 mod p" by (simp add: mod_eq_dvd_iff)
  then have "a ^ k mod p = 1 ^ k mod p" by (metis power_mod)
  then show ?thesis by (simp add: mod_eq_dvd_iff)
qed

text \<open>
  The data of the examples: the point \<open>Q\<close> of secp128r1 with ordinate 1, and the sums of small multiples of the generator and \<open>Q\<close>.
\<close>

definition x_bytes :: "u8 list" where
  "x_bytes = [0xf3, 0x49, 0x24, 0xdd, 0x32, 0x49, 0xaf, 0x96, 0x53, 0x4d, 0x8, 0x83, 0xe0, 0xdc, 0x21, 0xe6]"

definition small_sum :: "nat \<Rightarrow> nat \<Rightarrow> affine" where
  "small_sum a b =
     (if b = 0 then base_multiple a
      else if a = 0 then (0xf34924dd3249af96534d0883e0dc21e6, 1)
      else if a = 1 then (0x12bddc23fdfbd868ca275f2557f763e7, 0xd3b8e706dc4ece9e29befdf9f25020c6)
      else (0xb736f0ba409665f4ede9ab357e707b8c, 0x75d45a6f4f0124bf03a2e07f5a10695e))"

lemma x_bytes_native: "ecc_bytes2native secp128r1 x_bytes = [0x534d0883e0dc21e6, 0xf34924dd3249af96]" "length x_bytes = 16"
  by (simp_all add: x_bytes_def ecc_bytes2native_def digit_of_bytes_def NUM_ECC_DIGITS_def upt_rec)

lemma x_bytes_val: "val (ecc_bytes2native secp128r1 x_bytes) = 0xf34924dd3249af96534d0883e0dc21e6"
  unfolding x_bytes_native by simp

lemma x_bytes_rhs: "prime_of secp128r1 dvd curve_rhs secp128r1 (int (val (ecc_bytes2native secp128r1 x_bytes))) - 1"
proof (rule dvdI)
  show "curve_rhs secp128r1 (int (val (ecc_bytes2native secp128r1 x_bytes))) - 1 = prime_of secp128r1 * 0xdbb85cc2fa4b97929e1c147557e65b4bbb69a75af899b53296087c5c1e00f388"
    unfolding x_bytes_val curve_rhs_def prime_128 by simp
qed

lemma x_bytes_point: "ecc_point_decompress secp128r1 (3 # x_bytes) = Some (epoint secp128r1 (small_sum 0 1))"
proof -
  define r where "r = fe secp128r1 (curve_rhs secp128r1 (int (val (ecc_bytes2native secp128r1 x_bytes))) ^ ((val (curve_p secp128r1) + 1) div 4))"
  have r: "r = fe secp128r1 1" unfolding r_def by (rule fe_eqI) (rule dvd_power_one [OF x_bytes_rhs])
  have "val r = 1" unfolding r using prime_of_bounds(1) [of secp128r1] by (simp add: val_fe del: curve_p.simps)
  then have "odd (val r) = odd (3 :: u8)" by simp
  moreover have "ecc_bytes2native secp128r1 x_bytes = fe secp128r1 (int (val (ecc_bytes2native secp128r1 x_bytes)))"
    by (rule fe_cases) (simp_all add: x_bytes_val)
  ultimately show ?thesis using p128.decompress_raw [OF r_def, of 3] x_bytes_val
    by (simp add: epoint_def small_sum_def r)
qed

lemma small_sum_laws: "shamir_laws secp128r1 small_sum 2 1"
proof -
  have 1: "chord secp128r1 (small_sum 1 0) (small_sum 0 1) (small_sum 1 1)"
    by (rule chordI [where i = "0xff7019caabcb961618d8896fb36e5f00" and l = "0xd39de31aa28df42dae3ea8f6f2e61ed7" and q = "0xdcacdcaade76de1fd06d5ffd68226001" and r = "- 0xcee63a0e5f8eedbef7ecbd9c62c7a329" and s = "- 0xaeeda5bf9df4ed2d344371c7f3f4c8c2" and t = "- 0x2cbf29268078c52a3988ab9fce302c0"]; simp add: small_sum_def base_multiples [unfolded One_nat_def])
  have 2: "tangent secp128r1 (small_sum 1 0) (small_sum 2 0)"
    using base_multiple_double by (simp add: small_sum_def)
  have 3: "chord secp128r1 (small_sum 0 1) (small_sum 2 0) (small_sum 2 1)"
    by (rule chordI [where i = "0xfd4589821af2d3c9eecba2112856c3cb" and l = "0xe4c371a60ef52e976b3b5427fd0ff320" and q = "- 0x70c0927912ace9baed5bcaf97a214d87" and r = "0x3cdd5baca202bdeb76139b3705fd7c4" and s = "- 0xcc6cb7a7b8ecf8bdfd82d0b9a1fa82f0" and t = "- 0x35ae12f84191b1a2d10fc7db2c6e301f"]; simp add: small_sum_def base_multiples)
  have "i = 0 \<or> i = 1" if "i < max 2 1" for i :: nat using that by auto
  then show ?thesis using 1 2 3 unfolding shamir_laws_def Let_def by (fastforce simp: numeral_2_eq_2)
qed

text \<open>
  C31. Decompression. When the right-hand side of the curve equation at the abscissa in the bytes satisfies Euler's criterion for a square,
  the function ends and returns that abscissa with an ordinate that is reduced, satisfies the curve equation modulo the prime, and has the
  parity of the first byte.
\<close>

theorem decompress_on_curve:
  assumes "C \<noteq> secp384r1" "length b = ECC_BYTES C"
    "prime_of C dvd curve_rhs C (int (val (ecc_bytes2native C b))) ^ ((val (curve_p C) - 1) div 2) - 1"
  shows "\<exists>y. ecc_point_decompress C (h # b) = Some \<lparr>pt_x = ecc_bytes2native C b, pt_y = y\<rparr> \<and> length y = NUM_ECC_DIGITS C \<and>
    val y < val (curve_p C) \<and> prime_of C dvd (int (val y))\<^sup>2 - curve_rhs C (int (val (ecc_bytes2native C b))) \<and> (odd (val y) \<longleftrightarrow> odd h)"
  by (rule curve_field.decompress_eq [OF reducing_curve [OF assms(1)] p_mod_4 [OF assms(1)] assms(2,3) refl])

theorem decompress_on_curve_witness:
  "\<exists>y. ecc_point_decompress secp128r1 (2 # x_bytes) = Some \<lparr>pt_x = ecc_bytes2native secp128r1 x_bytes, pt_y = y\<rparr> \<and>
    prime_of secp128r1 dvd (int (val y))\<^sup>2 - curve_rhs secp128r1 0xf34924dd3249af96534d0883e0dc21e6"
  using decompress_on_curve [OF _ _ dvd_power_one [OF x_bytes_rhs], of 2] x_bytes_native(2) unfolding x_bytes_val
  by (auto simp del: curve_p.simps)

text \<open>
  C32. The conversions between big endian bytes and digit arrays are inverse to each other on the sizes of the curve.
\<close>

theorem native_bytes_roundtrip:
  assumes "length x = NUM_ECC_DIGITS C" "length b = ECC_BYTES C"
  shows "ecc_bytes2native C (ecc_native2bytes C x) = x \<and> ecc_native2bytes C (ecc_bytes2native C b) = b"
  using assms by (simp add: native_bytes_native bytes_native_bytes)

theorem native_bytes_roundtrip_witness:
  "ecc_bytes2native secp128r1 (ecc_native2bytes secp128r1 [1, 2]) = [1, 2] \<and>
   ecc_native2bytes secp128r1 (ecc_bytes2native secp128r1 x_bytes) = x_bytes"
  using native_bytes_roundtrip [of "[1, 2]" secp128r1 x_bytes] x_bytes_native(2) by (simp add: NUM_ECC_DIGITS_def)

text \<open>
  C5. Verification decides the ECDSA equation. Let the public key decompress to the point \<open>S 0 1\<close>, let \<open>r\<close> and \<open>s\<close> be in range with \<open>s\<close> invertible, and let
  \<open>u1\<close> and \<open>u2\<close> be the quotients of the hash and of \<open>r\<close> by \<open>s\<close> modulo the group order. If the group laws hold for the sums of multiples that
  the double-and-add loop visits, the function returns whether the abscissa of \<open>u1\<close> times the generator plus \<open>u2\<close> times
  the key equals \<open>r\<close> modulo the order.
\<close>

theorem verify_decides:
  assumes "C \<noteq> secp384r1" "ecc_point_decompress C pk = Some (epoint C (S 0 1))" "curve_G C = epoint C (S 1 0)"
    and r: "r = val (ecc_bytes2native C sig)" "0 < r" "r < val (curve_n C)"
    and s: "s = val (ecc_bytes2native C (drop (ECC_BYTES C) sig))" "0 < s" "s < val (curve_n C)" "coprime s (val (curve_n C))"
    and u1: "u1 * s mod val (curve_n C) = val (ecc_bytes2native C hash) mod val (curve_n C)" "u1 < val (curve_n C)"
    and u2: "u2 * s mod val (curve_n C) = r" "u2 < val (curve_n C)"
    and laws: "shamir_laws C S u1 u2"
  shows "ecdsa_verify C pk hash sig = Some (nat (fst (S u1 u2) mod prime_of C) mod val (curve_n C) = r)"
  using curve_field.verify_eq [OF reducing_curve [OF assms(1)] assms(2,3) r(2,3) [unfolded r(1)] s(2-4) [unfolded s(1)]
      u1 [unfolded s(1)] u2 [unfolded s(1) r(1)] laws] r(1) by simp

definition example_sig :: "u8 list" where
  "example_sig = [0xb7, 0x36, 0xf0, 0xba, 0x40, 0x96, 0x65, 0xf4, 0xed, 0xe9, 0xab, 0x35, 0x7e, 0x70, 0x7b, 0x8c] @ [0xb7, 0x36, 0xf0, 0xba, 0x40, 0x96, 0x65, 0xf4, 0xed, 0xe9, 0xab, 0x35, 0x7e, 0x70, 0x7b, 0x8c]"

definition example_hash :: "u8 list" where
  "example_hash = [0x6e, 0x6d, 0xe1, 0x76, 0x81, 0x2c, 0xcb, 0xe9, 0x66, 0x30, 0x49, 0x4f, 0x6c, 0xa8, 0x56, 0x3]"

lemma example_native:
  "ecc_bytes2native secp128r1 example_sig = [0xede9ab357e707b8c, 0xb736f0ba409665f4]"
  "ecc_bytes2native secp128r1 (drop (ECC_BYTES secp128r1) example_sig) = [0xede9ab357e707b8c, 0xb736f0ba409665f4]"
  "ecc_bytes2native secp128r1 example_hash = [0x6630494f6ca85603, 0x6e6de176812ccbe9]"
  by (simp_all add: example_sig_def example_hash_def ecc_bytes2native_def digit_of_bytes_def NUM_ECC_DIGITS_def upt_rec)

lemma example_coprime: "coprime 0xb736f0ba409665f4ede9ab357e707b8c (val (curve_n secp128r1))"
proof -
  have "0x1a908ab88c0f474ab6832388919134b3 * 0xb736f0ba409665f4ede9ab357e707b8c - 1 = int (val (curve_n secp128r1)) * 0x130306a22ad80fcbb172b0c9b2957217" by simp
  then have "coprime 0xb736f0ba409665f4ede9ab357e707b8c (int (val (curve_n secp128r1)))" by (rule inverse_coprime [OF dvdI])
  then show ?thesis by (metis coprime_int_iff of_nat_numeral)
qed

theorem verify_decides_witness:
  "ecdsa_verify secp128r1 (3 # x_bytes) example_hash example_sig = Some True"
proof -
  have G: "curve_G secp128r1 = epoint secp128r1 (small_sum 1 0)"
    unfolding epoint_def using base_multiple_G(1) by (simp add: small_sum_def del: curve_G.simps)
  have v: "0xb736f0ba409665f4ede9ab357e707b8c = val (ecc_bytes2native secp128r1 example_sig)" "0xb736f0ba409665f4ede9ab357e707b8c = val (ecc_bytes2native secp128r1 (drop (ECC_BYTES secp128r1) example_sig))"
    unfolding example_native by simp_all
  have u: "2 * 0xb736f0ba409665f4ede9ab357e707b8c mod val (curve_n secp128r1) = val (ecc_bytes2native secp128r1 example_hash) mod val (curve_n secp128r1)"
    "1 * 0xb736f0ba409665f4ede9ab357e707b8c mod val (curve_n secp128r1) = 0xb736f0ba409665f4ede9ab357e707b8c"
    unfolding example_native by simp_all
  show ?thesis
    using verify_decides [OF _ x_bytes_point G v(1) _ _ v(2) _ _ example_coprime u(1) _ u(2) _ small_sum_laws] by (simp add: small_sum_def)
qed

text \<open>
  Verification rejects a signature whose components are zero or not below the group order, for every key and every hash.
\<close>

theorem verify_rejects_range:
  assumes "C \<noteq> secp384r1" "r = val (ecc_bytes2native C sig)" "s = val (ecc_bytes2native C (drop (ECC_BYTES C) sig))"
    "r = 0 \<or> s = 0 \<or> val (curve_n C) \<le> r \<or> val (curve_n C) \<le> s"
  shows "ecdsa_verify C (h # b) hash sig = Some False"
proof -
  obtain P where "ecc_point_decompress C (h # b) = Some P"
    using curve_field.decompress_raw [OF reducing_curve [OF assms(1)] refl] by blast
  then show ?thesis using assms(2-4)
    by (auto simp: ecdsa_verify_def Let_def vli_isZero_eq vli_cmp_eq [OF curve_n_top(1) length_native] sgn_if)
qed

theorem verify_rejects_range_witness:
  "ecdsa_verify secp128r1 (2 # x_bytes) example_hash (replicate 16 0 @ x_bytes) = Some False"
proof -
  have "0 = val (ecc_bytes2native secp128r1 (replicate 16 0 @ x_bytes))"
    by (simp add: ecc_bytes2native_def digit_of_bytes_def NUM_ECC_DIGITS_def upt_rec)
  from verify_rejects_range [OF _ this refl] show ?thesis by simp
qed

text \<open>
  C30. The signing equation. When the generator delivers an invertible scalar \<open>k\<close> below the group order in the first round and the abscissa
  of its multiple of the generator is \<open>r\<close>, not zero modulo the order, the function ends and returns the bytes of \<open>r\<close> and of the \<open>s\<close> with
  \<open>s * k\<close> congruent to the hash plus \<open>r\<close> times the key, for every hash and key, reduced or not.
\<close>

theorem sign_equation:
  assumes "rng 0 = Some k" "length k = NUM_ECC_DIGITS C" "0 < val k" "val k < val (curve_n C)" "coprime (val k) (val (curve_n C))"
    "EccPoint_mult C (curve_G C) k None = Some P" "length (pt_x P) = NUM_ECC_DIGITS C"
    "r = val (pt_x P) mod val (curve_n C)" "r \<noteq> 0"
  shows "\<exists>s. s < val (curve_n C) \<and>
    ecdsa_sign C rng junk key hash = Some (Some (ecc_native2bytes C (digits (NUM_ECC_DIGITS C) r) @ ecc_native2bytes C (digits (NUM_ECC_DIGITS C) s))) \<and>
    s * val k mod val (curve_n C) = (val (ecc_bytes2native C hash) + r * val (ecc_bytes2native C key)) mod val (curve_n C)"
  using ecdsa_sign_eq [where rng = rng, OF assms] by blast

theorem sign_equation_witness:
  "\<exists>s. s < val (curve_n secp128r1) \<and>
    ecdsa_sign secp128r1 (\<lambda>_. Some [3, 0]) [0, 0] x_bytes example_hash =
      Some (Some (ecc_native2bytes secp128r1 (digits 2 0xad632f542942f23aa423b628a304b3b) @ ecc_native2bytes secp128r1 (digits 2 s))) \<and>
    s * 3 mod val (curve_n secp128r1) =
      (val (ecc_bytes2native secp128r1 example_hash) + 0xad632f542942f23aa423b628a304b3b * val (ecc_bytes2native secp128r1 x_bytes)) mod val (curve_n secp128r1)"
proof -
  have "k = 1" if "1 \<le> k" "2 * k \<le> max 2 (val [3, 0])" for k :: nat using that by simp
  then have l: "ladder_laws secp128r1 base_multiple k" if "1 \<le> k" "2 * k \<le> max 2 (val [3, 0])" for k using base_multiple_laws that by metis
  have "EccPoint_mult secp128r1 (curve_G secp128r1) [3, 0] None = Some (epoint secp128r1 (base_multiple 3))"
    using p128.EccPoint_mult_co [OF _ _ base_multiple_G(2) base_multiple_double l, where s = "[3, 0]" and z = 1 and iz = None and P = "curve_G secp128r1"] base_multiple_G(1)
    by (simp add: Let_def epoint_def del: curve_G.simps)
  moreover have "coprime (val [3, 0]) (val (curve_n secp128r1))"
  proof -
    have "0x55555554aaaaaaaad1e1045e856835b2 * 3 - 1 = int (val (curve_n secp128r1)) * 0x1" by simp
    then have "coprime 3 (int (val (curve_n secp128r1)))" by (rule inverse_coprime [OF dvdI])
    then have "coprime (3 :: nat) (val (curve_n secp128r1))" by (metis coprime_int_iff of_nat_numeral)
    then show ?thesis by simp
  qed
  moreover have "val (pt_x (epoint secp128r1 (base_multiple 3))) mod val (curve_n secp128r1) = 0xad632f542942f23aa423b628a304b3b"
    unfolding epoint_def base_multiples by (simp add: val_fe)
  ultimately show ?thesis
    using sign_equation [of "\<lambda>_. Some [3, 0]" "[3, 0]" secp128r1 "epoint secp128r1 (base_multiple 3)" "0xad632f542942f23aa423b628a304b3b" "[0, 0]" x_bytes example_hash]
    by (simp add: NUM_ECC_DIGITS_def epoint_def del: curve_G.simps digits.simps)
qed

text \<open>
  The emodule manager is built without a random number generator: making a key, signing and deriving a shared secret return 0 for every input.
\<close>

theorem no_generator_fails:
  "ecc_make_key C getRandomNumber pnt = Some None \<and> ecdsa_sign C getRandomNumber px key hash = Some None \<and>
   ecdh_shared_secret C getRandomNumber pub key = Some None"
  by (simp add: ecc_make_key_def ecdsa_sign_def ecdh_shared_secret_def make_key_loop.simps sign_loop.simps getRandomNumber_def)

text \<open>
  C33. A generator that delivers zero in the first round makes the loop of the key generation execute \<^verbatim>\<open>continue\<close>, which tests the public point before
  it was ever computed: unless that memory happens to be zero, the call returns success with the private key 0 and the uninitialised point as public key.
\<close>

theorem make_key_uninitialised:
  assumes "rng 0 = Some z" "vli_isZero z" "\<not> EccPoint_isZero junk"
  shows "ecc_make_key C rng junk =
    Some (Some ((2 + ucast (pt_y junk ! 0 AND 1)) # ecc_native2bytes C (pt_x junk), ecc_native2bytes C z))"
  using assms by (simp add: ecc_make_key_def make_key_loop.simps MAX_TRIES_def)

theorem make_key_uninitialised_witness:
  "ecc_make_key secp128r1 (\<lambda>_. Some [0, 0]) \<lparr>pt_x = [5, 0], pt_y = [1, 0]\<rparr> = Some (Some (3 # [0, 0, 0, 0, 0, 0, 0, 0, 0, 0, 0, 0, 0, 0, 0, 5], [0, 0, 0, 0, 0, 0, 0, 0, 0, 0, 0, 0, 0, 0, 0, 0]))"
  using make_key_uninitialised [of "\<lambda>_. Some [0, 0]" "[0, 0]" "\<lparr>pt_x = [5, 0], pt_y = [1, 0]\<rparr>" secp128r1]
  by (simp add: EccPoint_isZero_def ecc_native2bytes_def bytes_of_digit_def NUM_ECC_DIGITS_def upt_rec)

end
