(* ===== verification/Md2.thy ===== *)
theory Md2
  imports Prelude
begin

unbundle bit_operations_syntax

text \<open>
  The MD2 hash of \<^verbatim>\<open>emod_manager/attest/md2.c\<close>, with which the emodule manager hashes an emodule before it checks the
  signature.

  The model follows the code: a context record, the three loops over a block, the streaming update with its partly filled last block, and
  the finalisation. Null pointers are \<open>None\<close>. The reference \<open>md2_ref\<close> works on the whole message: it absorbs the
  blocks of the padded message into a 48-byte state and a checksum, and then the checksum.
\<close>

section \<open>Operations\<close>

definition md2_S :: "u8 list" where
  "md2_S = [0x29, 0x2E, 0x43, 0xC9, 0xA2, 0xD8, 0x7C, 0x01, 0x3D, 0x36, 0x54, 0xA1, 0xEC, 0xF0, 0x06, 0x13,
     0x62, 0xA7, 0x05, 0xF3, 0xC0, 0xC7, 0x73, 0x8C, 0x98, 0x93, 0x2B, 0xD9, 0xBC, 0x4C, 0x82, 0xCA,
     0x1E, 0x9B, 0x57, 0x3C, 0xFD, 0xD4, 0xE0, 0x16, 0x67, 0x42, 0x6F, 0x18, 0x8A, 0x17, 0xE5, 0x12,
     0xBE, 0x4E, 0xC4, 0xD6, 0xDA, 0x9E, 0xDE, 0x49, 0xA0, 0xFB, 0xF5, 0x8E, 0xBB, 0x2F, 0xEE, 0x7A,
     0xA9, 0x68, 0x79, 0x91, 0x15, 0xB2, 0x07, 0x3F, 0x94, 0xC2, 0x10, 0x89, 0x0B, 0x22, 0x5F, 0x21,
     0x80, 0x7F, 0x5D, 0x9A, 0x5A, 0x90, 0x32, 0x27, 0x35, 0x3E, 0xCC, 0xE7, 0xBF, 0xF7, 0x97, 0x03,
     0xFF, 0x19, 0x30, 0xB3, 0x48, 0xA5, 0xB5, 0xD1, 0xD7, 0x5E, 0x92, 0x2A, 0xAC, 0x56, 0xAA, 0xC6,
     0x4F, 0xB8, 0x38, 0xD2, 0x96, 0xA4, 0x7D, 0xB6, 0x76, 0xFC, 0x6B, 0xE2, 0x9C, 0x74, 0x04, 0xF1,
     0x45, 0x9D, 0x70, 0x59, 0x64, 0x71, 0x87, 0x20, 0x86, 0x5B, 0xCF, 0x65, 0xE6, 0x2D, 0xA8, 0x02,
     0x1B, 0x60, 0x25, 0xAD, 0xAE, 0xB0, 0xB9, 0xF6, 0x1C, 0x46, 0x61, 0x69, 0x34, 0x40, 0x7E, 0x0F,
     0x55, 0x47, 0xA3, 0x23, 0xDD, 0x51, 0xAF, 0x3A, 0xC3, 0x5C, 0xF9, 0xCE, 0xBA, 0xC5, 0xEA, 0x26,
     0x2C, 0x53, 0x0D, 0x6E, 0x85, 0x28, 0x84, 0x09, 0xD3, 0xDF, 0xCD, 0xF4, 0x41, 0x81, 0x4D, 0x52,
     0x6A, 0xDC, 0x37, 0xC8, 0x6C, 0xC1, 0xAB, 0xFA, 0x24, 0xE1, 0x7B, 0x08, 0x0C, 0xBD, 0xB1, 0x4A,
     0x78, 0x88, 0x95, 0x8B, 0xE3, 0x63, 0xE8, 0x6D, 0xE9, 0xCB, 0xD5, 0xFE, 0x3B, 0x00, 0x1D, 0x39,
     0xF2, 0xEF, 0xB7, 0x0E, 0x66, 0x58, 0xD0, 0xE4, 0xA6, 0x77, 0x72, 0xF8, 0xEB, 0x75, 0x4B, 0x0A,
     0x31, 0x44, 0x50, 0xB4, 0x8F, 0xED, 0x1F, 0x1A, 0xDB, 0x99, 0x8D, 0x33, 0x9F, 0x11, 0x83, 0x14]"

abbreviation MD2_BLOCK_SIZE :: nat where "MD2_BLOCK_SIZE \<equiv> 16"

datatype md2_state = MD2_OK | MD2_ERR | MD2_NULLPTR

record md2ctx =
  hash_buf :: "u8 list"
  blk1 :: "u8 list"
  blk2 :: "u8 list"
  used_cnt :: u32
  last_buf :: "u8 list"
  checksum :: "u8 list"

definition CLEAR_BLOCK :: "u8 list" where
  "CLEAR_BLOCK = replicate MD2_BLOCK_SIZE 0"

definition md2_init :: "md2ctx option \<Rightarrow> md2_state \<times> md2ctx option" where
  "md2_init ctx =
     (case ctx of
       None \<Rightarrow> (MD2_NULLPTR, None)
     | Some ctx \<Rightarrow> (MD2_OK, Some (ctx\<lparr>hash_buf := CLEAR_BLOCK, blk1 := CLEAR_BLOCK, blk2 := CLEAR_BLOCK, used_cnt := 0,
         last_buf := CLEAR_BLOCK, checksum := CLEAR_BLOCK\<rparr>)))"

text \<open>The loop of \<open>md2_update_checksum\<close>: \<open>L\<close> is the last checksum byte written.\<close>

fun checksum_loop :: "u8 \<Rightarrow> u8 list \<Rightarrow> u8 list \<Rightarrow> u8 list" where
  "checksum_loop L (c # block) (k # ks) = (let k = k XOR md2_S ! unat (c XOR L) in k # checksum_loop k block ks)"
| "checksum_loop L _ ks = ks"

definition md2_update_checksum :: "md2ctx \<Rightarrow> u8 list \<Rightarrow> md2ctx" where
  "md2_update_checksum ctx block =
     ctx\<lparr>checksum := checksum_loop (checksum ctx ! (MD2_BLOCK_SIZE - 1)) (take MD2_BLOCK_SIZE block) (checksum ctx)\<rparr>"

definition md2_prepare_blk :: "md2ctx \<Rightarrow> u8 list \<Rightarrow> md2ctx" where
  "md2_prepare_blk ctx block =
     ctx\<lparr>blk1 := take MD2_BLOCK_SIZE block, blk2 := map2 (XOR) (take MD2_BLOCK_SIZE block) (hash_buf ctx)\<rparr>"

text \<open>One of the three loops of a round: each byte is combined with the table entry of the previous one.\<close>

fun round_loop :: "u8 \<Rightarrow> u8 list \<Rightarrow> u8 list \<times> u8" where
  "round_loop tmp [] = ([], tmp)"
| "round_loop tmp (b # bs) = (let b = b XOR md2_S ! unat tmp; (bs, tmp) = round_loop b bs in (b # bs, tmp))"

definition md2_round :: "nat \<Rightarrow> md2ctx \<times> u8 \<Rightarrow> md2ctx \<times> u8" where
  "md2_round i = (\<lambda>(ctx, tmp).
     let (h, tmp) = round_loop tmp (hash_buf ctx);
         (b1, tmp) = round_loop tmp (blk1 ctx);
         (b2, tmp) = round_loop tmp (blk2 ctx)
     in (ctx\<lparr>hash_buf := h, blk1 := b1, blk2 := b2\<rparr>, tmp + of_nat i))"

definition md2_process_block :: "md2ctx \<Rightarrow> u8 list \<Rightarrow> md2ctx" where
  "md2_process_block ctx block =
     (let ctx = md2_prepare_blk (md2_update_checksum ctx block) block
      in fst (fold md2_round [0..<18] (ctx, 0)))"

text \<open>\<^verbatim>\<open>memcpy(&buf[at], data, n)\<close>.\<close>

definition copy_at :: "u8 list \<Rightarrow> nat \<Rightarrow> u8 list \<Rightarrow> u8 list" where
  "copy_at buf at d = take at buf @ d @ drop (at + length d) buf"

function update_blocks :: "md2ctx \<Rightarrow> u8 list \<Rightarrow> md2ctx" where
  "update_blocks ctx data =
     (if length data \<ge> MD2_BLOCK_SIZE then update_blocks (md2_process_block ctx data) (drop MD2_BLOCK_SIZE data)
      else ctx\<lparr>last_buf := copy_at (last_buf ctx) 0 data, used_cnt := of_nat (length data)\<rparr>)"
  by auto
termination
  by (relation "measure (\<lambda>(ctx, data). length data)") auto

declare update_blocks.simps [simp del]

text \<open>\<open>data\<close> are the bytes at the data pointer, \<^verbatim>\<open>size\<close> of them.\<close>

definition md2_update :: "md2ctx option \<Rightarrow> u8 list option \<Rightarrow> md2_state \<times> md2ctx option" where
  "md2_update ctx data =
     (case (ctx, data) of
       (Some ctx, Some data) \<Rightarrow>
         if used_cnt ctx \<noteq> 0 then
           (let used = unat (used_cnt ctx) in
            if (ucast (used_cnt ctx) + of_nat (length data) :: u64) < 16 then
              (MD2_OK, Some (ctx\<lparr>last_buf := copy_at (last_buf ctx) used data, used_cnt := used_cnt ctx + of_nat (length data)\<rparr>))
            else
              (let copied_len = MD2_BLOCK_SIZE - used;
                   ctx = ctx\<lparr>last_buf := copy_at (last_buf ctx) used (take copied_len data)\<rparr>;
                   ctx = md2_process_block ctx (last_buf ctx);
                   ctx = ctx\<lparr>used_cnt := 0, last_buf := CLEAR_BLOCK\<rparr>
               in (MD2_OK, Some (update_blocks ctx (drop copied_len data)))))
         else (MD2_OK, Some (update_blocks ctx data))
     | (ctx, _) \<Rightarrow> (MD2_NULLPTR, ctx))"

text \<open>The digest is written to \<open>md\<close>; the result has the bytes written there, if any.\<close>

definition md2_final :: "bool \<Rightarrow> md2ctx option \<Rightarrow> md2_state \<times> u8 list option \<times> md2ctx option" where
  "md2_final md_null ctx =
     (case ctx of
       None \<Rightarrow> (MD2_NULLPTR, None, None)
     | Some ctx \<Rightarrow>
         if md_null then (MD2_NULLPTR, None, Some ctx)
         else
           (let padding_len = 16 - used_cnt ctx;
                ctx = ctx\<lparr>last_buf := copy_at (last_buf ctx) (unat (used_cnt ctx)) (replicate (unat padding_len) (ucast padding_len))\<rparr>;
                ctx = md2_process_block ctx (last_buf ctx);
                ctx = ctx\<lparr>used_cnt := 0\<rparr>;
                ctx = ctx\<lparr>last_buf := copy_at (last_buf ctx) 0 (checksum ctx)\<rparr>;
                ctx = md2_process_block ctx (last_buf ctx)
            in (MD2_OK, Some (hash_buf ctx), Some ctx)))"

definition md2 :: "md2ctx \<Rightarrow> u8 list option \<Rightarrow> bool \<Rightarrow> u8 list option" where
  "md2 junk data md_null =
     (case data of
       None \<Rightarrow> None
     | Some d \<Rightarrow>
         if md_null then None
         else
           (let ctx = snd (md2_init (Some junk));
                ctx = snd (md2_update ctx (Some d))
            in fst (snd (md2_final False ctx))))"

section \<open>Reference\<close>

definition ref_round :: "nat \<Rightarrow> u8 list \<times> u8 \<Rightarrow> u8 list \<times> u8" where
  "ref_round i = (\<lambda>(X, t). let (X, t) = round_loop t X in (X, t + of_nat i))"

definition ref_compress :: "u8 list \<Rightarrow> u8 list \<Rightarrow> u8 list" where
  "ref_compress h b = take 16 (fst (fold ref_round [0..<18] (h @ b @ map2 (XOR) b h, 0)))"

type_synonym md2_sums = "u8 list \<times> u8 list"

definition absorb_block :: "md2_sums \<Rightarrow> u8 list \<Rightarrow> md2_sums" where
  "absorb_block = (\<lambda>(h, c) b. (ref_compress h b, checksum_loop (c ! 15) b c))"

function absorb :: "md2_sums \<Rightarrow> u8 list \<Rightarrow> md2_sums \<times> u8 list" where
  "absorb s m = (if 16 \<le> length m then absorb (absorb_block s (take 16 m)) (drop 16 m) else (s, m))"
  by auto
termination
  by (relation "measure (\<lambda>(s, m). length m)") auto

declare absorb.simps [simp del]

definition md2_ref :: "u8 list \<Rightarrow> u8 list" where
  "md2_ref m =
     (let (s, r) = absorb (replicate 16 0, replicate 16 0) m;
          n = 16 - length r;
          s = absorb_block s (r @ replicate n (of_nat n))
      in fst (absorb_block s (snd s)))"

section \<open>Blocks\<close>

lemma length_checksum_loop [simp]: "length (checksum_loop L b c) = length c"
  by (induction L b c rule: checksum_loop.induct) (simp_all add: Let_def)

lemma length_round_loop [simp]: "length (fst (round_loop t b)) = length b"
  by (induction b arbitrary: t) (simp_all add: Let_def split_beta)

lemma round_loop_append:
  "round_loop t (a @ b) = (let (a, t) = round_loop t a; (b, t) = round_loop t b in (a @ b, t))"
  by (induction a arbitrary: t) (simp_all add: Let_def split_beta)

text \<open>The three buffers of the context, as the 48 bytes of the reference.\<close>

definition buffers :: "md2ctx \<Rightarrow> u8 list" where
  "buffers ctx = hash_buf ctx @ blk1 ctx @ blk2 ctx"

definition buffers_ok :: "md2ctx \<Rightarrow> bool" where
  "buffers_ok ctx \<longleftrightarrow> length (hash_buf ctx) = 16 \<and> length (blk1 ctx) = 16 \<and> length (blk2 ctx) = 16"

lemma md2_round_ref:
  assumes "buffers_ok ctx" "md2_round i (ctx, t) = (ctx', t')"
  shows "buffers_ok ctx'" "ref_round i (buffers ctx, t) = (buffers ctx', t')"
    "checksum ctx' = checksum ctx" "used_cnt ctx' = used_cnt ctx" "last_buf ctx' = last_buf ctx"
  using assms by (auto simp: md2_round_def ref_round_def buffers_def buffers_ok_def Let_def split_beta round_loop_append)

lemma md2_rounds_ref:
  assumes "buffers_ok ctx" "fold md2_round is (ctx, t) = (ctx', t')"
  shows "buffers_ok ctx' \<and> fold ref_round is (buffers ctx, t) = (buffers ctx', t') \<and>
    checksum ctx' = checksum ctx \<and> used_cnt ctx' = used_cnt ctx \<and> last_buf ctx' = last_buf ctx"
  using assms
proof (induction "is" arbitrary: ctx t)
  case (Cons i "is")
  obtain c u where c: "md2_round i (ctx, t) = (c, u)" by fastforce
  show ?case using Cons.IH [of c u] Cons.prems md2_round_ref [OF Cons.prems(1) c] by (simp add: c)
qed simp

text \<open>The sums that the context stands for.\<close>

definition sums_of :: "md2ctx \<Rightarrow> md2_sums" where
  "sums_of ctx = (hash_buf ctx, checksum ctx)"

lemma sums_of_update [simp]:
  "sums_of (ctx\<lparr>last_buf := b\<rparr>) = sums_of ctx" "sums_of (ctx\<lparr>used_cnt := u\<rparr>) = sums_of ctx"
  by (simp_all add: sums_of_def)

lemma md2_process_block_ref:
  assumes "length (hash_buf ctx) = 16" "length b = 16"
  shows "sums_of (md2_process_block ctx (b @ x)) = absorb_block (sums_of ctx) b"
    "length (hash_buf (md2_process_block ctx (b @ x))) = 16" "length (checksum (md2_process_block ctx (b @ x))) = length (checksum ctx)"
    "used_cnt (md2_process_block ctx (b @ x)) = used_cnt ctx" "last_buf (md2_process_block ctx (b @ x)) = last_buf ctx"
proof -
  define c where "c = md2_prepare_blk (md2_update_checksum ctx (b @ x)) (b @ x)"
  obtain c' t' where c': "fold md2_round [0..<18] (c, 0) = (c', t')" by fastforce
  have c: "buffers c = hash_buf ctx @ b @ map2 (XOR) b (hash_buf ctx)" "buffers_ok c"
    "checksum c = checksum_loop (checksum ctx ! 15) b (checksum ctx)" "used_cnt c = used_cnt ctx" "last_buf c = last_buf ctx"
    using assms by (simp_all add: c_def md2_prepare_blk_def md2_update_checksum_def buffers_def buffers_ok_def)
  note r = md2_rounds_ref [OF c(2) c']
  have p: "md2_process_block ctx (b @ x) = c'" by (simp only: md2_process_block_def c_def [symmetric] Let_def c' fst_conv)
  show "sums_of (md2_process_block ctx (b @ x)) = absorb_block (sums_of ctx) b"
    using r c(1,3) unfolding p by (simp add: sums_of_def absorb_block_def ref_compress_def buffers_def buffers_ok_def)
  show "length (hash_buf (md2_process_block ctx (b @ x))) = 16" "length (checksum (md2_process_block ctx (b @ x))) = length (checksum ctx)"
    "used_cnt (md2_process_block ctx (b @ x)) = used_cnt ctx" "last_buf (md2_process_block ctx (b @ x)) = last_buf ctx"
    using r c(3-5) unfolding p by (simp_all add: buffers_ok_def)
qed

section \<open>Streaming\<close>

lemma absorb_append: "absorb s (m @ d) = (let (s, r) = absorb s m in absorb s (r @ d))"
proof (induction s m rule: absorb.induct)
  case (1 s m)
  show ?case
  proof (cases "16 \<le> length m")
    case True
    then show ?thesis using 1 by (simp add: absorb.simps [of s m] absorb.simps [of s "m @ d"])
  next
    case False
    then show ?thesis by (simp add: absorb.simps [of s m])
  qed
qed

text \<open>The context after a message with the sums \<open>s\<close> and the rest \<open>r\<close>.\<close>

definition md2_repr :: "md2ctx \<Rightarrow> md2_sums \<times> u8 list \<Rightarrow> bool" where
  "md2_repr ctx = (\<lambda>(s, r). sums_of ctx = s \<and> length (hash_buf ctx) = 16 \<and> length (checksum ctx) = 16 \<and> length (last_buf ctx) = 16 \<and>
     length r < 16 \<and> used_cnt ctx = of_nat (length r) \<and> take (length r) (last_buf ctx) = r)"

lemma update_blocks_repr:
  assumes "length (hash_buf ctx) = 16" "length (checksum ctx) = 16" "length (last_buf ctx) = 16"
  shows "md2_repr (update_blocks ctx d) (absorb (sums_of ctx) d)"
  using assms
proof (induction ctx d rule: update_blocks.induct)
  case (1 ctx d)
  show ?case
  proof (cases "16 \<le> length d")
    case True
    have "md2_process_block ctx d = md2_process_block ctx (take 16 d @ drop 16 d)" by simp
    then show ?thesis using 1 True md2_process_block_ref [of ctx "take 16 d" "drop 16 d"]
      by (simp add: update_blocks.simps [of ctx d] absorb.simps [of "sums_of ctx" d])
  next
    case False
    then show ?thesis using 1
      by (simp add: update_blocks.simps [of ctx d] absorb.simps [of "sums_of ctx" d] md2_repr_def copy_at_def)
  qed
qed

lemma unat_small: "n < 2 ^ LENGTH('a) \<Longrightarrow> unat (of_nat n :: 'a :: len word) = n"
  by (simp add: unsigned_of_nat take_bit_nat_eq_self)

lemma md2_update_repr:
  assumes "md2_repr ctx (s, r)" "length d < 2 ^ 63"
  shows "\<exists>ctx'. md2_update (Some ctx) (Some d) = (MD2_OK, Some ctx') \<and> md2_repr ctx' (absorb s (r @ d))"
proof -
  have c: "sums_of ctx = s" "length (hash_buf ctx) = 16" "length (checksum ctx) = 16" "length (last_buf ctx) = 16"
    "length r < 16" "used_cnt ctx = of_nat (length r)" "take (length r) (last_buf ctx) = r"
    using assms(1) by (simp_all add: md2_repr_def)
  have u: "unat (used_cnt ctx) = length r" unfolding c(6) using c(5) by (simp add: unat_small)
  show ?thesis
  proof (cases "length r = 0")
    case True
    then show ?thesis using c update_blocks_repr [of ctx d] by (simp add: md2_update_def)
  next
    case False
    have nz: "used_cnt ctx \<noteq> 0" using False u by auto
    have sum: "(ucast (used_cnt ctx) + of_nat (length d) :: u64) = of_nat (length r + length d)"
      unfolding c(6) using c(5) by (simp add: unsigned_of_nat take_bit_nat_eq_self)
    have lt: "(ucast (used_cnt ctx) + of_nat (length d) :: u64) < 16 \<longleftrightarrow> length r + length d < 16"
      unfolding sum word_less_nat_alt using c(5) assms(2) by (subst unat_small) simp_all
    show ?thesis
    proof (cases "length r + length d < 16")
      case True
      then show ?thesis using c nz lt u
        by (simp add: md2_update_def md2_repr_def copy_at_def absorb.simps [of s "r @ d"] of_nat_add Let_def)
    next
      case False
      define k where "k = 16 - length r"
      define b where "b = r @ take k d"
      have b: "length b = 16" using c(5) False by (simp add: b_def k_def)
      have cp: "copy_at (last_buf ctx) (length r) (take k d) = b"
        using c(4,5,7) False by (simp add: copy_at_def b_def k_def)
      define c1 where "c1 = md2_process_block (ctx\<lparr>last_buf := b\<rparr>) b"
      note p = md2_process_block_ref [of "ctx\<lparr>last_buf := b\<rparr>" b "[]", simplified, OF c(2) b, folded c1_def]
      define c2 where "c2 = c1\<lparr>used_cnt := 0, last_buf := CLEAR_BLOCK\<rparr>"
      have "md2_repr (update_blocks c2 (drop k d)) (absorb (absorb_block s b) (drop k d))"
        using update_blocks_repr [of c2 "drop k d"] p c(1,3) by (simp add: c2_def CLEAR_BLOCK_def)
      moreover have "absorb s (r @ d) = absorb (absorb_block s b) (drop k d)"
      proof -
        have "r @ d = b @ drop k d" by (simp add: b_def)
        then show ?thesis using b by (subst absorb.simps) simp
      qed
      ultimately show ?thesis using False nz lt u cp
        by (simp add: md2_update_def Let_def k_def [symmetric] c1_def [symmetric] c2_def [symmetric])
    qed
  qed
qed

lemma md2_final_repr:
  assumes "md2_repr ctx (s, r)"
  defines "n \<equiv> 16 - length r"
  shows "\<exists>ctx'. md2_final False (Some ctx) =
    (MD2_OK, Some (fst (let s = absorb_block s (r @ replicate n (of_nat n)) in absorb_block s (snd s))), Some ctx')"
proof -
  have c: "sums_of ctx = s" "length (hash_buf ctx) = 16" "length (checksum ctx) = 16" "length (last_buf ctx) = 16"
    "length r < 16" "used_cnt ctx = of_nat (length r)" "take (length r) (last_buf ctx) = r"
    using assms(1) by (simp_all add: md2_repr_def)
  have u: "unat (used_cnt ctx) = length r" unfolding c(6) using c(5) by (simp add: unat_small)
  have pl: "16 - used_cnt ctx = of_nat n" unfolding c(6) n_def using c(5) by (simp add: of_nat_diff)
  have n: "unat (of_nat n :: u32) = n" "(ucast (of_nat n :: u32) :: u8) = of_nat n" "n \<le> 16"
    using unat_small [of n, where 'a = 32] by (simp_all add: n_def unsigned_of_nat take_bit_nat_eq_self)
  define b where "b = r @ replicate n (of_nat n :: u8)"
  have b: "length b = 16" using c(5) by (simp add: b_def n_def)
  have cp: "copy_at (last_buf ctx) (length r) (replicate n (of_nat n)) = b"
    using c(4,5,7) by (simp add: copy_at_def b_def n_def)
  define c1 where "c1 = md2_process_block (ctx\<lparr>last_buf := b\<rparr>) b"
  note p = md2_process_block_ref [of "ctx\<lparr>last_buf := b\<rparr>" b "[]", simplified, OF c(2) b, folded c1_def]
  have l: "length (checksum c1) = 16" using p(3) c(3) by simp
  have cp2: "copy_at b 0 (checksum c1) = checksum c1" using l b by (simp add: copy_at_def)
  define c2 where "c2 = c1\<lparr>used_cnt := 0, last_buf := checksum c1\<rparr>"
  note q = md2_process_block_ref [of c2 "checksum c1" "[]", simplified, OF _ l]
  have h: "hash_buf (md2_process_block c2 (checksum c1)) = fst (absorb_block (sums_of c1) (snd (sums_of c1)))"
    using q(1) p(2) by (simp add: c2_def sums_of_def) (metis fst_conv)
  show ?thesis using p(5) h
    by (simp add: md2_final_def pl n u cp c1_def [symmetric] cp2 c2_def [symmetric] p(1) c(1) b_def [symmetric] Let_def)
qed

lemma md2_init_repr:
  "\<exists>ctx. md2_init (Some junk) = (MD2_OK, Some ctx) \<and> md2_repr ctx ((replicate 16 0, replicate 16 0), [])"
  by (simp add: md2_init_def md2_repr_def sums_of_def CLEAR_BLOCK_def)

lemma md2_updates_repr:
  assumes "md2_repr ctx (s, r)" "\<forall>d \<in> set ds. length d < 2 ^ 63"
  shows "\<exists>ctx'. foldl (\<lambda>c d. snd (md2_update c (Some d))) (Some ctx) ds = Some ctx' \<and> md2_repr ctx' (absorb s (r @ concat ds))"
  using assms
proof (induction ds arbitrary: ctx s r)
  case Nil
  then show ?case by (simp add: md2_repr_def absorb.simps [of s r])
next
  case (Cons d ds)
  obtain c where c: "md2_update (Some ctx) (Some d) = (MD2_OK, Some c)" "md2_repr c (absorb s (r @ d))"
    using md2_update_repr [OF Cons.prems(1), of d] Cons.prems(2) by auto
  obtain s' r' where a: "absorb s (r @ d) = (s', r')" by fastforce
  have "absorb s (r @ concat (d # ds)) = absorb s' (r' @ concat ds)"
    using absorb_append [of s "r @ d" "concat ds"] by (simp add: a)
  then show ?case using Cons.IH [OF c(2) [unfolded a]] Cons.prems(2) c(1) by simp
qed

section \<open>Properties\<close>

text \<open>
  C6. The streaming hash refines the reference: initialising any context, feeding a message in pieces of any sizes and finalising writes the
  digest of the whole message, and so does the one-call function; with a null pointer it writes nothing.
\<close>

theorem md2_stream_refines:
  assumes "\<forall>d \<in> set ds. length d < 2 ^ 63" "length m < 2 ^ 63"
  shows "fst (snd (md2_final False (foldl (\<lambda>c d. snd (md2_update c (Some d))) (snd (md2_init (Some junk))) ds))) = Some (md2_ref (concat ds)) \<and>
    md2 junk (Some m) False = Some (md2_ref m) \<and> md2 junk None b = None \<and> md2 junk (Some m) True = None"
proof -
  have main: "fst (snd (md2_final False (foldl (\<lambda>c d. snd (md2_update c (Some d))) (snd (md2_init (Some junk))) ds))) = Some (md2_ref (concat ds))"
    if ds: "\<forall>d \<in> set ds. length d < 2 ^ 63" for ds
  proof -
    obtain c where c: "md2_init (Some junk) = (MD2_OK, Some c)" "md2_repr c ((replicate 16 0, replicate 16 0), [])"
      using md2_init_repr by blast
    obtain s r where a: "absorb (replicate 16 0, replicate 16 0) (concat ds) = (s, r)" by fastforce
    obtain c' where c': "foldl (\<lambda>c d. snd (md2_update c (Some d))) (Some c) ds = Some c'" "md2_repr c' (s, r)"
      using md2_updates_repr [OF c(2) ds] a by auto
    show ?thesis using md2_final_repr [OF c'(2)] by (auto simp: c(1) c'(1) md2_ref_def a Let_def)
  qed
  show ?thesis using main [OF assms(1)] main [of "[m]"] assms(2) by (simp add: md2_def)
qed

text \<open>A message in two pieces, with a context that held other data before.\<close>

definition old_ctx :: md2ctx where
  "old_ctx = \<lparr>hash_buf = [1], blk1 = [], blk2 = [9], used_cnt = 7, last_buf = [2], checksum = []\<rparr>"

theorem md2_stream_refines_witness:
  "fst (snd (md2_final False (foldl (\<lambda>c d. snd (md2_update c (Some d))) (snd (md2_init (Some old_ctx))) [[1, 2], [3]]))) =
     md2 old_ctx (Some [1, 2, 3]) False"
  using md2_stream_refines [of "[[1, 2], [3]]" "[1, 2, 3]" old_ctx] by simp

end
