(* ===== verification/Emod_Manager.thy ===== *)
theory Emod_Manager
  imports Enclave_Memory Ecdsa Md2
begin

unbundle bit_operations_syntax

text \<open>
  Loading of emodules: \<^verbatim>\<open>emod_manager.c\<close> and the table of \<^verbatim>\<open>emod_table/emod_table.c\<close>, on top of the emodule memory of
  \<open>Enclave_Memory\<close>, the digest of \<open>Md2\<close> and the signatures of \<open>Ecdsa\<close>; and the two functions of \<^verbatim>\<open>util/string.c\<close>.

  The host and the emodules are parameters (record \<open>host\<close>): the size that the host reports and the bytes that it delivers for the \<open>n\<close>-th
  request, the calls of \<open>acquire_emodule\<close> that the initialisation of an emodule makes, and the address that it returns. The manager sees
  initialisation only through these. An operation returns the state also when it panics, so that properties cover runs that fail later;
  \<open>executed\<close> records the images whose code was entered.
\<close>

section \<open>State\<close>

record mgr =
  emodule_table :: "vaddr list"
  mgr_mm :: mm_state
  requests :: nat
  executed :: "(u32 \<times> u8 list) list"

record host =
  emodule_sizes :: "nat \<Rightarrow> u64 \<Rightarrow> usize"
  emodule_bytes :: "nat \<Rightarrow> u64 \<Rightarrow> nat \<Rightarrow> u8"
  init_calls :: "u8 list \<Rightarrow> u32 list"
  init_getter :: "vaddr \<Rightarrow> u8 list \<Rightarrow> vaddr"
  pub_key :: "u8 list"
  stack_junk :: md2ctx

type_synonym 'a mop = "mgr \<Rightarrow> 'a res \<times> mgr"

definition mreturn :: "'a \<Rightarrow> 'a mop" where
  "mreturn x s = (Inr x, s)"

definition mbind :: "'a mop \<Rightarrow> ('a \<Rightarrow> 'b mop) \<Rightarrow> 'b mop" where
  "mbind m f s = (case m s of (Inl e, s) \<Rightarrow> (Inl e, s) | (Inr x, s) \<Rightarrow> f x s)"

definition mlift :: "'a res \<Rightarrow> 'a mop" where
  "mlift r s = (r, s)"

fun mfor_each :: "('a \<Rightarrow> 'b mop) \<Rightarrow> 'a list \<Rightarrow> unit mop" where
  "mfor_each f [] = mreturn ()"
| "mfor_each f (x # xs) = mbind (f x) (\<lambda>_. mfor_each f xs)"

section \<open>The emodule table\<close>

definition EMODULE_TABLE_SIZE :: nat where "EMODULE_TABLE_SIZE = 0x100"
definition EMODULE_ID_MANAGER :: u32 where "EMODULE_ID_MANAGER = 0"
definition LOAD_MODULE :: u64 where "LOAD_MODULE = push_bit 32 0x11223344"
definition GET_MODULE_SIZE :: u64 where "GET_MODULE_SIZE = push_bit 32 0xCAFE"

definition register_emodule :: "u32 \<Rightarrow> vaddr \<Rightarrow> unit mop" where
  "register_emodule emod_id emodule_getter_addr s =
     (if unat emod_id \<ge> EMODULE_TABLE_SIZE then (panic ''Attempt to register emodule that doesn't exist!'', s)
      else (Inr (), s\<lparr>emodule_table := (emodule_table s)[unat emod_id := emodule_getter_addr]\<rparr>))"

definition get_emodule_size :: "host \<Rightarrow> u32 \<Rightarrow> usize mop" where
  "get_emodule_size H emod_id s = (Inr (emodule_sizes H (requests s) (GET_MODULE_SIZE OR ucast emod_id)), s\<lparr>requests := requests s + 1\<rparr>)"

definition get_emodule :: "u32 \<Rightarrow> vaddr mop" where
  "get_emodule emod_id s =
     (Inr (if unat emod_id \<ge> EMODULE_TABLE_SIZE then 0 else emodule_table s ! unat emod_id), s)"

section \<open>Loading\<close>

text \<open>\<open>img\<close> are the bytes of the emodule, so the size is their number.\<close>

definition attest_emodule :: "host \<Rightarrow> u8 list \<Rightarrow> unit res" where
  "attest_emodule H img =
     (if length img \<le> ECC_BYTES secp256r1 * 2 then panic ''Invalid emodule size''
      else
        (let bare_size = length img - ECC_BYTES secp256r1 * 2;
             sign = drop bare_size img
         in case md2 (stack_junk H) (Some (take bare_size img)) False of
              None \<Rightarrow> Inl NullDeref
            | Some hash \<Rightarrow>
                (case ecdsa_verify secp256r1 (pub_key H) (hash @ hash) sign of
                  None \<Rightarrow> Inl Diverge
                | Some res \<Rightarrow> if \<not> res then panic ''attestation failed'' else Inr ())))"

text \<open>\<open>wait_until_non_zero\<close> does not return when the first word stays zero.\<close>

definition wait_until_non_zero :: "u8 list \<Rightarrow> unit res" where
  "wait_until_non_zero mem = (if \<forall>b \<in> set (take 8 mem). b = 0 then Inl Diverge else Inr ())"

definition alloc_emodule :: "usize \<Rightarrow> vaddr mop" where
  "alloc_emodule emodule_size s =
     (case alloc_map_emodule emodule_size (mgr_mm s) of Inl e \<Rightarrow> (Inl e, s) | Inr (v, m) \<Rightarrow> (Inr v, s\<lparr>mgr_mm := m\<rparr>))"

text \<open>
  The message that the host sends during \<^verbatim>\<open>__ecall_ebi_suspend(LOAD_MODULE | emodule_id)\<close>. The monitor, which is not part of the repository, copies it into the
  memory that \<^verbatim>\<open>__ecall_ebi_listen_message\<close> named. The model has the message delivered as a whole: the source polls its first word only, and a monitor that
  resumes the enclave in the middle of the copy is not represented.
\<close>

definition receive_emodule :: "host \<Rightarrow> u32 \<Rightarrow> usize \<Rightarrow> u8 list mop" where
  "receive_emodule H emodule_id emodule_size s =
     (Inr (map (emodule_bytes H (requests s) (LOAD_MODULE OR ucast emodule_id)) [0..<unat emodule_size]), s\<lparr>requests := requests s + 1\<rparr>)"

text \<open>The call \<^verbatim>\<open>init((vaddr_t)get_emod_manager)\<close>, where \<open>acquire\<close> is the manager's entry that the emodule may call.\<close>

definition call_init :: "(u32 \<Rightarrow> vaddr mop) \<Rightarrow> host \<Rightarrow> u32 \<Rightarrow> vaddr \<Rightarrow> u8 list \<Rightarrow> vaddr mop" where
  "call_init acquire H emodule_id v img s =
     mbind (mfor_each acquire (init_calls H img)) (\<lambda>_. mreturn (init_getter H v img)) (s\<lparr>executed := executed s @ [(emodule_id, img)]\<rparr>)"

definition load_emodule :: "(u32 \<Rightarrow> vaddr mop) \<Rightarrow> host \<Rightarrow> u32 \<Rightarrow> unit mop" where
  "load_emodule acquire H emodule_id =
     mbind (get_emodule_size H emodule_id) (\<lambda>emodule_size.
     mbind (alloc_emodule emodule_size) (\<lambda>v.
     mbind (receive_emodule H emodule_id emodule_size) (\<lambda>img.
     mbind (mlift (wait_until_non_zero img)) (\<lambda>_.
     mbind (mlift (attest_emodule H img)) (\<lambda>_.
     mbind (call_init acquire H emodule_id v img) (\<lambda>getter_addr.
     register_emodule emodule_id getter_addr))))))"

text \<open>
  The first argument bounds the depth of nested loads: an emodule that acquires another one in its initialisation enters the manager again, and a
  cycle would never end.
\<close>

fun acquire_emodule :: "nat \<Rightarrow> host \<Rightarrow> u32 \<Rightarrow> vaddr mop" where
  "acquire_emodule 0 H emodule_id = mlift (Inl Diverge)"
| "acquire_emodule (Suc k) H emodule_id =
     mbind (get_emodule emodule_id) (\<lambda>emodule_getter_addr.
       if emodule_getter_addr = 0 then mbind (load_emodule (acquire_emodule k H) H emodule_id) (\<lambda>_. get_emodule emodule_id)
       else mreturn emodule_getter_addr)"

text \<open>\<open>self\<close> is the address of \<open>get_emod_manager\<close>; the other assignments fill the table of functions.\<close>

definition emod_manager_init :: "vaddr \<Rightarrow> unit mop" where
  "emod_manager_init self = register_emodule EMODULE_ID_MANAGER self"

section \<open>Memory functions\<close>

text \<open>The loop of \<open>memset\<close>: the bytes that it stores, little-endian, widest stores first.\<close>

definition memset_fill :: "u32 \<Rightarrow> u64" where
  "memset_fill byte =
     (let fill = scast byte; fill = fill OR push_bit 8 fill; fill = fill OR push_bit 16 fill in fill OR push_bit 32 fill)"

definition store_le :: "nat \<Rightarrow> u64 \<Rightarrow> u8 list" where
  "store_le n w = map (\<lambda>i. ucast (drop_bit (8 * i) w)) [0..<n]"

function memset_loop :: "u64 \<Rightarrow> u32 \<Rightarrow> nat \<Rightarrow> u8 list" where
  "memset_loop fill byte len =
     (if len > 0 then
        if len > 8 then store_le 8 fill @ memset_loop fill byte (len - 8)
        else if len > 4 then store_le 4 (fill AND 0xFFFFFFFF) @ memset_loop fill byte (len - 4)
        else if len > 2 then store_le 2 (fill AND 0xFFFF) @ memset_loop fill byte (len - 2)
        else ucast byte # memset_loop fill byte (len - 1)
      else [])"
  by pat_completeness auto
termination
  by (relation "measure (\<lambda>(fill, byte, len). len)") auto

declare memset_loop.simps [simp del]

text \<open>\<open>dst\<close> is the memory from the destination on.\<close>

definition memset :: "u8 list \<Rightarrow> u32 \<Rightarrow> nat \<Rightarrow> u8 list res" where
  "memset dst byte len =
     (if length dst < len then Inl NullDeref else Inr (memset_loop (memset_fill byte) byte len @ drop len dst))"

fun memcpy :: "u8 list \<Rightarrow> u8 list \<Rightarrow> nat \<Rightarrow> u8 list res" where
  "memcpy dest src 0 = Inr dest"
| "memcpy (d # dest) (c # src) (Suc count) = rbind (memcpy dest src count) (\<lambda>dest. Inr (c # dest))"
| "memcpy dest src (Suc count) = Inl NullDeref"

section \<open>Invariants of loading\<close>

text \<open>
  What every step of loading keeps, nested loads and failing runs included. The code of an image is entered only after \<open>attest_emodule\<close> has accepted it,
  so an invariant has to be kept for such images only.
\<close>

locale loader_invariant =
  fixes H :: host and P :: "mgr \<Rightarrow> bool"
  assumes keep_requests: "P s \<Longrightarrow> P (s\<lparr>requests := n\<rparr>)"
    and keep_memory: "P s \<Longrightarrow> P (s\<lparr>mgr_mm := m\<rparr>)"
    and keep_table: "P s \<Longrightarrow> P (s\<lparr>emodule_table := (emodule_table s)[i := a]\<rparr>)"
    and keep_execute: "P s \<Longrightarrow> attest_emodule H img = Inr () \<Longrightarrow> P (s\<lparr>executed := executed s @ [(j, img)]\<rparr>)"
begin

definition keeps :: "'a mop \<Rightarrow> bool" where
  "keeps m \<longleftrightarrow> (\<forall>s. P s \<longrightarrow> P (snd (m s)))"

lemma keeps_return [simp]: "keeps (mreturn x)" "keeps (mlift r)"
  by (simp_all add: keeps_def mreturn_def mlift_def)

lemma keeps_bind: "keeps m \<Longrightarrow> (\<And>x s. m s = (Inr x, snd (m s)) \<Longrightarrow> keeps (f x)) \<Longrightarrow> keeps (mbind m f)"
  unfolding keeps_def
proof (intro allI impI)
  fix s
  assume a: "\<forall>s. P s \<longrightarrow> P (snd (m s))" "\<And>x s. m s = (Inr x, snd (m s)) \<Longrightarrow> \<forall>s. P s \<longrightarrow> P (snd (f x s))" "P s"
  obtain r t where m: "m s = (r, t)" by fastforce
  then have t: "P t" using a(1,3) by (metis snd_conv)
  show "P (snd (mbind m f s))" using a(2) [of s] t m by (cases r) (simp_all add: mbind_def)
qed

lemma keeps_for_each: "(\<And>x. x \<in> set xs \<Longrightarrow> keeps (f x)) \<Longrightarrow> keeps (mfor_each f xs)"
  by (induction xs) (auto intro: keeps_bind)

lemma keeps_table: "keeps (register_emodule i a)" "keeps (get_emodule i)" "keeps (get_emodule_size H i)"
  by (simp_all add: keeps_def register_emodule_def get_emodule_def get_emodule_size_def keep_table keep_requests)

lemma keeps_memory: "keeps (alloc_emodule n)" "keeps (receive_emodule H i n)"
  by (simp_all add: keeps_def alloc_emodule_def receive_emodule_def keep_memory keep_requests split: sum.splits prod.splits)

lemma keeps_init:
  assumes "\<And>i. keeps (acquire i)" "attest_emodule H img = Inr ()"
  shows "keeps (call_init acquire H i v img)"
proof -
  have "keeps (mbind (mfor_each acquire (init_calls H img)) (\<lambda>_. mreturn (init_getter H v img)))"
    by (intro keeps_bind keeps_for_each assms(1) keeps_return)
  then show ?thesis using keep_execute [OF _ assms(2)] by (simp add: keeps_def call_init_def)
qed

lemma keeps_load:
  assumes "\<And>i. keeps (acquire i)"
  shows "keeps (load_emodule acquire H i)"
proof -
  have "keeps (call_init acquire H i v img)" if "mlift (attest_emodule H img) s = (Inr x, t)" for v img s x t
    using that keeps_init [OF assms] by (simp add: mlift_def)
  then show ?thesis unfolding load_emodule_def
    by (intro keeps_bind keeps_table keeps_memory keeps_return) blast
qed

lemma acquire_keeps: "keeps (acquire_emodule k H i)"
  by (induction k arbitrary: i) (auto intro!: keeps_bind keeps_table keeps_load)

end

text \<open>An image that carries a signature of its own digest.\<close>

definition attested :: "host \<Rightarrow> u8 list \<Rightarrow> bool" where
  "attested H img \<longleftrightarrow> 64 < length img \<and>
     (let bare = take (length img - 64) img in
      ecdsa_verify secp256r1 (pub_key H) (md2_ref bare @ md2_ref bare) (drop (length img - 64) img) = Some True)"

definition all_attested :: "host \<Rightarrow> mgr \<Rightarrow> bool" where
  "all_attested H s \<longleftrightarrow> (\<forall>(i, img) \<in> set (executed s). attested H img)"

definition table_ok :: "mgr \<Rightarrow> bool" where
  "table_ok s \<longleftrightarrow> length (emodule_table s) = EMODULE_TABLE_SIZE"

lemma md2_once: "md2 junk (Some m) False = Some (md2_ref m)"
proof -
  obtain c where c: "md2_init (Some junk) = (MD2_OK, Some c)" "md2_repr c ((replicate 16 0, replicate 16 0), [])"
    using md2_init_repr by blast
  have d: "sums_of c = (replicate 16 0, replicate 16 0)" "length (hash_buf c) = 16" "length (checksum c) = 16" "length (last_buf c) = 16" "used_cnt c = 0"
    using c(2) by (simp_all add: md2_repr_def)
  obtain s r where a: "absorb (replicate 16 0, replicate 16 0) m = (s, r)" by fastforce
  have "md2_repr (update_blocks c m) (s, r)" using update_blocks_repr [OF d(2-4), of m] by (simp add: d(1) a)
  then show ?thesis using md2_final_repr c(1) d(5) by (fastforce simp: md2_def md2_update_def md2_ref_def a Let_def)
qed

lemma attest_emodule_iff: "attest_emodule H img = Inr () \<longleftrightarrow> attested H img"
  by (simp add: attest_emodule_def attested_def md2_once Let_def split: option.splits)

interpretation att: loader_invariant H "all_attested H" for H
  by unfold_locales (auto simp: all_attested_def attest_emodule_iff)

interpretation tab: loader_invariant H table_ok for H
  by unfold_locales (auto simp: table_ok_def)

section \<open>Nested loads\<close>

text \<open>Some image that the host delivers for emodule \<open>i\<close> acquires \<open>j\<close>.\<close>

definition depends :: "host \<Rightarrow> u32 \<Rightarrow> u32 \<Rightarrow> bool" where
  "depends H i j \<longleftrightarrow> (\<exists>n m. j \<in> set (init_calls H (map (emodule_bytes H n (LOAD_MODULE OR ucast i)) [0..<m])))"

lemma mfor_each_cong: "(\<And>x. x \<in> set xs \<Longrightarrow> f x = g x) \<Longrightarrow> mfor_each f xs = mfor_each g xs"
  by (induction xs) auto

lemma mbind_cong: "(\<And>s x t. m s = (Inr x, t) \<Longrightarrow> f x = g x) \<Longrightarrow> mbind m f = mbind m g"
  by (rule ext) (auto simp: mbind_def split: prod.splits sum.splits)

lemma load_cong:
  assumes "\<And>j. depends H i j \<Longrightarrow> f j = g j"
  shows "load_emodule f H i = load_emodule g H i"
proof -
  have c: "call_init f H i v img = call_init g H i v img" if "receive_emodule H i n s = (Inr img, t)" for n s img t v
  proof -
    have "mfor_each f (init_calls H img) = mfor_each g (init_calls H img)"
      by (rule mfor_each_cong [OF assms]) (use that in \<open>auto simp: depends_def receive_emodule_def\<close>)
    then show ?thesis by (rule_tac ext) (simp add: call_init_def)
  qed
  show ?thesis unfolding load_emodule_def
    by (rule mbind_cong, rule mbind_cong, rule mbind_cong, rule mbind_cong, rule mbind_cong) (simp add: c)
qed

lemma acquire_depth:
  assumes "\<forall>i j. depends H i j \<longrightarrow> rank j < rank i" "rank i < k" "rank i < k'"
  shows "acquire_emodule k' H i = acquire_emodule k H i"
  using assms(2,3)
proof (induction k arbitrary: i k')
  case (Suc k)
  then obtain l where l: "k' = Suc l" by (cases k') auto
  have "acquire_emodule l H j = acquire_emodule k H j" if "depends H i j" for j
    using Suc.IH [of j l] Suc.prems assms(1) that l by fastforce
  then have "load_emodule (acquire_emodule l H) H i = load_emodule (acquire_emodule k H) H i" by (rule load_cong)
  then show ?case unfolding l acquire_emodule.simps by (simp cong: if_cong)
qed simp

text \<open>A load up to the call of the initialisation.\<close>

lemma mbind_Inr: "m s = (Inr x, t) \<Longrightarrow> mbind m f s = f x t"
  by (simp add: mbind_def)

lemma load_until_init:
  fixes H :: host
  assumes "emodule_sizes H (requests s) (GET_MODULE_SIZE OR ucast i) = sz" "alloc_map_emodule sz (mgr_mm s) = Inr (v, m)"
    and "img = map (emodule_bytes H (requests s + 1) (LOAD_MODULE OR ucast i)) [0..<unat sz]"
  shows "load_emodule acq H i s = mbind (mlift (wait_until_non_zero img)) (\<lambda>_. mbind (mlift (attest_emodule H img)) (\<lambda>_.
     mbind (call_init acq H i v img) (register_emodule i))) (s\<lparr>mgr_mm := m, requests := requests s + 2\<rparr>)"
proof -
  let ?s\<^sub>1 = "s\<lparr>requests := requests s + 1\<rparr>" and ?s\<^sub>2 = "s\<lparr>mgr_mm := m, requests := requests s + 1\<rparr>"
  have 1: "get_emodule_size H i s = (Inr sz, ?s\<^sub>1)" using assms(1) by (simp add: get_emodule_size_def)
  have 2: "alloc_emodule sz ?s\<^sub>1 = (Inr v, ?s\<^sub>2)" using assms(2) by (simp add: alloc_emodule_def)
  have 3: "receive_emodule H i sz ?s\<^sub>2 = (Inr img, s\<lparr>mgr_mm := m, requests := requests s + 2\<rparr>)"
    using assms(3) by (simp add: receive_emodule_def)
  show ?thesis unfolding load_emodule_def mbind_Inr [of "get_emodule_size H i", OF 1] mbind_Inr [of "alloc_emodule sz", OF 2]
      mbind_Inr [of "receive_emodule H i sz", OF 3] ..
qed

lemma attest_emodule_rejects:
  assumes "\<not> attested H img"
  shows "\<exists>e. attest_emodule H img = Inl e"
  using assms attest_emodule_iff [of H img] by (cases "attest_emodule H img") auto

section \<open>Filling memory\<close>

lemma fill_byte:
  assumes "i < 8"
  shows "ucast (drop_bit (8 * i) (memset_fill (ucast (b :: u8)))) = b"
proof (rule bit_word_eqI)
  fix j
  assume j: "j < LENGTH(8)"
  have b: "bit b n \<Longrightarrow> n < 8" for n using bit_imp_le_length [of b n] by simp
  have nb: "8 \<le> n \<Longrightarrow> \<not> bit b n" for n using b [of n] by linarith
  have f: "memset_fill (ucast b) = (let w = (ucast b :: u64); x = w OR push_bit 8 w; y = x OR push_bit 16 x in y OR push_bit 32 y)"
  proof -
    have m: "bit b (min 31 n) = bit b n" for n using b [of n] b [of 31] by (auto simp: min_def)
    have "(scast (ucast b :: u32) :: u64) = ucast b" by (rule bit_word_eqI) (use b in \<open>auto simp: bit_simps m\<close>)
    then show ?thesis by (simp add: memset_fill_def Let_def)
  qed
  have "i = 0 \<or> i = 1 \<or> i = 2 \<or> i = 3 \<or> i = 4 \<or> i = 5 \<or> i = 6 \<or> i = 7" using assms by presburger
  then show "bit (ucast (drop_bit (8 * i) (memset_fill (ucast b))) :: u8) j = bit b j"
    using j nb by (elim disjE) (auto simp: f Let_def bit_simps)
qed

lemma store_le_fill: "n \<le> 8 \<Longrightarrow> store_le n (memset_fill (ucast b)) = replicate n b"
  unfolding store_le_def by (rule replicate_eqI) (auto simp: fill_byte)

lemma store_le_mask: "store_le 4 (w AND 0xFFFFFFFF) = store_le 4 w" "store_le 2 (w AND 0xFFFF) = store_le 2 w"
proof -
  have m: "(0xFFFFFFFF :: u64) = mask 32" "(0xFFFF :: u64) = mask 16" by (simp_all add: mask_eq_exp_minus_1)
  show "store_le 4 (w AND 0xFFFFFFFF) = store_le 4 w" "store_le 2 (w AND 0xFFFF) = store_le 2 w"
    unfolding m store_le_def by (auto intro!: bit_word_eqI simp: bit_simps)
qed

lemma memset_loop_fill: "memset_loop (memset_fill (ucast b)) (ucast b) len = replicate len b"
proof (induction len rule: less_induct)
  case (less len)
  have u: "(ucast (ucast b :: u32) :: u8) = b" by (rule bit_word_eqI) (auto simp: bit_simps)
  have r: "k \<le> len \<Longrightarrow> replicate k b @ replicate (len - k) b = replicate len b" for k by (simp flip: replicate_add)
  show ?case
    using less [of "len - 8"] less [of "len - 4"] less [of "len - 2"] less [of "len - 1"] r [of 8] r [of 4] r [of 2] r [of 1] u
    by (subst memset_loop.simps) (simp add: store_le_fill store_le_mask)
qed

section \<open>Properties\<close>

text \<open>
  C1. Only attested code runs: whatever the host reports and delivers and whatever emodules are acquired during initialisation, every image whose code
  is entered is longer than a signature and carries one that verifies, under the manager's key, for the digest of the rest; this also holds for runs that panic or
  do not end, and the emodule table keeps its size.
\<close>

theorem only_attested_emodules_run:
  assumes "all_attested H s" "table_ok s" "acquire_emodule k H i s = (r, t)"
  shows "all_attested H t \<and> table_ok t"
  using att.acquire_keeps [where H = H and k = k and i = i] tab.acquire_keeps [where H = H and k = k and i = i] assms unfolding att.keeps_def tab.keeps_def by (metis snd_conv)


text \<open>
  C40. \<open>memset\<close>, which stores words, half words and bytes, has the effect of storing the byte at every place, for every length and every byte value, and touches nothing after;
  \<open>memcpy\<close> copies exactly the bytes asked for.
\<close>

theorem memory_functions_exact:
  assumes "len \<le> length dst" "len \<le> length src"
  shows "memset dst (ucast (b :: u8)) len = Inr (replicate len b @ drop len dst) \<and> memcpy dst src len = Inr (take len src @ drop len dst)"
proof -
  have "memcpy dst src len = Inr (take len src @ drop len dst)" using assms
    by (induction dst src len rule: memcpy.induct) auto
  then show ?thesis using assms by (simp add: memset_def memset_loop_fill)
qed

text \<open>An enclave in which only the manager is registered, and a host that delivers nothing.\<close>

definition small_mgr :: mgr where
  "small_mgr = \<lparr>emodule_table = replicate 256 0, mgr_mm = sample_mm, requests = 0, executed = []\<rparr>"

definition silent_host :: host where
  "silent_host = \<lparr>emodule_sizes = (\<lambda>_ _. 0), emodule_bytes = (\<lambda>_ _ _. 0), init_calls = (\<lambda>_. []), init_getter = (\<lambda>_ _. 0), pub_key = [], stack_junk = old_ctx\<rparr>"

theorem only_attested_emodules_run_witness:
  "all_attested silent_host (snd (acquire_emodule 3 silent_host 1 small_mgr)) \<and> table_ok (snd (acquire_emodule 3 silent_host 1 small_mgr))"
proof -
  have "all_attested silent_host small_mgr" "table_ok small_mgr" by (simp_all add: all_attested_def table_ok_def small_mgr_def EMODULE_TABLE_SIZE_def)
  then show ?thesis using only_attested_emodules_run [of silent_host small_mgr 3 1] by (metis prod.collapse)
qed

text \<open>A host that delivers an image too short to carry a signature.\<close>

definition short_host :: host where
  "short_host = silent_host\<lparr>emodule_sizes := (\<lambda>_ _. 3), emodule_bytes := (\<lambda>_ _ i. of_nat i)\<rparr>"


theorem memory_functions_exact_witness:
  "memset (replicate 20 1) 0xAB 19 = Inr (replicate 19 0xAB @ [1]) \<and> memcpy [1, 2, 3] [4, 5] 2 = Inr [4, 5, 3]"
proof -
  have "drop 19 (replicate 20 (1 :: u8)) = [1]" by (simp add: drop_replicate)
  then show ?thesis using memory_functions_exact [of 19 "replicate 20 1" "replicate 20 2" "0xAB"] memory_functions_exact [of 2 "[1, 2, 3]" "[4, 5]" 0] by simp
qed

end
