(* ===== verification/Vnode.thy ===== *)
theory Vnode
  imports Prelude "HOL-Library.Signed_Division"
begin

unbundle bit_operations_syntax

text \<open>
  The vnode layer of the file system emodule (\<^verbatim>\<open>emod_vfs/vfs/vnode.c\<close>, with its types from \<^verbatim>\<open>vnode.h\<close> and \<^verbatim>\<open>stat.h\<close> and
  the mount counters of \<^verbatim>\<open>mount.c\<close>): access checks, file status, and the reference counted table of active vnodes.

  Vnodes live in a store from addresses to records. A bucket of the hash table is the list of the addresses on its linked list; an
  allocation takes the next unused address, and whether it succeeds is a parameter. Dereferencing an address that holds no vnode is
  \<open>NullDeref\<close>. \<^verbatim>\<open>off_t\<close> is an integer; the counters \<^verbatim>\<open>v_refcnt\<close> and \<^verbatim>\<open>m_count\<close>, which are of type
  \<^verbatim>\<open>int\<close>, are 32-bit words that wrap around and are read as signed numbers.
\<close>

section \<open>Types\<close>

datatype vtype = VNON | VREG | VDIR | VBLK | VCHR | VLNK | VSOCK | VFIFO | VBAD

datatype errno = SUCCESS | EPERM | ENOENT | EIO | EBADF | ENOMEM | EACCES | EBUSY | EISDIR | EINVAL | EFBIG | EROFS | ENAMETOOLONG

type_synonym timespec = "int \<times> int"
type_synonym mode_t = u32
type_synonym vnode_addr = nat
type_synonym mount_addr = u64

definition S_IFMT :: mode_t where "S_IFMT = 0xF000"
definition S_IFDIR :: mode_t where "S_IFDIR = 0x4000"
definition S_IFCHR :: mode_t where "S_IFCHR = 0x2000"
definition S_IFBLK :: mode_t where "S_IFBLK = 0x6000"
definition S_IFREG :: mode_t where "S_IFREG = 0x8000"
definition S_IFIFO :: mode_t where "S_IFIFO = 0x1000"
definition S_IFLNK :: mode_t where "S_IFLNK = 0xA000"
definition S_IFSOCK :: mode_t where "S_IFSOCK = 0xC000"

definition S_ISDIR :: "mode_t \<Rightarrow> bool" where "S_ISDIR mode \<longleftrightarrow> mode AND S_IFMT = S_IFDIR"
definition S_ISREG :: "mode_t \<Rightarrow> bool" where "S_ISREG mode \<longleftrightarrow> mode AND S_IFMT = S_IFREG"

lemmas mode_defs = S_IFMT_def S_IFDIR_def S_IFCHR_def S_IFBLK_def S_IFREG_def S_IFIFO_def S_IFLNK_def S_IFSOCK_def S_ISDIR_def S_ISREG_def

definition VREAD :: u32 where "VREAD = 4"
definition VWRITE :: u32 where "VWRITE = 2"
definition VEXEC :: u32 where "VEXEC = 1"
definition MNT_RDONLY :: u32 where "MNT_RDONLY = 1"
definition BSIZE :: int where "BSIZE = 512"
definition UK_S_BLKSIZE :: int where "UK_S_BLKSIZE = 512"
definition VNODE_BUCKETS :: u32 where "VNODE_BUCKETS = 32"

record vnode =
  v_ino :: u64
  v_mount :: mount_addr
  v_refcnt :: u32
  v_type :: vtype
  v_mode :: mode_t
  v_size :: int
  v_data :: "nat option"

record vattr =
  va_mask :: u32
  va_type :: vtype
  va_mode :: mode_t
  va_nlink :: u64
  va_uid :: u32
  va_gid :: u32
  va_fsid :: u64
  va_nodeid :: u64
  va_atime :: timespec
  va_mtime :: timespec
  va_ctime :: timespec
  va_rdev :: u64
  va_nblocks :: u64
  va_size :: int

definition zero_vattr :: vattr where
  "zero_vattr = \<lparr>va_mask = 0, va_type = VNON, va_mode = 0, va_nlink = 0, va_uid = 0, va_gid = 0, va_fsid = 0, va_nodeid = 0,
     va_atime = (0, 0), va_mtime = (0, 0), va_ctime = (0, 0), va_rdev = 0, va_nblocks = 0, va_size = 0\<rparr>"

record stat =
  st_dev :: u64
  st_ino :: u64
  st_mode :: mode_t
  st_nlink :: u64
  st_uid :: u32
  st_gid :: u32
  st_rdev :: u64
  st_size :: int
  st_blksize :: int
  st_blocks :: int
  st_atim :: timespec
  st_mtim :: timespec
  st_ctim :: timespec

definition zero_stat :: stat where
  "zero_stat = \<lparr>st_dev = 0, st_ino = 0, st_mode = 0, st_nlink = 0, st_uid = 0, st_gid = 0, st_rdev = 0, st_size = 0, st_blksize = 0,
     st_blocks = 0, st_atim = (0, 0), st_mtim = (0, 0), st_ctim = (0, 0)\<rparr>"

section \<open>Access and status\<close>

definition vn_access :: "(mount_addr \<Rightarrow> u32) \<Rightarrow> vnode \<Rightarrow> u32 \<Rightarrow> errno" where
  "vn_access m_flags vp flags =
     (if flags AND VEXEC \<noteq> 0 \<and> v_mode vp AND 0x49 = 0 then EACCES
      else if flags AND VREAD \<noteq> 0 \<and> v_mode vp AND 0x124 = 0 then EACCES
      else if flags AND VWRITE \<noteq> 0 then
        (if m_flags (v_mount vp) AND MNT_RDONLY \<noteq> 0 then EROFS
         else if v_mode vp AND 0x92 = 0 then EACCES
         else SUCCESS)
      else SUCCESS)"

text \<open>The type bits that \<open>vn_stat\<close> adds; \<open>None\<close> is the default branch.\<close>

fun type_bits :: "vtype \<Rightarrow> mode_t option" where
  "type_bits VREG = Some S_IFREG"
| "type_bits VDIR = Some S_IFDIR"
| "type_bits VBLK = Some S_IFBLK"
| "type_bits VCHR = Some S_IFCHR"
| "type_bits VLNK = Some S_IFLNK"
| "type_bits VSOCK = Some S_IFSOCK"
| "type_bits VFIFO = Some S_IFIFO"
| "type_bits VNON = None"
| "type_bits VBAD = None"

text \<open>\<open>getattr\<close> is the operation of the file system of the vnode.\<close>

definition vn_stat :: "(vnode \<Rightarrow> vattr \<Rightarrow> errno \<times> vattr) \<Rightarrow> vnode \<Rightarrow> errno \<times> stat" where
  "vn_stat getattr vp =
     (let (error, vap) = getattr vp zero_vattr in
      if error \<noteq> SUCCESS then (error, zero_stat)
      else
        (let st = zero_stat\<lparr>st_ino := va_nodeid vap, st_size := va_size vap\<rparr> in
         case type_bits (v_type vp) of
           None \<Rightarrow> (EBADF, st)
         | Some bits \<Rightarrow>
             (SUCCESS, st\<lparr>st_mode := va_mode vap OR bits, st_nlink := va_nlink vap, st_blksize := BSIZE,
                st_blocks := va_size vap sdiv UK_S_BLKSIZE, st_uid := va_uid vap, st_gid := va_gid vap, st_dev := va_fsid vap,
                st_rdev := (if v_type vp = VCHR \<or> v_type vp = VBLK then va_rdev vap else 0),
                st_atim := va_atime vap, st_mtim := va_mtime vap, st_ctim := va_ctime vap\<rparr>)))"

section \<open>The table of active vnodes\<close>

record vstate =
  vnodes :: "vnode_addr \<Rightarrow> vnode option"
  vnode_table :: "u32 \<Rightarrow> vnode_addr list"
  next_vnode :: vnode_addr
  m_count :: "mount_addr \<Rightarrow> u32"

definition vfs_busy :: "mount_addr \<Rightarrow> vstate \<Rightarrow> vstate" where
  "vfs_busy mp s = s\<lparr>m_count := (m_count s)(mp := m_count s mp + 1)\<rparr>"

definition vfs_unbusy :: "mount_addr \<Rightarrow> vstate \<Rightarrow> vstate" where
  "vfs_unbusy mp s = s\<lparr>m_count := (m_count s)(mp := m_count s mp - 1)\<rparr>"

definition vn_hash :: "mount_addr \<Rightarrow> u64 \<Rightarrow> u32" where
  "vn_hash mp ino = ucast ((ino XOR mp) AND (ucast VNODE_BUCKETS - 1))"

definition vref :: "vnode_addr \<Rightarrow> vstate \<Rightarrow> vstate res" where
  "vref v s =
     (case vnodes s v of
       None \<Rightarrow> Inl NullDeref
     | Some vp \<Rightarrow> Inr (s\<lparr>vnodes := (vnodes s)(v \<mapsto> vp\<lparr>v_refcnt := v_refcnt vp + 1\<rparr>)\<rparr>))"

text \<open>
  \<open>vrele\<close> and \<open>vput\<close> differ in a debug message and in testing \<^verbatim>\<open>vop_inactive\<close> for null. The inactive operations of the
  file systems do nothing. Unlinking takes the vnode out of the list that it is on.
\<close>

definition vrele :: "vnode_addr \<Rightarrow> vstate \<Rightarrow> vstate res" where
  "vrele v s =
     (case vnodes s v of
       None \<Rightarrow> Inl NullDeref
     | Some vp \<Rightarrow>
         (let vp = vp\<lparr>v_refcnt := v_refcnt vp - 1\<rparr>;
              s = s\<lparr>vnodes := (vnodes s)(v \<mapsto> vp)\<rparr>
          in if sint (v_refcnt vp) > 0 then Inr s
             else
               (let s = s\<lparr>vnode_table := (\<lambda>b. remove1 v (vnode_table s b))\<rparr>;
                    s = vfs_unbusy (v_mount vp) s
                in Inr (s\<lparr>vnodes := (vnodes s)(v := None)\<rparr>))))"

definition vput :: "vnode_addr \<Rightarrow> vstate \<Rightarrow> vstate res" where
  "vput v s = vrele v s"

text \<open>The loop of \<open>vn_lookup\<close> over a bucket.\<close>

fun find_vnode :: "vstate \<Rightarrow> mount_addr \<Rightarrow> u64 \<Rightarrow> vnode_addr list \<Rightarrow> vnode_addr option res" where
  "find_vnode s mp ino [] = Inr None"
| "find_vnode s mp ino (v # vs) =
     (case vnodes s v of
       None \<Rightarrow> Inl NullDeref
     | Some vp \<Rightarrow> if v_mount vp = mp \<and> v_ino vp = ino then Inr (Some v) else find_vnode s mp ino vs)"

definition vn_lookup :: "mount_addr \<Rightarrow> u64 \<Rightarrow> vstate \<Rightarrow> (vnode_addr option \<times> vstate) res" where
  "vn_lookup mp ino s =
     rbind (find_vnode s mp ino (vnode_table s (vn_hash mp ino))) (\<lambda>r.
       case r of None \<Rightarrow> Inr (None, s) | Some v \<Rightarrow> rbind (vref v s) (\<lambda>s. Inr (Some v, s)))"

text \<open>
  \<open>calloc_ok\<close> is the success of the allocation and \<open>vget_error\<close> the result of the file system's \<^verbatim>\<open>vfs_vget\<close>. The result has the
  return value as a truth value, the address stored in \<^verbatim>\<open>vpp\<close>, and the state.
\<close>

definition vfscore_vget :: "bool \<Rightarrow> errno \<Rightarrow> mount_addr \<Rightarrow> u64 \<Rightarrow> vstate \<Rightarrow> (bool \<times> vnode_addr option \<times> vstate) res" where
  "vfscore_vget calloc_ok vget_error mp ino s =
     rbind (vn_lookup mp ino s) (\<lambda>(r, s).
       case r of
         Some v \<Rightarrow> Inr (True, Some v, s)
       | None \<Rightarrow>
           if \<not> calloc_ok then panic ''calloc failed''
           else
             (let v = next_vnode s;
                  vp = \<lparr>v_ino = ino, v_mount = mp, v_refcnt = 1, v_type = VNON, v_mode = 0, v_size = 0, v_data = None\<rparr>;
                  s = s\<lparr>vnodes := (vnodes s)(v \<mapsto> vp), next_vnode := v + 1\<rparr>
              in if vget_error \<noteq> SUCCESS then Inr (False, None, s\<lparr>vnodes := (vnodes s)(v := None)\<rparr>)
                 else
                   (let s = vfs_busy mp s;
                        s = s\<lparr>vnode_table := (vnode_table s)(vn_hash mp ino := v # vnode_table s (vn_hash mp ino))\<rparr>
                    in Inr (False, Some v, s))))"

definition vnode_init :: "vstate \<Rightarrow> vstate" where
  "vnode_init s = s\<lparr>vnode_table := (\<lambda>_. [])\<rparr>"

definition vfscore_vop_nullop :: errno where "vfscore_vop_nullop = SUCCESS"
definition vfscore_vop_einval :: errno where "vfscore_vop_einval = EINVAL"
definition vfscore_vop_eperm :: errno where "vfscore_vop_eperm = EPERM"
definition vfscore_vop_erofs :: errno where "vfscore_vop_erofs = EROFS"

section \<open>Invariant\<close>

text \<open>
  The vnodes on the buckets are the live ones, each on the bucket of its hash and once, with a positive reference count; no two have the same
  mount and inode; and the counter of a mount is the number of its vnodes, modulo \<open>2 ^ 32\<close>.
\<close>

definition live :: "vstate \<Rightarrow> vnode_addr set" where
  "live s = dom (vnodes s)"

definition has_key :: "vstate \<Rightarrow> vnode_addr \<Rightarrow> mount_addr \<Rightarrow> u64 \<Rightarrow> bool" where
  "has_key s v mp ino \<longleftrightarrow> (case vnodes s v of None \<Rightarrow> False | Some vp \<Rightarrow> v_mount vp = mp \<and> v_ino vp = ino)"

definition vc_inv :: "vstate \<Rightarrow> bool" where
  "vc_inv s \<longleftrightarrow>
     finite (live s) \<and> (\<forall>v \<in> live s. v < next_vnode s) \<and>
     (\<forall>b. distinct (vnode_table s b)) \<and>
     (\<forall>b v. v \<in> set (vnode_table s b) \<longleftrightarrow> (\<exists>mp ino. has_key s v mp ino \<and> vn_hash mp ino = b)) \<and>
     (\<forall>v vp. vnodes s v = Some vp \<longrightarrow> sint (v_refcnt vp) > 0) \<and>
     (\<forall>v w mp ino. has_key s v mp ino \<and> has_key s w mp ino \<longrightarrow> v = w) \<and>
     (\<forall>mp. m_count s mp = of_nat (card {v. \<exists>ino. has_key s v mp ino}))"

lemma vc_invD:
  assumes "vc_inv s"
  shows "finite (live s)" "\<And>v. v \<in> live s \<Longrightarrow> v < next_vnode s" "\<And>b. distinct (vnode_table s b)"
    "\<And>b v. v \<in> set (vnode_table s b) \<longleftrightarrow> (\<exists>mp ino. has_key s v mp ino \<and> vn_hash mp ino = b)"
    "\<And>v vp. vnodes s v = Some vp \<Longrightarrow> sint (v_refcnt vp) > 0"
    "\<And>v w mp ino. has_key s v mp ino \<Longrightarrow> has_key s w mp ino \<Longrightarrow> v = w"
    "\<And>mp. m_count s mp = of_nat (card {v. \<exists>ino. has_key s v mp ino})"
  using assms unfolding vc_inv_def by blast+

lemma vc_invI:
  assumes "finite (live s)" "\<And>v. v \<in> live s \<Longrightarrow> v < next_vnode s" "\<And>b. distinct (vnode_table s b)"
    "\<And>b v. v \<in> set (vnode_table s b) \<longleftrightarrow> (\<exists>mp ino. has_key s v mp ino \<and> vn_hash mp ino = b)"
    "\<And>v vp. vnodes s v = Some vp \<Longrightarrow> sint (v_refcnt vp) > 0"
    "\<And>v w mp ino. has_key s v mp ino \<Longrightarrow> has_key s w mp ino \<Longrightarrow> v = w"
    "\<And>mp. m_count s mp = of_nat (card {v. \<exists>ino. has_key s v mp ino})"
  shows "vc_inv s"
  using assms unfolding vc_inv_def by blast

lemma has_key_live: "has_key s v mp ino \<Longrightarrow> v \<in> live s"
  by (auto simp: has_key_def live_def split: option.splits)

lemma finite_keys: "vc_inv s \<Longrightarrow> finite {v. \<exists>ino. has_key s v mp ino}"
  by (rule finite_subset [OF _ vc_invD(1)]) (auto intro: has_key_live)

lemma find_vnode_spec:
  assumes "\<And>v. v \<in> set vs \<Longrightarrow> vnodes s v \<noteq> None"
  shows "\<exists>r. find_vnode s mp ino vs = Inr r \<and>
    (case r of None \<Rightarrow> \<forall>v \<in> set vs. \<not> has_key s v mp ino | Some v \<Rightarrow> v \<in> set vs \<and> has_key s v mp ino)"
  using assms
proof (induction vs)
  case (Cons v vs)
  then obtain vp where "vnodes s v = Some vp" by auto
  moreover obtain r where "find_vnode s mp ino vs = Inr r"
    "case r of None \<Rightarrow> \<forall>v \<in> set vs. \<not> has_key s v mp ino | Some v \<Rightarrow> v \<in> set vs \<and> has_key s v mp ino"
    using Cons by auto
  ultimately show ?case by (auto simp: has_key_def split: option.splits)
qed simp

lemma find_vnode_key:
  assumes "vc_inv s"
  obtains v where "find_vnode s mp ino (vnode_table s (vn_hash mp ino)) = Inr (Some v)" "has_key s v mp ino"
  | "find_vnode s mp ino (vnode_table s (vn_hash mp ino)) = Inr None" "\<And>v. \<not> has_key s v mp ino"
proof -
  note t = vc_invD(4) [OF assms]
  have "v \<in> set (vnode_table s (vn_hash mp ino)) \<Longrightarrow> vnodes s v \<noteq> None" for v using t has_key_live by (fastforce simp: live_def)
  then obtain r where r: "find_vnode s mp ino (vnode_table s (vn_hash mp ino)) = Inr r"
    "case r of None \<Rightarrow> \<forall>v \<in> set (vnode_table s (vn_hash mp ino)). \<not> has_key s v mp ino
      | Some v \<Rightarrow> v \<in> set (vnode_table s (vn_hash mp ino)) \<and> has_key s v mp ino"
    using find_vnode_spec by blast
  show thesis
  proof (cases r)
    case None
    have "\<not> has_key s v mp ino" for v using r(2) t [of v "vn_hash mp ino"] by (auto simp: None)
    then show thesis using that(2) r(1) None by simp
  qed (use that(1) r in simp)
qed

text \<open>Changing only the reference count of a live vnode, to a positive one, keeps the invariant.\<close>

lemma vc_inv_refcnt:
  assumes "vc_inv s" "vnodes s v = Some vp" "sint r > 0"
  shows "vc_inv (s\<lparr>vnodes := (vnodes s)(v \<mapsto> vp\<lparr>v_refcnt := r\<rparr>)\<rparr>)" (is "vc_inv ?s")
proof -
  note d = vc_invD [OF assms(1)]
  have k: "has_key ?s w mp ino = has_key s w mp ino" for w mp ino using assms(2) by (simp add: has_key_def)
  have l: "live ?s = live s" using assms(2) by (auto simp: live_def)
  show ?thesis
  proof (rule vc_invI, unfold k l)
    show "has_key s x mp ino \<Longrightarrow> has_key s w mp ino \<Longrightarrow> x = w" for x w mp ino by (rule d(6))
    show "vnodes ?s x = Some xp \<Longrightarrow> sint (v_refcnt xp) > 0" for x xp using d(5) assms(3) by (auto split: if_splits)
  qed (use d(1-4,7) assms(3) in \<open>simp_all split: if_splits\<close>)
qed

text \<open>Signed counters that do not reach the end of their range.\<close>

lemma sint_dec: "0 < sint r \<Longrightarrow> sint (r - 1) = sint r - 1" for r :: u32
proof -
  assume "0 < sint r"
  moreover have "sint r < 2 ^ 31" using sint_lt [of r] by simp
  ultimately show ?thesis by (simp add: sint_word_ariths signed_take_bit_int_eq_self)
qed

lemma sint_inc: "sint r < 2 ^ 31 - 1 \<Longrightarrow> sint (r + 1) = sint r + 1" for r :: u32
proof -
  assume "sint r < 2 ^ 31 - 1"
  moreover have "- (2 ^ 31) \<le> sint r" using sint_ge [of r] by simp
  ultimately show ?thesis by (simp add: sint_word_ariths signed_take_bit_int_eq_self)
qed

definition below_max :: "vstate \<Rightarrow> bool" where
  "below_max s \<longleftrightarrow> (\<forall>v vp. vnodes s v = Some vp \<longrightarrow> sint (v_refcnt vp) < 2 ^ 31 - 1)"

lemma vref_spec:
  assumes "vc_inv s" "below_max s" "vref v s = Inr t"
  shows "vc_inv t"
proof -
  obtain vp where vp: "vnodes s v = Some vp" "t = s\<lparr>vnodes := (vnodes s)(v \<mapsto> vp\<lparr>v_refcnt := v_refcnt vp + 1\<rparr>)\<rparr>"
    using assms(3) by (auto simp: vref_def split: option.splits)
  have "sint (v_refcnt vp + 1) = sint (v_refcnt vp) + 1" using assms(2) vp(1) by (intro sint_inc) (auto simp: below_max_def)
  then show ?thesis using vc_inv_refcnt [OF assms(1) vp(1)] vc_invD(5) [OF assms(1) vp(1)] vp(2) by simp
qed

lemma vrele_free_inv:
  assumes "vc_inv s" "vnodes s v = Some vp"
  shows "vc_inv (s\<lparr>vnode_table := (\<lambda>b. remove1 v (vnode_table s b)),
    m_count := (m_count s)(v_mount vp := m_count s (v_mount vp) - 1), vnodes := (vnodes s)(v := None)\<rparr>)" (is "vc_inv ?s")
proof (rule vc_invI)
  note d = vc_invD [OF assms(1)]
  have k: "has_key ?s w mp ino \<longleftrightarrow> w \<noteq> v \<and> has_key s w mp ino" for w mp ino by (simp add: has_key_def)
  have kv: "has_key s v mp ino \<longleftrightarrow> mp = v_mount vp \<and> ino = v_ino vp" for mp ino using assms(2) by (auto simp: has_key_def)
  show "w \<in> set (vnode_table ?s b) \<longleftrightarrow> (\<exists>mp ino. has_key ?s w mp ino \<and> vn_hash mp ino = b)" for b w
    using d(3) [of b] d(4) [of w b] by (auto simp: k set_remove1_eq)
  show "m_count ?s mp = of_nat (card {w. \<exists>ino. has_key ?s w mp ino})" for mp
  proof -
    let ?A = "{w. \<exists>ino. has_key s w mp ino}"
    have A: "{w. \<exists>ino. has_key ?s w mp ino} = ?A - {v}" by (auto simp: k)
    have f: "finite ?A" by (rule finite_keys [OF assms(1)])
    have v: "v \<in> ?A \<longleftrightarrow> mp = v_mount vp" using kv by blast
    have "v \<in> ?A \<Longrightarrow> 0 < card ?A" using f by (auto simp: card_gt_0_iff)
    then show ?thesis unfolding A using d(7) [of mp] f v by (cases "v \<in> ?A") (simp_all add: card_Diff_singleton of_nat_diff)
  qed
  show "has_key ?s x mp ino \<Longrightarrow> has_key ?s w mp ino \<Longrightarrow> x = w" for x w mp ino unfolding k using d(6) by blast
  show "finite (live ?s)" "x \<in> live ?s \<Longrightarrow> x < next_vnode ?s" "distinct (vnode_table ?s b)"
    "vnodes ?s x = Some xp \<Longrightarrow> sint (v_refcnt xp) > 0" for x xp b
    using d(1-3,5) by (auto simp: live_def split: if_splits)
qed

lemma vrele_spec:
  assumes "vc_inv s" "vnodes s v = Some vp"
  shows "\<exists>t. vrele v s = Inr t \<and> vc_inv t \<and> (\<forall>w. w \<noteq> v \<longrightarrow> vnodes t w = vnodes s w) \<and> next_vnode t = next_vnode s \<and>
    vnodes t v = (if sint (v_refcnt vp) > 1 then Some (vp\<lparr>v_refcnt := v_refcnt vp - 1\<rparr>) else None)"
proof -
  note dec = sint_dec [OF vc_invD(5) [OF assms]]
  show ?thesis
  proof (cases "sint (v_refcnt vp) > 1")
    case True
    then show ?thesis using vc_inv_refcnt [OF assms, of "v_refcnt vp - 1"] assms(2) by (simp add: vrele_def Let_def dec)
  next
    case False
    then show ?thesis using vrele_free_inv [OF assms] assms(2)
      by (simp add: vrele_def Let_def vfs_unbusy_def dec)
  qed
qed

lemma vget_new_inv:
  assumes "vc_inv s" "\<And>v. \<not> has_key s v mp ino"
  shows "vc_inv (s\<lparr>vnodes := (vnodes s)(next_vnode s \<mapsto> \<lparr>v_ino = ino, v_mount = mp, v_refcnt = 1, v_type = VNON, v_mode = 0, v_size = 0, v_data = None\<rparr>),
    next_vnode := next_vnode s + 1, m_count := (m_count s)(mp := m_count s mp + 1),
    vnode_table := (vnode_table s)(vn_hash mp ino := next_vnode s # vnode_table s (vn_hash mp ino))\<rparr>)" (is "vc_inv ?s")
proof (rule vc_invI)
  note d = vc_invD [OF assms(1)]
  define n where "n = next_vnode s"
  have fresh: "vnodes s n = None" using d(2) [of n] by (auto simp: live_def n_def)
  have kn: "\<not> has_key s n m i" for m i by (simp add: has_key_def fresh)
  have k: "has_key ?s w m i \<longleftrightarrow> (if w = n then m = mp \<and> i = ino else has_key s w m i)" for w m i by (auto simp: has_key_def n_def)
  show "w \<in> set (vnode_table ?s b) \<longleftrightarrow> (\<exists>mp ino. has_key ?s w mp ino \<and> vn_hash mp ino = b)" for b w
    unfolding k using d(4) [of w b] kn by (cases "w = n") (auto simp: n_def [symmetric])
  show "m_count ?s m = of_nat (card {w. \<exists>ino. has_key ?s w m ino})" for m
  proof -
    let ?A = "{w. \<exists>ino. has_key s w m ino}"
    have A: "{w. \<exists>ino. has_key ?s w m ino} = (if m = mp then insert n ?A else ?A)" unfolding k using kn by auto
    have f: "finite ?A" "n \<notin> ?A" using finite_keys [OF assms(1)] kn by auto
    show ?thesis unfolding A using d(7) [of m] card_insert_disjoint [OF f] by (cases "m = mp") simp_all
  qed
  show "distinct (vnode_table ?s b)" for b using d(3,4) kn by (auto simp: n_def [symmetric])
  show "has_key ?s x m i \<Longrightarrow> has_key ?s w m i \<Longrightarrow> x = w" for x w m i
    unfolding k using d(6) assms(2) by (auto split: if_splits)
  show "finite (live ?s)" "x \<in> live ?s \<Longrightarrow> x < next_vnode ?s" "vnodes ?s x = Some xp \<Longrightarrow> sint (v_refcnt xp) > 0" for x xp
    using d(1,2,5) by (auto simp: live_def less_Suc_eq split: if_splits)
qed

lemma vget_cases:
  assumes "vc_inv s" "vfscore_vget ok err mp ino s = Inr (found, r, t)"
  obtains (hit) v vp where "vnodes s v = Some vp" "v_mount vp = mp" "v_ino vp = ino" "found" "r = Some v"
      "vref v s = Inr t" "t = s\<lparr>vnodes := (vnodes s)(v \<mapsto> vp\<lparr>v_refcnt := v_refcnt vp + 1\<rparr>)\<rparr>"
  | (new) "\<And>v. \<not> has_key s v mp ino" "\<not> found" "err = SUCCESS" "r = Some (next_vnode s)"
      "t = s\<lparr>vnodes := (vnodes s)(next_vnode s \<mapsto> \<lparr>v_ino = ino, v_mount = mp, v_refcnt = 1, v_type = VNON, v_mode = 0, v_size = 0, v_data = None\<rparr>),
        next_vnode := next_vnode s + 1, m_count := (m_count s)(mp := m_count s mp + 1),
        vnode_table := (vnode_table s)(vn_hash mp ino := next_vnode s # vnode_table s (vn_hash mp ino))\<rparr>"
  | (failed) "\<And>v. \<not> has_key s v mp ino" "\<not> found" "err \<noteq> SUCCESS" "t = s\<lparr>vnodes := vnodes s, next_vnode := next_vnode s + 1\<rparr>"
proof (rule find_vnode_key [OF assms(1), of mp ino])
  fix v assume f: "find_vnode s mp ino (vnode_table s (vn_hash mp ino)) = Inr (Some v)" and "has_key s v mp ino"
  then obtain vp where vp: "vnodes s v = Some vp" "v_mount vp = mp" "v_ino vp = ino" by (auto simp: has_key_def split: option.splits)
  have ref: "vref v s = Inr (s\<lparr>vnodes := (vnodes s)(v \<mapsto> vp\<lparr>v_refcnt := v_refcnt vp + 1\<rparr>)\<rparr>)" by (simp add: vref_def vp)
  then show thesis using hit [OF vp] assms(2) f by (auto simp: vfscore_vget_def vn_lookup_def)
next
  assume f: "find_vnode s mp ino (vnode_table s (vn_hash mp ino)) = Inr None" and k: "\<And>v. \<not> has_key s v mp ino"
  have fresh: "vnodes s (next_vnode s) = None" using vc_invD(2) [OF assms(1), of "next_vnode s"] by (auto simp: live_def)
  show thesis
  proof (cases "err = SUCCESS")
    case True
    then show thesis using new [OF k] assms(2) f
      by (auto simp: vfscore_vget_def vn_lookup_def Let_def vfs_busy_def split: if_splits)
  next
    case False
    then show thesis using failed [OF k] assms(2) f fresh
      by (auto simp: vfscore_vget_def vn_lookup_def Let_def fun_upd_idem split: if_splits)
  qed
qed

lemma vfscore_vget_spec:
  assumes "vc_inv s" "vfscore_vget ok err mp ino s = Inr (found, r, t)"
  shows "below_max s \<Longrightarrow> vc_inv t" "found \<longleftrightarrow> (\<exists>v. has_key s v mp ino)" "found \<or> err = SUCCESS \<Longrightarrow> \<exists>v. r = Some v \<and> has_key t v mp ino"
    "\<And>v vp. vnodes s v = Some vp \<Longrightarrow> vnodes t v = Some (if has_key s v mp ino then vp\<lparr>v_refcnt := v_refcnt vp + 1\<rparr> else vp)"
    "\<not> found \<Longrightarrow> err = SUCCESS \<Longrightarrow> \<exists>v vp. r = Some v \<and> v \<notin> live s \<and> vnodes t v = Some vp \<and> v_refcnt vp = 1"
proof -
  have fresh: "vnodes s (next_vnode s) = None" "next_vnode s \<notin> live s"
    using vc_invD(2) [OF assms(1), of "next_vnode s"] by (auto simp: live_def)
  from assms have "(below_max s \<longrightarrow> vc_inv t) \<and> (found \<longleftrightarrow> (\<exists>v. has_key s v mp ino)) \<and>
    (found \<or> err = SUCCESS \<longrightarrow> (\<exists>v. r = Some v \<and> has_key t v mp ino)) \<and>
    (\<forall>v vp. vnodes s v = Some vp \<longrightarrow> vnodes t v = Some (if has_key s v mp ino then vp\<lparr>v_refcnt := v_refcnt vp + 1\<rparr> else vp)) \<and>
    (\<not> found \<and> err = SUCCESS \<longrightarrow> (\<exists>v vp. r = Some v \<and> v \<notin> live s \<and> vnodes t v = Some vp \<and> v_refcnt vp = 1))"
  proof (cases rule: vget_cases)
    case (hit v vp)
    have kv: "has_key s v mp ino" using hit(1-3) by (simp add: has_key_def)
    have u: "has_key s w mp ino \<longleftrightarrow> w = v" for w using vc_invD(6) [OF assms(1) _ kv] kv by blast
    have "has_key t v mp ino" using hit(1-3) by (simp add: hit(7) has_key_def)
    moreover have "vnodes t w = Some (if w = v then wp\<lparr>v_refcnt := v_refcnt wp + 1\<rparr> else wp)" if "vnodes s w = Some wp" for w wp
      using that hit(1) by (auto simp: hit(7))
    ultimately show ?thesis unfolding u using vref_spec [OF assms(1) _ hit(6)] hit(4,5) by blast
  next
    case new
    have "vc_inv t" unfolding new(5) by (rule vget_new_inv [OF assms(1) new(1)])
    moreover have "has_key t (next_vnode s) mp ino" by (simp add: new(5) has_key_def)
    moreover have "vnodes t v = Some vp" if "vnodes s v = Some vp" for v vp using that fresh by (auto simp: new(5))
    moreover have "\<exists>vp. vnodes t (next_vnode s) = Some vp \<and> v_refcnt vp = 1" by (simp add: new(5))
    ultimately show ?thesis using new(1-4) fresh(2) by auto
  next
    case failed
    have "vc_inv t" unfolding failed(4) using assms(1) by (auto simp: vc_inv_def live_def has_key_def less_Suc_eq)
    then show ?thesis using failed by auto
  qed
  then show "below_max s \<Longrightarrow> vc_inv t" "found \<longleftrightarrow> (\<exists>v. has_key s v mp ino)" "found \<or> err = SUCCESS \<Longrightarrow> \<exists>v. r = Some v \<and> has_key t v mp ino"
    "\<And>v vp. vnodes s v = Some vp \<Longrightarrow> vnodes t v = Some (if has_key s v mp ino then vp\<lparr>v_refcnt := v_refcnt vp + 1\<rparr> else vp)"
    "\<not> found \<Longrightarrow> err = SUCCESS \<Longrightarrow> \<exists>v vp. r = Some v \<and> v \<notin> live s \<and> vnodes t v = Some vp \<and> v_refcnt vp = 1"
    by blast+
qed

section \<open>Reachable states\<close>

text \<open>
  The states that the operations reach from the initialised table, with any results of the allocator and the file system; the number
  counts how often a reference was taken, by \<open>vfscore_vget\<close> or \<open>vref\<close>.
\<close>

inductive vreach :: "nat \<Rightarrow> vstate \<Rightarrow> bool" where
  init: "vnodes s = Map.empty \<Longrightarrow> m_count s = (\<lambda>_. 0) \<Longrightarrow> vreach 0 (vnode_init s)"
| vget: "vreach n s \<Longrightarrow> vfscore_vget ok err mp ino s = Inr (found, r, t) \<Longrightarrow> vreach (Suc n) t"
| vref: "vreach n s \<Longrightarrow> vref v s = Inr t \<Longrightarrow> vreach (Suc n) t"
| vput: "vreach n s \<Longrightarrow> vput v s = Inr t \<Longrightarrow> vreach n t"
| vrele: "vreach n s \<Longrightarrow> vrele v s = Inr t \<Longrightarrow> vreach n t"

text \<open>Neither the vnodes nor the references to one of them outnumber the references taken.\<close>

definition vc_bound :: "nat \<Rightarrow> vstate \<Rightarrow> bool" where
  "vc_bound n s \<longleftrightarrow> card (live s) \<le> n \<and> (\<forall>v vp. vnodes s v = Some vp \<longrightarrow> sint (v_refcnt vp) \<le> int n)"

lemma vc_bound_below: "vc_bound n s \<Longrightarrow> Suc n < 2 ^ 31 \<Longrightarrow> below_max s"
  unfolding vc_bound_def below_max_def by fastforce

lemma vc_bound_refcnt:
  assumes "vc_bound n s" "vnodes s v = Some vp" "sint r \<le> int m" "n \<le> m"
  shows "vc_bound m (s\<lparr>vnodes := (vnodes s)(v \<mapsto> vp\<lparr>v_refcnt := r\<rparr>)\<rparr>)"
proof -
  have "live (s\<lparr>vnodes := (vnodes s)(v \<mapsto> vp\<lparr>v_refcnt := r\<rparr>)\<rparr>) = live s" using assms(2) by (auto simp: live_def)
  moreover have "sint (v_refcnt xp) \<le> int m" if "vnodes s x = Some xp" for x xp
    using assms(1,4) that unfolding vc_bound_def by (meson of_nat_mono order_trans)
  ultimately show ?thesis using assms by (auto simp: vc_bound_def)
qed

lemma vref_bound:
  assumes "vc_bound n s" "Suc n < 2 ^ 31" "vref v s = Inr t"
  shows "vc_bound (Suc n) t"
proof -
  obtain vp where vp: "vnodes s v = Some vp" "t = s\<lparr>vnodes := (vnodes s)(v \<mapsto> vp\<lparr>v_refcnt := v_refcnt vp + 1\<rparr>)\<rparr>"
    using assms(3) by (auto simp: vref_def split: option.splits)
  have le: "sint (v_refcnt vp) \<le> int n" using assms(1) vp(1) by (auto simp: vc_bound_def)
  then have "sint (v_refcnt vp + 1) = sint (v_refcnt vp) + 1" using assms(2) by (intro sint_inc) simp
  then show ?thesis unfolding vp(2) using le by (intro vc_bound_refcnt [OF assms(1) vp(1)]) simp_all
qed

lemma vget_bound:
  assumes "vc_inv s" "vc_bound n s" "Suc n < 2 ^ 31" "vfscore_vget ok err mp ino s = Inr (found, r, t)"
  shows "vc_bound (Suc n) t"
  using assms(1,4)
proof (cases rule: vget_cases)
  case (hit v vp)
  show ?thesis by (rule vref_bound [OF assms(2,3) hit(6)])
next
  case new
  have "live t = insert (next_vnode s) (live s)" by (auto simp: new(5) live_def)
  then have "card (live t) \<le> Suc n" using assms(2) card_insert_le_m1 [of "Suc n" "live s"] by (simp add: vc_bound_def)
  then show ?thesis using assms(2) by (fastforce simp: vc_bound_def new(5) split: if_splits)
next
  case failed
  have "live t = live s" by (simp add: failed(4) live_def)
  then show ?thesis using assms(2) by (fastforce simp: vc_bound_def failed(4))
qed

lemma vrele_bound:
  assumes "vc_inv s" "vc_bound n s" "vrele v s = Inr t"
  shows "vc_inv t \<and> vc_bound n t"
proof -
  obtain vp where vp: "vnodes s v = Some vp" using assms(3) by (auto simp: vrele_def split: option.splits)
  from vrele_spec [OF assms(1) vp] assms(3) have
    t: "vc_inv t" "\<And>w. w \<noteq> v \<Longrightarrow> vnodes t w = vnodes s w"
      "vnodes t v = (if sint (v_refcnt vp) > 1 then Some (vp\<lparr>v_refcnt := v_refcnt vp - 1\<rparr>) else None)" by auto
  have "x \<in> live s" if "x \<in> live t" for x
    using that t(2) [of x] vp unfolding live_def by (metis domIff option.distinct(1))
  then have "card (live t) \<le> card (live s)" by (intro card_mono [OF vc_invD(1) [OF assms(1)]]) blast
  then have "card (live t) \<le> n" using assms(2) by (simp add: vc_bound_def)
  moreover have "sint (v_refcnt xp) \<le> int n" if "vnodes t x = Some xp" for x xp
  proof (cases "x = v")
    case True
    then have "xp = vp\<lparr>v_refcnt := v_refcnt vp - 1\<rparr>" using that t(3) by (auto split: if_splits)
    moreover have "sint (v_refcnt vp) \<le> int n" using assms(2) vp by (auto simp: vc_bound_def)
    ultimately show ?thesis using sint_dec [OF vc_invD(5) [OF assms(1) vp]] by simp
  next
    case False
    then show ?thesis using that t(2) [of x] assms(2) by (auto simp: vc_bound_def)
  qed
  ultimately show ?thesis using t(1) by (simp add: vc_bound_def)
qed

lemma vreach_inv: "vreach n s \<Longrightarrow> n < 2 ^ 31 \<Longrightarrow> vc_inv s \<and> vc_bound n s"
proof (induction rule: vreach.induct)
  case (init s)
  then show ?case by (simp add: vc_inv_def vc_bound_def vnode_init_def live_def has_key_def)
next
  case (vget n s ok err mp ino found r t)
  then have i: "vc_inv s" "vc_bound n s" by simp_all
  then show ?case using vget_bound [OF i vget.prems vget.hyps(2)] vfscore_vget_spec(1) [OF i(1) vget.hyps(2)] vc_bound_below [OF i(2) vget.prems] by blast
next
  case (vref n s v t)
  then have i: "vc_inv s" "vc_bound n s" by simp_all
  then show ?case using vref_bound [OF i(2) vref.prems vref.hyps(2)] vref_spec [OF i(1) _ vref.hyps(2)] vc_bound_below [OF i(2) vref.prems] by blast
next
  case (vput n s v t)
  then show ?case using vrele_bound [of s n v t] by (simp add: vput_def)
next
  case (vrele n s v t)
  then show ?case using vrele_bound by blast
qed

lemma m_count_exact:
  assumes "vc_inv s" "vc_bound n s" "n < 2 ^ 31"
  shows "sint (m_count s mp) = int (card {v. \<exists>ino. has_key s v mp ino})"
proof -
  have "card {v. \<exists>ino. has_key s v mp ino} \<le> card (live s)"
    by (rule card_mono [OF vc_invD(1) [OF assms(1)]]) (auto intro: has_key_live)
  then have "card {v. \<exists>ino. has_key s v mp ino} < 2 ^ 31" using assms(2,3) by (simp add: vc_bound_def)
  then show ?thesis unfolding vc_invD(7) [OF assms(1)] by (simp add: signed_of_nat signed_take_bit_int_eq_self)
qed

text \<open>\<open>k\<close> calls of \<open>vput\<close>.\<close>

fun vputs :: "nat \<Rightarrow> vnode_addr \<Rightarrow> vstate \<Rightarrow> vstate res" where
  "vputs 0 v s = Inr s"
| "vputs (Suc k) v s = rbind (vput v s) (vputs k v)"

lemma vputs_spec:
  assumes "vc_inv s" "vnodes s v = Some vp" "sint (v_refcnt vp) = int k"
  shows "\<exists>t. vputs k v s = Inr t \<and> vc_inv t \<and> vnodes t = (vnodes s)(v := None)"
  using assms
proof (induction k arbitrary: s vp)
  case 0
  then show ?case using vc_invD(5) [of s v vp] by simp
next
  case (Suc k)
  obtain t where t: "vrele v s = Inr t" "vc_inv t" "\<And>w. w \<noteq> v \<Longrightarrow> vnodes t w = vnodes s w"
    "vnodes t v = (if sint (v_refcnt vp) > 1 then Some (vp\<lparr>v_refcnt := v_refcnt vp - 1\<rparr>) else None)"
    using vrele_spec [OF Suc.prems(1,2)] by blast
  show ?case
  proof (cases "k = 0")
    case True
    then have "vnodes t = (vnodes s)(v := None)" using t(3,4) Suc.prems(3) by (auto simp: fun_eq_iff)
    then show ?thesis using t(1,2) True by (simp add: vput_def fun_upd_def)
  next
    case False
    then have v: "vnodes t v = Some (vp\<lparr>v_refcnt := v_refcnt vp - 1\<rparr>)" using t(4) Suc.prems(3) by simp
    have "sint (v_refcnt vp - 1) = int k" using sint_dec [of "v_refcnt vp"] Suc.prems(3) by simp
    moreover have "(vnodes t)(v := None) = (vnodes s)(v := None)" using t(3) by (auto simp: fun_eq_iff)
    ultimately show ?thesis using Suc.IH [OF t(2) v] t(1) by (simp add: vput_def)
  qed
qed

section \<open>Properties\<close>

text \<open>
  C9. As long as fewer than \<open>2 ^ 31\<close> references have been taken, so that no counter of type \<^verbatim>\<open>int\<close> can overflow, in every reachable state the hash
  table holds exactly the live vnodes, each once and on the bucket of its hash, with a positive reference count; no two vnodes stand
  for the same inode of a mount; the counter of a mount is its number of vnodes; and asking for an inode never meets a dangling pointer, finds the
  vnode if there is one, and otherwise makes one with reference count 1.
\<close>

theorem vnode_cache_invariant:
  assumes "vreach n s" "n < 2 ^ 31"
  shows "vc_inv s \<and> (\<forall>m. sint (m_count s m) = int (card {v. \<exists>i. has_key s v m i})) \<and>
    (\<exists>r. vfscore_vget True SUCCESS mp ino s = Inr r \<and>
       (case r of (found, vpp, t) \<Rightarrow> (found \<longleftrightarrow> (\<exists>v. has_key s v mp ino)) \<and>
          (\<exists>v vp. vpp = Some v \<and> vnodes t v = Some vp \<and> v_mount vp = mp \<and> v_ino vp = ino \<and> (\<not> found \<longrightarrow> v_refcnt vp = 1))))"
proof -
  have i: "vc_inv s" "vc_bound n s" using vreach_inv [OF assms] by simp_all
  have "\<exists>r. vfscore_vget True SUCCESS mp ino s = Inr r"
  proof (rule find_vnode_key [OF i(1), of mp ino])
    fix v assume f: "find_vnode s mp ino (vnode_table s (vn_hash mp ino)) = Inr (Some v)" and "has_key s v mp ino"
    then obtain vp where "vnodes s v = Some vp" by (auto simp: has_key_def split: option.splits)
    then show ?thesis by (auto simp: vfscore_vget_def vn_lookup_def vref_def f)
  qed (auto simp: vfscore_vget_def vn_lookup_def Let_def)
  then obtain found vpp t where r: "vfscore_vget True SUCCESS mp ino s = Inr (found, vpp, t)" by (metis prod_cases3)
  note g = vfscore_vget_spec [OF i(1) r]
  obtain v where v: "vpp = Some v" "has_key t v mp ino" using g(3) by blast
  then obtain vp where vp: "vnodes t v = Some vp" "v_mount vp = mp" "v_ino vp = ino" by (auto simp: has_key_def split: option.splits)
  have "v_refcnt vp = 1" if "\<not> found" using g(5) [OF that] v(1) vp(1) by auto
  then show ?thesis using i(1) m_count_exact [OF i assms(2)] r g(2) v(1) vp by auto
qed

definition empty_vstate :: vstate where
  "empty_vstate = \<lparr>vnodes = Map.empty, vnode_table = (\<lambda>_. []), next_vnode = 0, m_count = (\<lambda>_. 0)\<rparr>"

lemma empty_vreach: "vreach 0 empty_vstate"
  using vreach.init [of empty_vstate] by (simp add: empty_vstate_def vnode_init_def)

theorem vnode_cache_invariant_witness:
  "\<exists>s. vfscore_vget True SUCCESS 5 1 empty_vstate = Inr (False, Some 0, s) \<and> vc_inv s \<and>
     (\<exists>v t. vfscore_vget True SUCCESS 5 1 s = Inr (True, Some v, t))"
proof -
  obtain s where s: "vfscore_vget True SUCCESS 5 1 empty_vstate = Inr (False, Some 0, s)"
    "vnodes s = [0 \<mapsto> \<lparr>v_ino = 1, v_mount = 5, v_refcnt = 1, v_type = VNON, v_mode = 0, v_size = 0, v_data = None\<rparr>]"
    by (simp add: vfscore_vget_def vn_lookup_def empty_vstate_def Let_def vfs_busy_def)
  have k: "has_key s v 5 1 \<longleftrightarrow> v = 0" for v by (simp add: has_key_def s(2))
  from vnode_cache_invariant [OF vreach.vget [OF empty_vreach s(1)], of 5 1]
  have "vc_inv s" "\<exists>v t. vfscore_vget True SUCCESS 5 1 s = Inr (True, Some v, t)"
    by (auto simp: k split: prod.splits)
  then show ?thesis using s(1) by blast
qed

text \<open>
  C34. References are eventually given back: as long as fewer than \<open>2 ^ 31\<close> references have been taken, releasing a vnode of a reachable state as
  many times as its count says succeeds every time and ends in a state without it, in which all other vnodes are as before and the mount
  counters are right again.
\<close>

theorem vput_eventually_frees:
  assumes "vreach n s" "n < 2 ^ 31" "vnodes s v = Some vp"
  shows "\<exists>t. vputs (nat (sint (v_refcnt vp))) v s = Inr t \<and> vnodes t = (vnodes s)(v := None) \<and> vc_inv t"
proof -
  have i: "vc_inv s" using vreach_inv [OF assms(1,2)] by simp
  have "sint (v_refcnt vp) = int (nat (sint (v_refcnt vp)))" using vc_invD(5) [OF i assms(3)] by simp
  from vputs_spec [OF i assms(3) this] show ?thesis by blast
qed

theorem vput_eventually_frees_witness:
  "\<exists>s t. vfscore_vget True SUCCESS 5 1 empty_vstate = Inr (False, Some 0, s) \<and> vputs 1 0 s = Inr t \<and> vnodes t = Map.empty"
proof -
  obtain s where s: "vfscore_vget True SUCCESS 5 1 empty_vstate = Inr (False, Some 0, s)"
    "vnodes s = [0 \<mapsto> \<lparr>v_ino = 1, v_mount = 5, v_refcnt = 1, v_type = VNON, v_mode = 0, v_size = 0, v_data = None\<rparr>]"
    by (simp add: vfscore_vget_def vn_lookup_def empty_vstate_def Let_def vfs_busy_def)
  from vput_eventually_frees [OF vreach.vget [OF empty_vreach s(1)], of 0] show ?thesis
    using s by (auto simp: fun_upd_idem)
qed

end
