(* ===== verification/Ramfs.thy ===== *)
theory Ramfs
  imports Layout Vnode
begin

unbundle bit_operations_syntax

text \<open>
  The in-memory file system \<^verbatim>\<open>emod_vfs/ramfs/ramfs_vnops.c\<close>, with the scatter-gather copy of \<^verbatim>\<open>vfs/uio.h\<close>.

  Nodes live in a store from addresses to records with the pointers of the code (\<open>rn_next\<close>, \<open>rn_child\<close>); a freed or never allocated address
  holds nothing, and following it, or copying outside a buffer, is \<open>NullDeref\<close>. A walk along a list that would
  never end is \<open>Diverge\<close>: a walk visits at most as many nodes as were ever allocated, so that number is fuel enough. File buffers are byte
  lists of the allocated size and names are the bytes before the terminator. The \<open>k\<close>-th allocation succeeds when \<open>alloc_ok k\<close>, and memory that is
  not cleared holds \<open>alloc_junk k\<close>. \<^verbatim>\<open>off_t\<close> and \<^verbatim>\<open>ssize_t\<close> are integers with the conversions to 64 bits written out.

  The vnodes are those of theory \<open>Vnode\<close>; \<open>v_data\<close> is the address of the node.
\<close>

section \<open>Scatter-gather copies\<close>

datatype uio_dir = UIO_READ | UIO_WRITE

text \<open>\<open>iov_mem\<close> is the memory at \<^verbatim>\<open>iov_base\<close>, \<^verbatim>\<open>iov_len\<close> bytes; \<open>iov_done\<close> is the part of the buffer that the base has moved past.
  \<open>uio_past\<close> are the vectors that the pointer \<^verbatim>\<open>uio_iov\<close> has moved past.\<close>

record iovec =
  iov_done :: "u8 list"
  iov_mem :: "u8 list"

record uio =
  uio_past :: "iovec list"
  uio_iov :: "iovec list"
  uio_offset :: int
  uio_resid :: int
  uio_rw :: uio_dir

text \<open>The loop of \<open>vfscore_uioforeach\<close> with \<^verbatim>\<open>memcpy\<close>: \<open>cp\<close> is the memory at the pointer, and the result has it after the copy.\<close>

function vfscore_uioforeach :: "u8 list \<Rightarrow> nat \<Rightarrow> uio \<Rightarrow> (u8 list \<times> uio) res" where
  "vfscore_uioforeach cp n uio =
     (if n > 0 \<and> uio_resid uio \<noteq> 0 then
        (case uio_iov uio of
          [] \<Rightarrow> Inl NullDeref
        | iov # rest \<Rightarrow>
            if iov_mem iov = [] then vfscore_uioforeach cp n (uio\<lparr>uio_past := uio_past uio @ [iov], uio_iov := rest\<rparr>)
            else
              (let cnt = min (length (iov_mem iov)) n in
               if length cp < cnt then Inl NullDeref
               else
                 (let part = (if uio_rw uio = UIO_READ then take cnt cp else take cnt (iov_mem iov));
                      iov = iov\<lparr>iov_done := iov_done iov @ part, iov_mem := drop cnt (iov_mem iov)\<rparr>;
                      uio = uio\<lparr>uio_iov := iov # rest, uio_resid := uio_resid uio - int cnt, uio_offset := uio_offset uio + int cnt\<rparr>
                  in rbind (vfscore_uioforeach (drop cnt cp) (n - cnt) uio) (\<lambda>(cp, uio). Inr (part @ cp, uio)))))
      else Inr (cp, uio))"
  by pat_completeness auto
termination
  by (relation "measures [\<lambda>(cp, n, uio). n, \<lambda>(cp, n, uio). length (uio_iov uio)]") auto

declare vfscore_uioforeach.simps [simp del]

text \<open>The length is passed as an \<^verbatim>\<open>int\<close> and converted back.\<close>

definition vfscore_uiomove :: "u8 list \<Rightarrow> u64 \<Rightarrow> uio \<Rightarrow> (u8 list \<times> uio) res" where
  "vfscore_uiomove cp len uio = vfscore_uioforeach cp (unat (scast (ucast len :: u32) :: u64)) uio"

section \<open>Nodes\<close>

type_synonym node_addr = nat
type_synonym name = "u8 list"

record ramfs_node =
  rn_next :: "node_addr option"
  rn_child :: "node_addr option"
  rn_type :: vtype
  rn_name :: name
  rn_namelen :: u64
  rn_size :: u64
  rn_buf :: "u8 list option"
  rn_bufsize :: u64
  rn_ctime :: timespec
  rn_atime :: timespec
  rn_mtime :: timespec
  rn_mode :: mode_t
  rn_owns_buf :: bool

record fs =
  nodes :: "node_addr \<Rightarrow> ramfs_node option"
  next_node :: node_addr
  inode_count :: u64
  allocs :: nat
  alloc_ok :: "nat \<Rightarrow> bool"
  alloc_junk :: "nat \<Rightarrow> nat \<Rightarrow> u8"
  vns :: vstate

definition NAME_MAX :: u64 where "NAME_MAX = 255"
definition UK_ALLPERMS :: mode_t where "UK_ALLPERMS = 0xFFF"
definition IO_APPEND :: u32 where "IO_APPEND = 1"

definition get_node :: "fs \<Rightarrow> node_addr \<Rightarrow> ramfs_node res" where
  "get_node s a = (case nodes s a of None \<Rightarrow> Inl NullDeref | Some n \<Rightarrow> Inr n)"

definition set_node :: "node_addr \<Rightarrow> ramfs_node \<Rightarrow> fs \<Rightarrow> fs" where
  "set_node a n s = s\<lparr>nodes := (nodes s)(a \<mapsto> n)\<rparr>"

definition get_vnode :: "fs \<Rightarrow> vnode_addr \<Rightarrow> vnode res" where
  "get_vnode s v = (case vnodes (vns s) v of None \<Rightarrow> Inl NullDeref | Some vp \<Rightarrow> Inr vp)"

definition set_vnode :: "vnode_addr \<Rightarrow> vnode \<Rightarrow> fs \<Rightarrow> fs" where
  "set_vnode v vp s = s\<lparr>vns := (vns s)\<lparr>vnodes := (vnodes (vns s))(v \<mapsto> vp)\<rparr>\<rparr>"

text \<open>\<open>v_data\<close> of a vnode, which must not be null.\<close>

definition RAMFS_NODE :: "vnode \<Rightarrow> node_addr res" where
  "RAMFS_NODE vp = (case v_data vp of None \<Rightarrow> Inl NullDeref | Some a \<Rightarrow> Inr a)"

definition kmalloc :: "fs \<Rightarrow> (nat \<Rightarrow> u8) option \<times> fs" where
  "kmalloc s = (if alloc_ok s (allocs s) then Some (alloc_junk s (allocs s)) else None, s\<lparr>allocs := allocs s + 1\<rparr>)"

text \<open>\<open>set_times_to_now\<close> stores the constant time zero.\<close>

definition now :: timespec where "now = (0, 0)"

definition strlen :: "name \<Rightarrow> u64" where
  "strlen nm = of_nat (length nm)"

fun node_mode :: "vtype \<Rightarrow> mode_t" where
  "node_mode VDIR = S_IFDIR OR 0x1FF"
| "node_mode VLNK = S_IFLNK OR 0x1FF"
| "node_mode _ = S_IFREG OR 0x1FF"

definition ramfs_allocate_node :: "name \<Rightarrow> vtype \<Rightarrow> fs \<Rightarrow> node_addr option \<times> fs" where
  "ramfs_allocate_node nm type s =
     (case kmalloc s of
       (None, s) \<Rightarrow> (None, s)
     | (Some _, s) \<Rightarrow>
         (case kmalloc s of
           (None, s) \<Rightarrow> (None, s)
         | (Some _, s) \<Rightarrow>
             (let np = next_node s;
                  n = \<lparr>rn_next = None, rn_child = None, rn_type = type, rn_name = take (unat (strlen nm)) nm, rn_namelen = strlen nm,
                       rn_size = 0, rn_buf = None, rn_bufsize = 0, rn_ctime = now, rn_atime = now, rn_mtime = now,
                       rn_mode = node_mode type, rn_owns_buf = True\<rparr>
              in (Some np, (set_node np n s)\<lparr>next_node := np + 1\<rparr>))))"

definition ramfs_free_node :: "node_addr \<Rightarrow> fs \<Rightarrow> fs" where
  "ramfs_free_node np s = s\<lparr>nodes := (nodes s)(np := None)\<rparr>"

fun last_node :: "nat \<Rightarrow> fs \<Rightarrow> node_addr \<Rightarrow> node_addr res" where
  "last_node 0 s prev = Inl Diverge"
| "last_node (Suc k) s prev = rbind (get_node s prev) (\<lambda>n. case rn_next n of None \<Rightarrow> Inr prev | Some q \<Rightarrow> last_node k s q)"

definition touch_dir :: "node_addr \<Rightarrow> fs \<Rightarrow> fs res" where
  "touch_dir dnp s = rbind (get_node s dnp) (\<lambda>d. Inr (set_node dnp (d\<lparr>rn_mtime := now, rn_ctime := now\<rparr>) s))"

definition ramfs_add_node :: "node_addr \<Rightarrow> name \<Rightarrow> vtype \<Rightarrow> fs \<Rightarrow> (node_addr option \<times> fs) res" where
  "ramfs_add_node dnp nm type s =
     (case ramfs_allocate_node nm type s of
       (None, s) \<Rightarrow> Inr (None, s)
     | (Some np, s) \<Rightarrow>
         rbind (get_node s dnp) (\<lambda>d.
           rbind (case rn_child d of
                    None \<Rightarrow> Inr (set_node dnp (d\<lparr>rn_child := Some np\<rparr>) s)
                  | Some c \<Rightarrow>
                      rbind (last_node (next_node s) s c) (\<lambda>prev.
                        rbind (get_node s prev) (\<lambda>p. Inr (set_node prev (p\<lparr>rn_next := Some np\<rparr>) s))))
             (\<lambda>s. rbind (touch_dir dnp s) (\<lambda>s. Inr (Some np, s)))))"

text \<open>The loop that looks for the predecessor; \<open>None\<close> is the end of the list.\<close>

fun find_prev :: "nat \<Rightarrow> fs \<Rightarrow> node_addr \<Rightarrow> node_addr \<Rightarrow> node_addr option res" where
  "find_prev 0 s np prev = Inl Diverge"
| "find_prev (Suc k) s np prev =
     rbind (get_node s prev) (\<lambda>p.
       if rn_next p = Some np then Inr (Some prev)
       else case rn_next p of None \<Rightarrow> Inr None | Some q \<Rightarrow> find_prev k s np q)"

definition ramfs_remove_node :: "node_addr \<Rightarrow> node_addr \<Rightarrow> fs \<Rightarrow> (errno \<times> fs) res" where
  "ramfs_remove_node dnp np s =
     rbind (get_node s dnp) (\<lambda>d.
       case rn_child d of
         None \<Rightarrow> Inr (EBUSY, s)
       | Some c \<Rightarrow>
           rbind (if c = np then rbind (get_node s np) (\<lambda>n. Inr (Some (set_node dnp (d\<lparr>rn_child := rn_next n\<rparr>) s)))
                  else
                    rbind (find_prev (next_node s) s np c) (\<lambda>r.
                      case r of
                        None \<Rightarrow> Inr None
                      | Some prev \<Rightarrow>
                          rbind (get_node s prev) (\<lambda>p. rbind (get_node s np) (\<lambda>n. Inr (Some (set_node prev (p\<lparr>rn_next := rn_next n\<rparr>) s))))))
             (\<lambda>r. case r of
                None \<Rightarrow> Inr (ENOENT, s)
              | Some s \<Rightarrow> rbind (touch_dir dnp (ramfs_free_node np s)) (\<lambda>s. Inr (SUCCESS, s))))"

definition ramfs_rename_node :: "node_addr \<Rightarrow> name \<Rightarrow> fs \<Rightarrow> (errno \<times> fs) res" where
  "ramfs_rename_node np nm s =
     (let len = strlen nm in
      if len > NAME_MAX then Inr (ENAMETOOLONG, s)
      else
        rbind (get_node s np) (\<lambda>n.
          if len \<le> rn_namelen n then
            Inr (SUCCESS, set_node np (n\<lparr>rn_name := take (unat (rn_namelen n)) nm, rn_namelen := len, rn_ctime := now\<rparr>) s)
          else
            (case kmalloc s of
              (None, s) \<Rightarrow> Inr (ENOMEM, s)
            | (Some _, s) \<Rightarrow> Inr (SUCCESS, set_node np (n\<lparr>rn_name := take (unat len) nm, rn_namelen := len, rn_ctime := now\<rparr>) s))))"

section \<open>Vnode operations\<close>

fun find_child :: "nat \<Rightarrow> fs \<Rightarrow> name \<Rightarrow> node_addr option \<Rightarrow> node_addr option res" where
  "find_child k s nm None = Inr None"
| "find_child 0 s nm (Some np) = Inl Diverge"
| "find_child (Suc k) s nm (Some np) =
     rbind (get_node s np) (\<lambda>n.
       if rn_namelen n = strlen nm \<and> take (unat (strlen nm)) nm = take (unat (strlen nm)) (rn_name n) then Inr (Some np)
       else find_child k s nm (rn_next n))"

text \<open>The vnode layer of a mounted RAMFS never refuses a vnode, so \<open>vfscore_vget\<close> is used with the result \<open>SUCCESS\<close>.\<close>

definition ramfs_lookup :: "bool \<Rightarrow> vnode_addr \<Rightarrow> name \<Rightarrow> fs \<Rightarrow> (errno \<times> vnode_addr option \<times> fs) res" where
  "ramfs_lookup calloc_ok dvp nm s =
     (if nm = [] then Inr (ENOENT, None, s)
      else
        rbind (get_vnode s dvp) (\<lambda>dv. rbind (RAMFS_NODE dv) (\<lambda>dnp. rbind (get_node s dnp) (\<lambda>d.
          rbind (find_child (next_node s) s nm (rn_child d)) (\<lambda>r.
            case r of
              None \<Rightarrow> Inr (ENOENT, None, s)
            | Some np \<Rightarrow>
                rbind (vfscore_vget calloc_ok SUCCESS (v_mount dv) (inode_count s) (vns s)) (\<lambda>(found, vpp, vs).
                  let s = s\<lparr>inode_count := inode_count s + 1, vns := vs\<rparr> in
                  if found then Inr (SUCCESS, vpp, s)
                  else
                    (case vpp of
                      None \<Rightarrow> Inr (ENOMEM, None, s)
                    | Some v \<Rightarrow>
                        rbind (get_vnode s v) (\<lambda>vp. rbind (get_node s np) (\<lambda>n.
                          Inr (SUCCESS, Some v,
                            set_vnode v (vp\<lparr>v_data := Some np, v_mode := UK_ALLPERMS, v_type := rn_type n, v_size := sint (rn_size n)\<rparr>) s)))))))))) "

text \<open>The directory node of a vnode.\<close>

definition dir_of :: "vnode_addr \<Rightarrow> fs \<Rightarrow> node_addr res" where
  "dir_of dvp s = rbind (get_vnode s dvp) RAMFS_NODE"

definition ramfs_mkdir :: "vnode_addr \<Rightarrow> name \<Rightarrow> mode_t \<Rightarrow> fs \<Rightarrow> (errno \<times> fs) res" where
  "ramfs_mkdir dvp nm mode s =
     (if strlen nm > NAME_MAX then Inr (ENAMETOOLONG, s)
      else if \<not> S_ISDIR mode then Inr (EINVAL, s)
      else
        rbind (dir_of dvp s) (\<lambda>dnp. rbind (ramfs_add_node dnp nm VDIR s) (\<lambda>(r, s).
          case r of
            None \<Rightarrow> Inr (ENOMEM, s)
          | Some np \<Rightarrow> rbind (get_node s np) (\<lambda>n. Inr (SUCCESS, set_node np (n\<lparr>rn_size := 0\<rparr>) s)))))"

text \<open>The copy of the link target is the third allocation; a null copy is stored as it is.\<close>

definition ramfs_symlink :: "vnode_addr \<Rightarrow> name \<Rightarrow> name \<Rightarrow> fs \<Rightarrow> (errno \<times> fs) res" where
  "ramfs_symlink dvp nm link s =
     (if strlen nm > NAME_MAX then Inr (ENAMETOOLONG, s)
      else
        rbind (dir_of dvp s) (\<lambda>dnp. rbind (ramfs_add_node dnp nm VLNK s) (\<lambda>(r, s).
          case r of
            None \<Rightarrow> Inr (ENOMEM, s)
          | Some np \<Rightarrow>
              (case kmalloc s of
                (ok, s) \<Rightarrow>
                  rbind (get_node s np) (\<lambda>n.
                    Inr (SUCCESS, set_node np (n\<lparr>rn_buf := (if ok = None then None else Some (link @ [0])),
                      rn_bufsize := strlen link, rn_size := strlen link\<rparr>) s))))))"

definition buf_at :: "ramfs_node \<Rightarrow> int \<Rightarrow> u8 list" where
  "buf_at n off = (case rn_buf n of None \<Rightarrow> [] | Some b \<Rightarrow> drop (nat off) b)"

text \<open>The part that \<open>ramfs_readlink\<close> and \<open>ramfs_read\<close> share: the length left in the file and the copy.\<close>

definition copy_out :: "vnode \<Rightarrow> uio \<Rightarrow> fs \<Rightarrow> (errno \<times> uio \<times> fs) res" where
  "copy_out vp uio s =
     (if uio_offset uio < 0 then Inr (EINVAL, uio, s)
      else if uio_resid uio = 0 then Inr (SUCCESS, uio, s)
      else if uio_offset uio \<ge> v_size vp then Inr (SUCCESS, uio, s)
      else
        (let len = (if v_size vp - uio_offset uio < uio_resid uio then v_size vp - uio_offset uio else uio_resid uio) in
         rbind (RAMFS_NODE vp) (\<lambda>np. rbind (get_node s np) (\<lambda>n.
           let s = set_node np (n\<lparr>rn_atime := now\<rparr>) s in
           rbind (vfscore_uiomove (buf_at n (uio_offset uio)) (word_of_int len) uio) (\<lambda>(_, uio). Inr (SUCCESS, uio, s))))))"

definition ramfs_readlink :: "vnode_addr \<Rightarrow> uio \<Rightarrow> fs \<Rightarrow> (errno \<times> uio \<times> fs) res" where
  "ramfs_readlink v uio s =
     rbind (get_vnode s v) (\<lambda>vp. if v_type vp \<noteq> VLNK then Inr (EINVAL, uio, s) else copy_out vp uio s)"

definition ramfs_read :: "vnode_addr \<Rightarrow> uio \<Rightarrow> fs \<Rightarrow> (errno \<times> uio \<times> fs) res" where
  "ramfs_read v uio s =
     rbind (get_vnode s v) (\<lambda>vp.
       if v_type vp = VDIR then Inr (EISDIR, uio, s)
       else if v_type vp \<noteq> VREG then Inr (EINVAL, uio, s)
       else copy_out vp uio s)"

definition ramfs_remove :: "vnode_addr \<Rightarrow> vnode_addr \<Rightarrow> fs \<Rightarrow> (errno \<times> fs) res" where
  "ramfs_remove dvp v s = rbind (dir_of dvp s) (\<lambda>dnp. rbind (dir_of v s) (\<lambda>np. ramfs_remove_node dnp np s))"

definition ramfs_rmdir :: "vnode_addr \<Rightarrow> vnode_addr \<Rightarrow> fs \<Rightarrow> (errno \<times> fs) res" where
  "ramfs_rmdir dvp v s = rbind (dir_of dvp s) (\<lambda>dnp. rbind (dir_of v s) (\<lambda>np. ramfs_remove_node dnp np s))"

text \<open>\<^verbatim>\<open>memcpy(new_buf, np->rn_buf, vp->v_size)\<close> into a new buffer.\<close>

definition copy_buf :: "ramfs_node \<Rightarrow> int \<Rightarrow> u8 list \<Rightarrow> u8 list res" where
  "copy_buf n sz new =
     (let old = (case rn_buf n of None \<Rightarrow> [] | Some b \<Rightarrow> b); k = unat (word_of_int sz :: u64) in
      if rn_size n \<noteq> 0 then
        (if length old < k \<or> length new < k then Inl NullDeref else Inr (take k old @ drop k new))
      else Inr new)"

definition ramfs_truncate :: "vnode_addr \<Rightarrow> int \<Rightarrow> fs \<Rightarrow> (errno \<times> fs) res" where
  "ramfs_truncate v length' s =
     rbind (get_vnode s v) (\<lambda>vp. rbind (RAMFS_NODE vp) (\<lambda>np. rbind (get_node s np) (\<lambda>n.
       let finish = (\<lambda>n s. Inr (SUCCESS,
             set_vnode v (vp\<lparr>v_size := length'\<rparr>) (set_node np (n\<lparr>rn_size := word_of_int length', rn_mtime := now, rn_ctime := now\<rparr>) s))) in
       if length' = 0 then
         (if rn_buf n \<noteq> None then finish (n\<lparr>rn_buf := None, rn_bufsize := 0\<rparr>) s else finish n s)
       else if word_of_int length' > rn_bufsize n then
         (let new_size = PARTITION_UP (word_of_int length') + 2 * PARTITION_SIZE in
          case kmalloc s of
            (None, s) \<Rightarrow> Inr (EIO, s)
          | (Some junk, s) \<Rightarrow>
              rbind (copy_buf n (v_size vp) (map junk [0..<unat new_size])) (\<lambda>b.
                finish (n\<lparr>rn_buf := Some b, rn_bufsize := new_size, rn_owns_buf := True\<rparr>) s))
       else finish n s)))"

definition ramfs_create :: "vnode_addr \<Rightarrow> name \<Rightarrow> mode_t \<Rightarrow> fs \<Rightarrow> (errno \<times> fs) res" where
  "ramfs_create dvp nm mode s =
     (if strlen nm > NAME_MAX then Inr (ENAMETOOLONG, s)
      else if \<not> S_ISREG mode then Inr (EINVAL, s)
      else
        rbind (dir_of dvp s) (\<lambda>dnp. rbind (ramfs_add_node dnp nm VREG s) (\<lambda>(r, s).
          case r of None \<Rightarrow> Inr (ENOMEM, s) | Some np \<Rightarrow> Inr (SUCCESS, s))))"

definition ramfs_set_file_data :: "vnode_addr \<Rightarrow> u8 list \<Rightarrow> fs \<Rightarrow> (errno \<times> fs) res" where
  "ramfs_set_file_data v data s =
     rbind (get_vnode s v) (\<lambda>vp. rbind (RAMFS_NODE vp) (\<lambda>np.
       if v_type vp = VDIR then Inr (EISDIR, s)
       else if v_type vp \<noteq> VREG then Inr (EINVAL, s)
       else
         rbind (get_node s np) (\<lambda>n.
           if rn_buf n \<noteq> None then Inr (EINVAL, s)
           else
             (let sz = of_nat (length data) in
              Inr (SUCCESS, set_vnode v (vp\<lparr>v_size := sint (sz :: u64)\<rparr>)
                (set_node np (n\<lparr>rn_buf := Some data, rn_bufsize := sz, rn_size := sz, rn_owns_buf := False\<rparr>) s))))))"

text \<open>The growth of the buffer in \<open>ramfs_write\<close>: \<open>None\<close> when the allocation fails.\<close>

definition grow_buf :: "vnode \<Rightarrow> int \<Rightarrow> ramfs_node \<Rightarrow> fs \<Rightarrow> (ramfs_node option \<times> fs) res" where
  "grow_buf vp end_pos n s =
     (if end_pos > sint (rn_bufsize n) then
        (let new_size = (if rn_bufsize n \<noteq> 0 then PARTITION_UP (word_of_int end_pos) + 100 * PARTITION_SIZE
                         else PAGE_UP (word_of_int end_pos)) in
         case kmalloc s of
           (None, s) \<Rightarrow> Inr (None, s)
         | (Some _, s) \<Rightarrow>
             rbind (copy_buf n (v_size vp) (replicate (unat new_size) 0)) (\<lambda>b.
               Inr (Some (n\<lparr>rn_buf := Some b, rn_bufsize := new_size\<rparr>), s)))
      else Inr (Some n, s))"

text \<open>The end of \<open>ramfs_write\<close>: the times and the copy into the buffer.\<close>

definition copy_in :: "node_addr \<Rightarrow> uio \<Rightarrow> ramfs_node \<Rightarrow> fs \<Rightarrow> (errno \<times> uio \<times> fs) res" where
  "copy_in np uio n s =
     rbind (vfscore_uiomove (buf_at n (uio_offset uio)) (word_of_int (uio_resid uio)) uio) (\<lambda>(cp, uio').
       Inr (SUCCESS, uio', set_node np (n\<lparr>rn_buf := map_option (\<lambda>b. take (nat (uio_offset uio)) b @ cp) (rn_buf n),
         rn_mtime := now, rn_ctime := now\<rparr>) s))"

definition ramfs_write :: "vnode_addr \<Rightarrow> uio \<Rightarrow> u32 \<Rightarrow> fs \<Rightarrow> (errno \<times> uio \<times> fs) res" where
  "ramfs_write v uio ioflag s =
     rbind (get_vnode s v) (\<lambda>vp.
       if v_type vp = VDIR then Inr (EISDIR, uio, s)
       else if v_type vp \<noteq> VREG then Inr (EINVAL, uio, s)
       else if uio_offset uio < 0 then Inr (EINVAL, uio, s)
       else if uio_offset uio \<ge> 2 ^ 63 - 1 then Inr (EFBIG, uio, s)
       else if uio_resid uio = 0 then Inr (SUCCESS, uio, s)
       else
         rbind (RAMFS_NODE vp) (\<lambda>np. rbind (get_node s np) (\<lambda>n.
           let uio = (if ioflag AND IO_APPEND \<noteq> 0 then uio\<lparr>uio_offset := sint (rn_size n)\<rparr> else uio) in
           if (word_of_int (uio_offset uio) + word_of_int (uio_resid uio) :: u64) > word_of_int (v_size vp) then
             (let end_pos = sint (word_of_int (uio_offset uio + uio_resid uio) :: u64) in
              rbind (grow_buf vp end_pos n s) (\<lambda>(r, s).
                case r of
                  None \<Rightarrow> Inr (EIO, uio, s)
                | Some n \<Rightarrow> copy_in np uio (n\<lparr>rn_size := word_of_int end_pos, rn_owns_buf := True\<rparr>) (set_vnode v (vp\<lparr>v_size := end_pos\<rparr>) s)))
           else copy_in np uio n s)))"

text \<open>The source file is removed last, and the result of that is ignored.\<close>

definition ramfs_rename :: "vnode_addr \<Rightarrow> vnode_addr \<Rightarrow> vnode_addr \<Rightarrow> vnode_addr option \<Rightarrow> name \<Rightarrow> fs \<Rightarrow> (errno \<times> fs) res" where
  "ramfs_rename dvp1 v1 dvp2 v2 name2 s =
     rbind (case v2 of None \<Rightarrow> Inr (SUCCESS, s) | Some v2 \<Rightarrow> ramfs_remove dvp2 v2 s) (\<lambda>(error, s).
       if error \<noteq> SUCCESS then Inr (error, s)
       else if dvp1 = dvp2 then rbind (dir_of v1 s) (\<lambda>np. ramfs_rename_node np name2 s)
       else
         rbind (dir_of v1 s) (\<lambda>old_np. rbind (get_node s old_np) (\<lambda>old.
           rbind (dir_of dvp2 s) (\<lambda>dnp2. rbind (ramfs_add_node dnp2 name2 (rn_type old) s) (\<lambda>(r, s).
             case r of
               None \<Rightarrow> Inr (ENOMEM, s)
             | Some np \<Rightarrow>
                 rbind (get_node s np) (\<lambda>n. rbind (get_node s old_np) (\<lambda>old.
                   let s = (if rn_buf old \<noteq> None
                            then set_node old_np (old\<lparr>rn_buf := None\<rparr>)
                              (set_node np (n\<lparr>rn_buf := rn_buf old, rn_size := rn_size old, rn_bufsize := rn_bufsize old\<rparr>) s)
                            else s)
                   in rbind (dir_of dvp1 s) (\<lambda>dnp1. rbind (ramfs_remove_node dnp1 old_np s) (\<lambda>(_, s). Inr (SUCCESS, s))))))))))"

datatype d_type = DT_DIR | DT_LNK | DT_REG

record dirent =
  d_fileno :: int
  d_type :: d_type
  d_name :: name

text \<open>
  The loop of \<open>ramfs_readdir\<close>: along the list until the 32-bit counter \<open>i\<close>, read as a signed number, is \<open>goal\<close>; \<open>None\<close> when the list ends before.
\<close>

fun dir_nth :: "nat \<Rightarrow> fs \<Rightarrow> u32 \<Rightarrow> int \<Rightarrow> node_addr \<Rightarrow> node_addr option res" where
  "dir_nth 0 s i goal np = Inl Diverge"
| "dir_nth (Suc k) s i goal np =
     (if sint i = goal then Inr (Some np)
      else rbind (get_node s np) (\<lambda>n. case rn_next n of None \<Rightarrow> Inr None | Some q \<Rightarrow> dir_nth k s (i + 1) goal q))"

fun dirent_type :: "vtype \<Rightarrow> d_type" where
  "dirent_type VDIR = DT_DIR"
| "dirent_type VLNK = DT_LNK"
| "dirent_type _ = DT_REG"

text \<open>The result has the entry, if any, and the new file offset.\<close>

definition ramfs_readdir :: "vnode_addr \<Rightarrow> int \<Rightarrow> fs \<Rightarrow> (errno \<times> dirent option \<times> int \<times> fs) res" where
  "ramfs_readdir v f_offset s =
     rbind (dir_of v s) (\<lambda>dnp. rbind (get_node s dnp) (\<lambda>d.
       let s = set_node dnp (d\<lparr>rn_atime := now\<rparr>) s;
           entry = (\<lambda>ty nm. Inr (SUCCESS, Some \<lparr>d_fileno = f_offset, d_type = ty, d_name = take 255 nm\<rparr>, f_offset + 1, s))
       in if f_offset = 0 then entry DT_DIR [46]
          else if f_offset = 1 then entry DT_DIR [46, 46]
          else
            (case rn_child d of
              None \<Rightarrow> Inr (ENOENT, None, f_offset, s)
            | Some c \<Rightarrow>
                rbind (dir_nth (next_node s) s 0 (f_offset - 2) c) (\<lambda>r.
                  case r of
                    None \<Rightarrow> Inr (ENOENT, None, f_offset, s)
                  | Some np \<Rightarrow> rbind (get_node s np) (\<lambda>n. entry (dirent_type (rn_type n)) (rn_name n))))))"

definition ramfs_getattr :: "fs \<Rightarrow> vnode \<Rightarrow> vattr \<Rightarrow> (errno \<times> vattr) res" where
  "ramfs_getattr s vp attr =
     rbind (RAMFS_NODE vp) (\<lambda>np. rbind (get_node s np) (\<lambda>n.
       Inr (SUCCESS, attr\<lparr>va_nodeid := v_ino vp, va_size := v_size vp, va_type := rn_type n, va_atime := rn_atime n, va_ctime := rn_ctime n,
         va_mtime := rn_mtime n, va_mode := rn_mode n\<rparr>)))"

definition AT_MODE :: u32 where "AT_MODE = 0x2"
definition AT_ATIME :: u32 where "AT_ATIME = 0x100"
definition AT_MTIME :: u32 where "AT_MTIME = 0x200"
definition AT_CTIME :: u32 where "AT_CTIME = 0x400"

definition ramfs_setattr :: "vnode \<Rightarrow> vattr \<Rightarrow> fs \<Rightarrow> (errno \<times> fs) res" where
  "ramfs_setattr vp attr s =
     rbind (RAMFS_NODE vp) (\<lambda>np. rbind (get_node s np) (\<lambda>n.
       let n = (if va_mask attr AND AT_ATIME \<noteq> 0 then n\<lparr>rn_atime := va_atime attr\<rparr> else n);
           n = (if va_mask attr AND AT_CTIME \<noteq> 0 then n\<lparr>rn_ctime := va_ctime attr\<rparr> else n);
           n = (if va_mask attr AND AT_MTIME \<noteq> 0 then n\<lparr>rn_mtime := va_mtime attr\<rparr> else n);
           n = (if va_mask attr AND AT_MODE \<noteq> 0 then n\<lparr>rn_mode := va_mode attr\<rparr> else n)
       in Inr (SUCCESS, set_node np n s)))"

text \<open>The root directory that \<open>ramfs_mount\<close> makes, for the vnode \<open>v\<close> of the mount point.\<close>

definition ramfs_mount :: "vnode_addr \<Rightarrow> fs \<Rightarrow> (errno \<times> fs) res" where
  "ramfs_mount v s =
     (case ramfs_allocate_node [47] VDIR s of
       (None, s) \<Rightarrow> Inr (ENOMEM, s)
     | (Some np, s) \<Rightarrow> rbind (get_vnode s v) (\<lambda>vp. Inr (SUCCESS, set_vnode v (vp\<lparr>v_data := Some np\<rparr>) s)))"

section \<open>Directory lists\<close>

text \<open>\<open>dirl s p as\<close>: following \<open>rn_next\<close> from \<open>p\<close> passes the nodes \<open>as\<close> and ends.\<close>

fun dirl :: "fs \<Rightarrow> node_addr option \<Rightarrow> node_addr list \<Rightarrow> bool" where
  "dirl s p [] \<longleftrightarrow> p = None"
| "dirl s p (a # as) \<longleftrightarrow> p = Some a \<and> (case nodes s a of None \<Rightarrow> False | Some n \<Rightarrow> dirl s (rn_next n) as)"

lemma dirl_unique: "dirl s p as \<Longrightarrow> dirl s p bs \<Longrightarrow> as = bs"
proof (induction "as" arbitrary: p bs)
  case Nil
  then show ?case by (cases bs) auto
next
  case (Cons a "as")
  then show ?case by (cases bs) (auto split: option.splits)
qed

lemma dirl_split: "dirl s p (as @ b # bs) \<Longrightarrow> dirl s (Some b) (b # bs)"
proof (induction "as" arbitrary: p)
  case (Cons a "as")
  then obtain n where "nodes s a = Some n" "dirl s (rn_next n) (as @ b # bs)" by (auto split: option.splits)
  then show ?case using Cons.IH by blast
qed simp

lemma dirl_distinct: "dirl s p as \<Longrightarrow> distinct as"
proof (induction "as" arbitrary: p)
  case (Cons a "as")
  then obtain n where n: "nodes s a = Some n" "dirl s (rn_next n) as" by (auto split: option.splits)
  have "a \<notin> set as"
  proof
    assume "a \<in> set as"
    then obtain xs ys where "as = xs @ a # ys" by (meson split_list)
    then have "dirl s (Some a) (a # ys)" using n(2) dirl_split by blast
    then have "dirl s (rn_next n) ys" using n(1) by simp
    then have "as = ys" using n(2) dirl_unique by blast
    then show False using \<open>as = xs @ a # ys\<close> by (metis length_append length_Cons add_Suc_right not_add_less2 lessI)
  qed
  then show ?case using Cons.IH [OF n(2)] by simp
qed simp

lemma dirl_in: "dirl s p as \<Longrightarrow> a \<in> set as \<Longrightarrow> \<exists>n. nodes s a = Some n"
  by (induction "as" arbitrary: p) (auto split: option.splits)

text \<open>A list stays when its nodes keep their successors.\<close>

definition same_next :: "fs \<Rightarrow> fs \<Rightarrow> node_addr \<Rightarrow> bool" where
  "same_next s t a \<longleftrightarrow> map_option rn_next (nodes t a) = map_option rn_next (nodes s a)"

lemma dirl_cong: "(\<And>a. a \<in> set as \<Longrightarrow> same_next s t a) \<Longrightarrow> dirl s p as \<Longrightarrow> dirl t p as"
proof (induction "as" arbitrary: p)
  case (Cons a "as")
  then obtain n where n: "nodes s a = Some n" "dirl s (rn_next n) as" "p = Some a" by (auto split: option.splits)
  moreover obtain n' where "nodes t a = Some n'" "rn_next n' = rn_next n" using Cons.prems(1) [of a] n(1) by (auto simp: same_next_def)
  ultimately show ?case using Cons by auto
qed simp

lemma dirl_snoc:
  assumes "dirl s p (as @ [a])" "nodes s a = Some n" "nodes t a = Some (n\<lparr>rn_next := Some b\<rparr>)" "nodes t b = Some m" "rn_next m = None"
    "\<And>x. x \<in> set as \<Longrightarrow> same_next s t x"
  shows "dirl t p (as @ [a, b])"
  using assms
proof (induction "as" arbitrary: p)
  case (Cons x xs)
  then obtain k where k: "nodes s x = Some k" "dirl s (rn_next k) (xs @ [a])" "p = Some x" by (auto split: option.splits)
  moreover obtain k' where "nodes t x = Some k'" "rn_next k' = rn_next k" using Cons.prems(6) [of x] k(1) by (auto simp: same_next_def)
  ultimately show ?case using Cons by auto
qed auto

lemma dirl_cut:
  assumes "dirl s p (xs @ a # b # ys)" "nodes s a = Some n" "nodes s b = Some m" "nodes t a = Some (n\<lparr>rn_next := rn_next m\<rparr>)"
    "\<And>x. x \<in> set xs \<union> set ys \<Longrightarrow> same_next s t x"
  shows "dirl t p (xs @ a # ys)"
  using assms
proof (induction xs arbitrary: p)
  case Nil
  then have "dirl s (rn_next m) ys" "p = Some a" by (auto split: option.splits)
  moreover have "dirl t (rn_next m) ys" using dirl_cong [of ys s t] calculation Nil.prems(5) by simp
  ultimately show ?case using Nil by simp
next
  case (Cons x xs)
  then obtain k where k: "nodes s x = Some k" "dirl s (rn_next k) (xs @ a # b # ys)" "p = Some x" by (auto split: option.splits)
  moreover obtain k' where "nodes t x = Some k'" "rn_next k' = rn_next k" using Cons.prems(5) [of x] k(1) by (auto simp: same_next_def)
  ultimately show ?case using Cons by auto
qed

section \<open>Walks\<close>

definition node_name :: "fs \<Rightarrow> node_addr \<Rightarrow> name" where
  "node_name s a = (case nodes s a of None \<Rightarrow> [] | Some n \<Rightarrow> rn_name n)"

lemma last_node_spec: "dirl s (Some c) (c # as) \<Longrightarrow> length (c # as) \<le> k \<Longrightarrow> last_node k s c = Inr (last (c # as))"
proof (induction k arbitrary: c "as")
  case (Suc k)
  then obtain n where n: "nodes s c = Some n" "dirl s (rn_next n) as" by (auto split: option.splits)
  then show ?case using Suc by (cases "as") (auto simp: get_node_def split: option.splits)
qed simp

lemma find_prev_spec:
  assumes "dirl s (Some c) (c # as)" "length (c # as) \<le> k" "np \<noteq> c"
  shows "find_prev k s np c = Inr None \<and> np \<notin> set as \<or>
    (\<exists>xs p ys. c # as = xs @ p # np # ys \<and> find_prev k s np c = Inr (Some p))"
  using assms
proof (induction k arbitrary: c "as")
  case (Suc k)
  then obtain n where n: "nodes s c = Some n" "dirl s (rn_next n) as" by (auto split: option.splits)
  show ?case
  proof (cases "as")
    case Nil
    then show ?thesis using n by (simp add: get_node_def)
  next
    case (Cons b bs)
    then have nb: "rn_next n = Some b" using n(2) by simp
    show ?thesis
    proof (cases "b = np")
      case True
      then have "c # as = [] @ c # np # bs" "find_prev (Suc k) s np c = Inr (Some c)" using n(1) nb Cons by (simp_all add: get_node_def)
      then show ?thesis by blast
    next
      case False
      have "find_prev k s np b = Inr None \<and> np \<notin> set bs \<or> (\<exists>xs p ys. b # bs = xs @ p # np # ys \<and> find_prev k s np b = Inr (Some p))"
        using Suc.IH [of b bs] n(2) nb Cons Suc.prems(2) False by auto
      moreover have "find_prev (Suc k) s np c = find_prev k s np b" using False nb n(1) by (simp add: get_node_def)
      ultimately show ?thesis using False Cons by (metis append_Cons set_ConsD)
    qed
  qed
qed simp

lemma find_child_spec:
  assumes "dirl s p as" "length as \<le> k" "length nm < 2 ^ 64"
    "\<And>a n. a \<in> set as \<Longrightarrow> nodes s a = Some n \<Longrightarrow> unat (rn_namelen n) = length (rn_name n)"
  shows "find_child k s nm p = Inr (find (\<lambda>a. node_name s a = nm) as)"
  using assms
proof (induction "as" arbitrary: k p)
  case (Cons a "as")
  then obtain n j where n: "nodes s a = Some n" "dirl s (rn_next n) as" "p = Some a" "k = Suc j" by (cases k) (auto split: option.splits)
  have l: "unat (strlen nm) = length nm" using Cons.prems(3) by (simp add: strlen_def unsigned_of_nat take_bit_nat_eq_self)
  have nl: "unat (rn_namelen n) = length (rn_name n)" using Cons.prems(4) [of a n] n(1) by simp
  have "rn_namelen n = strlen nm \<longleftrightarrow> unat (rn_namelen n) = unat (strlen nm)" by (rule word_unat_eq_iff)
  then have "rn_namelen n = strlen nm \<longleftrightarrow> length (rn_name n) = length nm" by (simp only: nl l)
  moreover have "(length (rn_name n) = length nm \<and> take (length nm) nm = take (length nm) (rn_name n)) \<longleftrightarrow> rn_name n = nm" by auto
  ultimately have "(rn_namelen n = strlen nm \<and> take (unat (strlen nm)) nm = take (unat (strlen nm)) (rn_name n)) \<longleftrightarrow> node_name s a = nm"
    by (simp only: l node_name_def n(1) option.case)
  moreover have "find_child j s nm (rn_next n) = Inr (find (\<lambda>a. node_name s a = nm) as)"
    by (rule Cons.IH [OF n(2)]) (use Cons.prems n(4) in auto)
  ultimately show ?case using n by (simp add: get_node_def)
qed simp

lemma dir_nth_beyond:
  assumes "dirl s (Some c) (c # as)" "length (c # as) \<le> k" "2 ^ 31 \<le> g"
  shows "dir_nth k s w g c = Inr None"
  using assms
proof (induction k arbitrary: c "as" w)
  case (Suc k)
  then obtain n where n: "nodes s c = Some n" "dirl s (rn_next n) as" by (auto split: option.splits)
  have "sint w < 2 ^ 31" using sint_lt [of w] by simp
  then have "sint w \<noteq> g" using assms(3) by simp
  then show ?case using n Suc.IH [of _ "tl as" "w + 1"] Suc.prems(2,3) by (cases "as") (auto simp: get_node_def)
qed simp

lemma dir_nth_reach:
  assumes "dirl s (Some c) (c # as)" "length (c # as) \<le> k" "i + j < 2 ^ 31"
  shows "dir_nth k s (of_nat j) (int (i + j)) c = Inr (if i < length (c # as) then Some ((c # as) ! i) else None)"
  using assms
proof (induction k arbitrary: c "as" i j)
  case (Suc k)
  then obtain n where n: "nodes s c = Some n" "dirl s (rn_next n) as" by (auto split: option.splits)
  have j: "sint (of_nat j :: u32) = int j" using Suc.prems(3) by (simp add: signed_of_nat signed_take_bit_int_eq_self)
  have w: "(of_nat j :: u32) + 1 = of_nat (Suc j)" by simp
  show ?case
  proof (cases i)
    case (Suc i')
    show ?thesis
    proof (cases "as")
      case Nil
      then show ?thesis using Suc n j by (simp add: get_node_def)
    next
      case (Cons b bs)
      then have b: "rn_next n = Some b" "dirl s (Some b) (b # bs)" using n(2) by auto
      have "dir_nth k s (of_nat (Suc j)) (int (i' + Suc j)) b = Inr (if i' < length (b # bs) then Some ((b # bs) ! i') else None)"
        by (rule Suc.IH [OF b(2)]) (use Suc.prems(2,3) Cons Suc in simp_all)
      then show ?thesis using b(1) n(1) j Cons Suc unfolding dir_nth.simps w by (simp add: get_node_def)
    qed
  qed (use j in simp)
qed simp

lemma dir_nth_spec:
  assumes "dirl s (Some c) (c # as)" "length (c # as) \<le> k"
  shows "dir_nth k s 0 (int i) c = Inr (if i < 2 ^ 31 \<and> i < length (c # as) then Some ((c # as) ! i) else None)"
  using dir_nth_beyond [OF assms, of "int i" 0] dir_nth_reach [OF assms, of i 0] by (cases "i < 2 ^ 31") simp_all

section \<open>Well-formed file systems\<close>

text \<open>
  \<open>L a\<close> is the list of the entries of node \<open>a\<close>. In a well-formed file system every node has such a list, of allocated nodes, no node is in two lists, and
  the length of a name is the stored one.
\<close>

type_synonym layout = "node_addr \<Rightarrow> node_addr list"

definition node_ok :: "layout \<Rightarrow> fs \<Rightarrow> node_addr \<Rightarrow> ramfs_node \<Rightarrow> bool" where
  "node_ok L s a n \<longleftrightarrow> a < next_node s \<and> unat (rn_namelen n) = length (rn_name n) \<and> dirl s (rn_child n) (L a) \<and> a \<notin> set (L a)"

definition fs_wf :: "layout \<Rightarrow> fs \<Rightarrow> bool" where
  "fs_wf L s \<longleftrightarrow> (\<forall>a n. nodes s a = Some n \<longrightarrow> node_ok L s a n) \<and>
     (\<forall>a b. a \<noteq> b \<longrightarrow> nodes s a \<noteq> None \<longrightarrow> nodes s b \<noteq> None \<longrightarrow> set (L a) \<inter> set (L b) = {})"

text \<open>What the structure operations keep of a node: everything but its links and its change times.\<close>

definition node_content :: "ramfs_node \<Rightarrow> ramfs_node" where
  "node_content n = n\<lparr>rn_next := None, rn_child := None, rn_mtime := now, rn_ctime := now\<rparr>"

lemma fs_wfD:
  assumes "fs_wf L s" "nodes s a = Some n"
  shows "a < next_node s" "unat (rn_namelen n) = length (rn_name n)" "dirl s (rn_child n) (L a)" "a \<notin> set (L a)"
  using assms by (auto simp: fs_wf_def node_ok_def)

lemma fs_wf_disjoint: "fs_wf L s \<Longrightarrow> a \<noteq> b \<Longrightarrow> nodes s a = Some n \<Longrightarrow> nodes s b = Some m \<Longrightarrow> x \<in> set (L a) \<Longrightarrow> x \<notin> set (L b)"
  unfolding fs_wf_def by (metis disjoint_iff option.distinct(1))

lemma fs_wf_entry: "fs_wf L s \<Longrightarrow> nodes s a = Some n \<Longrightarrow> x \<in> set (L a) \<Longrightarrow> \<exists>m. nodes s x = Some m"
  using fs_wfD(3) dirl_in by blast

lemma fs_wf_length:
  assumes "fs_wf L s" "nodes s a = Some n"
  shows "length (L a) \<le> next_node s"
proof -
  have "set (L a) \<subseteq> {..<next_node s}" using fs_wf_entry [OF assms] fs_wfD(1) [OF assms(1)] by auto
  then have "card (set (L a)) \<le> next_node s" using card_mono [of "{..<next_node s}"] by simp
  then show ?thesis using distinct_card dirl_distinct fs_wfD(3) [OF assms] by metis
qed

text \<open>The invariant looks only at links and names.\<close>

definition skeleton :: "ramfs_node \<Rightarrow> node_addr option \<times> node_addr option \<times> name \<times> u64" where
  "skeleton n = (rn_next n, rn_child n, rn_name n, rn_namelen n)"

lemma fs_wf_skeleton:
  assumes "fs_wf L s" "\<And>a. map_option skeleton (nodes t a) = map_option skeleton (nodes s a)" "next_node s \<le> next_node t"
  shows "fs_wf L t"
proof -
  have sn: "same_next s t a" for a using arg_cong [OF assms(2) [of a], of "map_option fst"] by (simp add: same_next_def option.map_comp comp_def skeleton_def)
  have dom: "nodes t a \<noteq> None \<longleftrightarrow> nodes s a \<noteq> None" for a using assms(2) [of a] by (metis map_option_is_None)
  have "node_ok L t a n" if ta: "nodes t a = Some n" for a n
  proof -
    obtain m where m: "nodes s a = Some m" "skeleton m = skeleton n" using assms(2) [of a] ta by (metis map_option_eq_Some option.simps(9))
    have "dirl t (rn_child m) (L a)" using dirl_cong [of "L a" s t] sn fs_wfD(3) [OF assms(1) m(1)] by blast
    then show ?thesis using fs_wfD [OF assms(1) m(1)] m(2) assms(3) by (simp add: node_ok_def skeleton_def)
  qed
  then show ?thesis using assms(1) dom unfolding fs_wf_def by presburger
qed

lemma fs_wf_set_node:
  assumes "fs_wf L s" "nodes s a = Some n" "skeleton m = skeleton n"
  shows "fs_wf L (set_node a m s)"
  by (rule fs_wf_skeleton [OF assms(1)]) (use assms in \<open>auto simp: set_node_def\<close>)

lemma set_node_simps [simp]:
  "nodes (set_node a n s) = (nodes s)(a \<mapsto> n)" "next_node (set_node a n s) = next_node s" "vns (set_node a n s) = vns s"
  "allocs (set_node a n s) = allocs s" "alloc_ok (set_node a n s) = alloc_ok s" "inode_count (set_node a n s) = inode_count s"
  by (simp_all add: set_node_def)

lemma get_node_some [simp]: "nodes s a = Some n \<Longrightarrow> get_node s a = Inr n"
  by (simp add: get_node_def)

lemma touch_dir_some: "nodes s d = Some n \<Longrightarrow> touch_dir d s = Inr (set_node d (n\<lparr>rn_mtime := now, rn_ctime := now\<rparr>) s)"
  by (simp add: touch_dir_def)

section \<open>Adding an entry\<close>

definition fresh_node :: "name \<Rightarrow> vtype \<Rightarrow> ramfs_node" where
  "fresh_node nm type = \<lparr>rn_next = None, rn_child = None, rn_type = type, rn_name = nm, rn_namelen = strlen nm,
     rn_size = 0, rn_buf = None, rn_bufsize = 0, rn_ctime = now, rn_atime = now, rn_mtime = now, rn_mode = node_mode type, rn_owns_buf = True\<rparr>"

definition room :: "fs \<Rightarrow> bool" where
  "room s \<longleftrightarrow> alloc_ok s (allocs s) \<and> alloc_ok s (allocs s + 1)"

definition with_fresh :: "name \<Rightarrow> vtype \<Rightarrow> fs \<Rightarrow> fs" where
  "with_fresh nm type s = s\<lparr>nodes := (nodes s)(next_node s \<mapsto> fresh_node nm type), next_node := next_node s + 1, allocs := allocs s + 2\<rparr>"

lemma unat_strlen: "length nm < 2 ^ 64 \<Longrightarrow> unat (strlen nm) = length nm"
  by (simp add: strlen_def unsigned_of_nat take_bit_nat_eq_self)

lemma ramfs_allocate_node_room: "room s \<Longrightarrow> length nm < 2 ^ 64 \<Longrightarrow> ramfs_allocate_node nm type s = (Some (next_node s), with_fresh nm type s)"
  by (simp add: ramfs_allocate_node_def kmalloc_def room_def unat_strlen with_fresh_def fresh_node_def set_node_def Let_def)

lemma ramfs_allocate_node_full:
  "\<not> room s \<Longrightarrow> \<exists>k. ramfs_allocate_node nm type s = (None, s\<lparr>allocs := k\<rparr>)"
  by (auto simp: ramfs_allocate_node_def kmalloc_def room_def)

lemma with_fresh_simps [simp]:
  "nodes (with_fresh nm ty s) = (nodes s)(next_node s \<mapsto> fresh_node nm ty)" "next_node (with_fresh nm ty s) = next_node s + 1" "vns (with_fresh nm ty s) = vns s"
  "inode_count (with_fresh nm ty s) = inode_count s"
  by (simp_all add: with_fresh_def)

lemma fresh_node_simps [simp]:
  "rn_next (fresh_node nm ty) = None" "rn_child (fresh_node nm ty) = None" "rn_name (fresh_node nm ty) = nm" "rn_namelen (fresh_node nm ty) = strlen nm"
  "rn_type (fresh_node nm ty) = ty" "rn_size (fresh_node nm ty) = 0" "rn_buf (fresh_node nm ty) = None" "rn_bufsize (fresh_node nm ty) = 0"
  by (simp_all add: fresh_node_def)

lemma fs_wf_with_fresh:
  assumes "fs_wf L s" "length nm < 2 ^ 64"
  shows "fs_wf (L(next_node s := [])) (with_fresh nm ty s)"
proof -
  have fr: "nodes s (next_node s) = None" using fs_wfD(1) [OF assms(1)] by (metis less_irrefl not_Some_eq)
  have "node_ok (L(next_node s := [])) (with_fresh nm ty s) a n" if "nodes (with_fresh nm ty s) a = Some n" for a n
  proof (cases "a = next_node s")
    case True
    then show ?thesis using that assms(2) by (auto simp: node_ok_def unat_strlen)
  next
    case False
    then have n: "nodes s a = Some n" using that by simp
    have "same_next s (with_fresh nm ty s) x" if "x \<in> set (L a)" for x
      using fs_wf_entry [OF assms(1) n that] fr by (auto simp: same_next_def)
    then have "dirl (with_fresh nm ty s) (rn_child n) (L a)" using dirl_cong fs_wfD(3) [OF assms(1) n] by blast
    then show ?thesis using fs_wfD [OF assms(1) n] False by (simp add: node_ok_def)
  qed
  moreover have "set ((L(next_node s := [])) a) \<inter> set ((L(next_node s := [])) b) = {}"
    if "a \<noteq> b" "nodes (with_fresh nm ty s) a \<noteq> None" "nodes (with_fresh nm ty s) b \<noteq> None" for a b
    using that assms(1) by (auto simp: fs_wf_def split: if_splits)
  ultimately show ?thesis unfolding fs_wf_def by blast
qed

text \<open>Linking an unlinked node \<open>np\<close> at the end of a directory, as the two branches of \<open>ramfs_add_node\<close> do.\<close>

lemma fs_wf_relink:
  assumes "fs_wf L s" "nodes s d = Some dn" "nodes t d = Some dn'" "dirl t (rn_child dn') l" "d \<notin> set l"
    "next_node t = next_node s"
    "\<And>a n. nodes t a = Some n \<Longrightarrow> \<exists>m. nodes s a = Some m \<and> rn_name n = rn_name m \<and> rn_namelen n = rn_namelen m \<and> (a \<noteq> d \<longrightarrow> rn_child n = rn_child m)"
    "\<And>a x n. a \<noteq> d \<Longrightarrow> nodes t a = Some n \<Longrightarrow> x \<in> set (L a) \<Longrightarrow> same_next s t x \<and> x \<notin> set l"
  shows "fs_wf (L(d := l)) t"
proof -
  have "node_ok (L(d := l)) t a n" if ta: "nodes t a = Some n" for a n
  proof -
    obtain m where m: "nodes s a = Some m" "rn_name n = rn_name m" "rn_namelen n = rn_namelen m" "a \<noteq> d \<longrightarrow> rn_child n = rn_child m"
      using assms(7) [OF ta] by blast
    have "dirl t (rn_child n) ((L(d := l)) a)"
    proof (cases "a = d")
      case True
      then show ?thesis using assms(3,4) ta by simp
    next
      case False
      have "dirl t (rn_child m) (L a)" by (rule dirl_cong [OF _ fs_wfD(3) [OF assms(1) m(1)]]) (use assms(8) [OF False ta] in blast)
      then show ?thesis using m(4) False by simp
    qed
    then show ?thesis using fs_wfD [OF assms(1) m(1)] m assms(5,6) by (simp add: node_ok_def)
  qed
  moreover have "set ((L(d := l)) a) \<inter> set ((L(d := l)) b) = {}" if ab: "a \<noteq> b" "nodes t a \<noteq> None" "nodes t b \<noteq> None" for a b
  proof -
    obtain na nb where t: "nodes t a = Some na" "nodes t b = Some nb" using ab by auto
    then obtain ma mb where s: "nodes s a = Some ma" "nodes s b = Some mb" using assms(7) by meson
    have l: "set l \<inter> set (L c) = {}" if "c \<noteq> d" "nodes t c = Some m" for c m using assms(8) [OF that] by blast
    have "set (L a) \<inter> set (L b) = {}" using fs_wf_disjoint [OF assms(1) ab(1) s] by blast
    then show ?thesis using l [OF _ t(1)] l [OF _ t(2)] ab(1) by (simp add: Int_commute)
  qed
  ultimately show ?thesis unfolding fs_wf_def by blast
qed

lemma add_to_empty:
  assumes "fs_wf L s" "nodes s d = Some dn" "L d = []" "nodes s np = Some n" "rn_next n = None" "np \<noteq> d"
    "\<And>a m. nodes s a = Some m \<Longrightarrow> np \<notin> set (L a)"
  shows "fs_wf (L(d := [np])) (set_node d (dn\<lparr>rn_child := Some np\<rparr>) s)"
  by (rule fs_wf_relink [OF assms(1,2)]) (use assms in \<open>auto simp: same_next_def split: if_splits\<close>)

lemma add_to_end:
  assumes "fs_wf L s" "nodes s d = Some dn" "L d = xs @ [p]" "nodes s np = Some n" "rn_next n = None" "np \<noteq> d" "nodes s p = Some pn"
    "\<And>a m. nodes s a = Some m \<Longrightarrow> np \<notin> set (L a)"
  shows "fs_wf (L(d := L d @ [np])) (set_node p (pn\<lparr>rn_next := Some np\<rparr>) s)"
proof -
  let ?t = "set_node p (pn\<lparr>rn_next := Some np\<rparr>) s"
  have pd: "p \<noteq> d" "np \<noteq> p" using fs_wfD(4) [OF assms(1,2)] assms(3) assms(8) [OF assms(2)] by auto
  have dist: "p \<notin> set xs" using dirl_distinct [OF fs_wfD(3) [OF assms(1,2)]] assms(3) by simp
  have sn: "same_next s ?t x" if "x \<noteq> p" for x using that by (simp add: same_next_def)
  have "same_next s ?t x" if "x \<in> set xs" for x using sn dist that by metis
  then have dl: "dirl ?t (rn_child dn) (L d @ [np])" unfolding assms(3) append_assoc append_Cons append_Nil
    by (intro dirl_snoc [of s "rn_child dn" xs p pn]) (use fs_wfD(3) [OF assms(1,2)] assms(3-7) pd in auto)
  have sx: "same_next s ?t x \<and> x \<notin> set (L d @ [np])" if a: "a \<noteq> d" "nodes ?t a = Some m" "x \<in> set (L a)" for a x m
  proof -
    obtain m' where m': "nodes s a = Some m'" using a(2) assms(7) by (auto split: if_splits)
    then have "x \<notin> set (L d)" using fs_wf_disjoint [OF assms(1) a(1) _ assms(2) a(3)] by blast
    then show ?thesis using assms(3) sn assms(8) [OF m'] a(3) by auto
  qed
  have td: "nodes ?t d = Some dn" using assms(2) pd by simp
  have tn: "\<exists>m'. nodes s a = Some m' \<and> rn_name m = rn_name m' \<and> rn_namelen m = rn_namelen m' \<and> (a \<noteq> d \<longrightarrow> rn_child m = rn_child m')"
    if "nodes ?t a = Some m" for a m using that assms(7) by (auto split: if_splits)
  have "d \<notin> set (L d @ [np])" using fs_wfD(4) [OF assms(1,2)] assms(6) by simp
  from fs_wf_relink [OF assms(1,2) td dl this _ tn sx] show ?thesis by simp
qed

lemma ramfs_add_node_spec:
  assumes "fs_wf L s" "nodes s d = Some dn" "room s" "length nm < 2 ^ 64"
  shows "\<exists>t. ramfs_add_node d nm ty s = Inr (Some (next_node s), t) \<and>
    fs_wf (L(next_node s := [], d := L d @ [next_node s])) t \<and> vns t = vns s \<and> inode_count t = inode_count s \<and>
    nodes t (next_node s) = Some (fresh_node nm ty) \<and>
    (\<forall>a. a \<noteq> next_node s \<longrightarrow> map_option node_content (nodes t a) = map_option node_content (nodes s a))"
proof -
  let ?np = "next_node s" and ?s = "with_fresh nm ty s" and ?L = "L(next_node s := [])"
  have fr: "nodes s ?np = None" using fs_wfD(1) [OF assms(1)] by (metis less_irrefl not_Some_eq)
  have wf: "fs_wf ?L ?s" using fs_wf_with_fresh [OF assms(1,4)] .
  have d: "nodes ?s d = Some dn" "d \<noteq> ?np" using assms(2) fr by auto
  have ni: "?np \<notin> set (?L a)" if a: "nodes ?s a = Some m" for a m
    using fs_wf_entry [OF assms(1), of a m ?np] fr a by (cases "a = ?np") auto
  have np: "nodes ?s ?np = Some (fresh_node nm ty)" by simp
  show ?thesis
  proof (cases "L d" rule: rev_cases)
    case Nil
    then have c: "rn_child dn = None" using fs_wfD(3) [OF assms(1,2)] by simp
    let ?t = "set_node d (dn\<lparr>rn_child := Some ?np\<rparr>) ?s"
    let ?u = "set_node d (dn\<lparr>rn_child := Some ?np, rn_mtime := now, rn_ctime := now\<rparr>) ?t"
    have w: "fs_wf (?L(d := [?np])) ?t" by (rule add_to_empty [OF wf d(1) _ np]) (use d Nil ni in auto)
    have "fs_wf (?L(d := [?np])) ?u" by (rule fs_wf_set_node [OF w, of d "dn\<lparr>rn_child := Some ?np\<rparr>"]) (simp_all add: skeleton_def)
    moreover have "ramfs_add_node d nm ty s = Inr (Some ?np, ?u)"
      using ramfs_allocate_node_room [OF assms(3,4)] d c by (simp add: ramfs_add_node_def touch_dir_some)
    ultimately show ?thesis using Nil d assms(2) by (auto simp: node_content_def)
  next
    case (snoc xs p)
    obtain c cs where cs: "L d = c # cs" by (cases "L d") (use snoc in auto)
    have c: "rn_child dn = Some c" using fs_wfD(3) [OF assms(1,2)] cs by simp
    obtain pn where pn: "nodes s p = Some pn" "p \<noteq> ?np" using fs_wf_entry [OF assms(1,2), of p] snoc fr by (metis in_set_conv_decomp option.distinct(1))
    have pd: "p \<noteq> d" using fs_wfD(4) [OF assms(1,2)] snoc by auto
    let ?t = "set_node p (pn\<lparr>rn_next := Some ?np\<rparr>) ?s"
    let ?u = "set_node d (dn\<lparr>rn_mtime := now, rn_ctime := now\<rparr>) ?t"
    have w: "fs_wf (?L(d := ?L d @ [?np])) ?t" by (rule add_to_end [OF wf d(1) _ np]) (use d snoc ni pn in auto)
    have "fs_wf (?L(d := ?L d @ [?np])) ?u" by (rule fs_wf_set_node [OF w, of d dn]) (use d pd in \<open>simp_all add: skeleton_def\<close>)
    moreover have "dirl ?s (Some c) (c # cs)" "length (c # cs) \<le> next_node ?s"
      using fs_wfD(3) [OF wf d(1)] fs_wf_length [OF wf d(1)] d c cs by auto
    then have "last_node (next_node ?s) ?s c = Inr p" using last_node_spec cs snoc by (metis last_snoc)
    then have "ramfs_add_node d nm ty s = Inr (Some ?np, ?u)"
      using ramfs_allocate_node_room [OF assms(3,4)] d c pn pd by (simp add: ramfs_add_node_def touch_dir_some del: last_node.simps)
    ultimately show ?thesis using d pn assms(2) by (auto simp: node_content_def)
  qed
qed

section \<open>Removing an entry\<close>

lemma ramfs_free_node_simps [simp]:
  "nodes (ramfs_free_node np s) = (nodes s)(np := None)" "next_node (ramfs_free_node np s) = next_node s" "vns (ramfs_free_node np s) = vns s"
  by (simp_all add: ramfs_free_node_def)

text \<open>The two ways to unlink \<open>np\<close>: \<open>q\<close> is the directory or the predecessor, changed to \<open>qn'\<close>.\<close>

lemma unlink_wf:
  assumes "fs_wf L s" "nodes s d = Some dn" "np \<in> set (L d)" "nodes s q = Some qn" "q = d \<or> q \<in> set (L d)" "q \<noteq> np"
    "rn_name qn' = rn_name qn" "rn_namelen qn' = rn_namelen qn" "q \<noteq> d \<longrightarrow> rn_child qn' = rn_child qn" "q = d \<longrightarrow> rn_next qn' = rn_next qn"
    "dirl (ramfs_free_node np (set_node q qn' s)) (rn_child (if q = d then qn' else dn)) (remove1 np (L d))"
  shows "fs_wf (L(d := remove1 np (L d))) (ramfs_free_node np (set_node q qn' s))"
proof -
  let ?t = "ramfs_free_node np (set_node q qn' s)"
  have nd: "np \<noteq> d" "d \<notin> set (remove1 np (L d))" using fs_wfD(4) [OF assms(1,2)] assms(3) set_remove1_subset [of np "L d"] by auto
  have td: "nodes ?t d = Some (if q = d then qn' else dn)" using assms(2) nd by simp
  have tn: "\<exists>m'. nodes s a = Some m' \<and> rn_name m = rn_name m' \<and> rn_namelen m = rn_namelen m' \<and> (a \<noteq> d \<longrightarrow> rn_child m = rn_child m')"
    if "nodes ?t a = Some m" for a m using that assms(4,7,8,9) by (auto split: if_splits)
  have sx: "same_next s ?t x \<and> x \<notin> set (remove1 np (L d))" if a: "a \<noteq> d" "nodes ?t a = Some m" "x \<in> set (L a)" for a x m
  proof -
    obtain m' where m': "nodes s a = Some m'" using tn [OF a(2)] by blast
    then have x: "x \<notin> set (L d)" using fs_wf_disjoint [OF assms(1) a(1) _ assms(2) a(3)] by blast
    then have "same_next s ?t x" using assms(3-5,10) by (auto simp: same_next_def)
    then show ?thesis using x set_remove1_subset [of np "L d"] by auto
  qed
  from fs_wf_relink [OF assms(1,2) td assms(11) nd(2) _ tn sx] show ?thesis by simp
qed

lemma touch_wf:
  assumes "fs_wf L s" "nodes s d = Some n"
  shows "\<exists>t. touch_dir d s = Inr t \<and> fs_wf L t \<and> vns t = vns s \<and> (\<forall>a. map_option node_content (nodes t a) = map_option node_content (nodes s a))"
  using assms fs_wf_set_node [OF assms, of "n\<lparr>rn_mtime := now, rn_ctime := now\<rparr>"]
  by (auto simp: touch_dir_some skeleton_def node_content_def)

lemma unlink_first:
  assumes "fs_wf L s" "nodes s d = Some dn" "L d = np # cs" "nodes s np = Some n"
  shows "fs_wf (L(d := cs)) (ramfs_free_node np (set_node d (dn\<lparr>rn_child := rn_next n\<rparr>) s))"
proof -
  let ?t = "ramfs_free_node np (set_node d (dn\<lparr>rn_child := rn_next n\<rparr>) s)"
  have cs: "dirl s (rn_next n) cs" using fs_wfD(3) [OF assms(1,2)] assms(3,4) by simp
  have nd: "np \<notin> set cs" "d \<notin> set cs" "np \<noteq> d"
    using dirl_distinct [OF fs_wfD(3) [OF assms(1,2)]] fs_wfD(4) [OF assms(1,2)] assms(3) by auto
  have "dirl ?t (rn_next n) cs" by (rule dirl_cong [OF _ cs]) (use nd in \<open>auto simp: same_next_def\<close>)
  then show ?thesis using unlink_wf [OF assms(1,2) _ assms(2), of np "dn\<lparr>rn_child := rn_next n\<rparr>"] assms(3) nd(3) by simp
qed

lemma unlink_mid:
  assumes "fs_wf L s" "nodes s d = Some dn" "L d = xs @ p # np # ys" "nodes s np = Some n" "nodes s p = Some pn"
  shows "fs_wf (L(d := remove1 np (L d))) (ramfs_free_node np (set_node p (pn\<lparr>rn_next := rn_next n\<rparr>) s)) \<and> p \<noteq> d \<and> p \<noteq> np"
proof -
  let ?t = "ramfs_free_node np (set_node p (pn\<lparr>rn_next := rn_next n\<rparr>) s)"
  have dl: "dirl s (rn_child dn) (xs @ p # np # ys)" using fs_wfD(3) [OF assms(1,2)] assms(3) by simp
  have dis: "distinct (xs @ p # np # ys)" using dirl_distinct [OF dl] .
  have nd: "p \<noteq> d" "np \<noteq> d" using fs_wfD(4) [OF assms(1,2)] assms(3) by auto
  have "dirl ?t (rn_child dn) (xs @ p # ys)"
    by (rule dirl_cut [OF dl assms(5,4)]) (use dis in \<open>auto simp: same_next_def\<close>)
  moreover have "remove1 np (L d) = xs @ p # ys" using assms(3) dis by (simp add: remove1_append)
  ultimately have "dirl ?t (rn_child (if p = d then pn\<lparr>rn_next := rn_next n\<rparr> else dn)) (remove1 np (L d))" using nd by simp
  with unlink_wf [OF assms(1,2) _ assms(5), of np "pn\<lparr>rn_next := rn_next n\<rparr>"] show ?thesis using assms(3) nd dis by simp
qed

lemma ramfs_remove_node_found:
  assumes "fs_wf L s" "nodes s d = Some dn" "np \<in> set (L d)"
  shows "\<exists>t. ramfs_remove_node d np s = Inr (SUCCESS, t) \<and> fs_wf (L(d := remove1 np (L d))) t \<and> vns t = vns s \<and> nodes t np = None \<and>
    (\<forall>a. a \<noteq> np \<longrightarrow> map_option node_content (nodes t a) = map_option node_content (nodes s a))"
proof -
  obtain n where n: "nodes s np = Some n" using fs_wf_entry [OF assms] by blast
  have nd: "np \<noteq> d" using fs_wfD(4) [OF assms(1,2)] assms(3) by auto
  obtain c cs where cs: "L d = c # cs" using assms(3) by (cases "L d") auto
  have dl: "dirl s (Some c) (c # cs)" "rn_child dn = Some c" "length (c # cs) \<le> next_node s"
    using fs_wfD(3) [OF assms(1,2)] fs_wf_length [OF assms(1,2)] cs by auto
  show ?thesis
  proof (cases "c = np")
    case True
    let ?u = "ramfs_free_node np (set_node d (dn\<lparr>rn_child := rn_next n\<rparr>) s)"
    have w: "fs_wf (L(d := remove1 np (L d))) ?u" using unlink_first [OF assms(1,2) _ n] cs True by simp
    obtain t where "touch_dir d ?u = Inr t" "fs_wf (L(d := remove1 np (L d))) t" "vns t = vns s"
      "\<forall>a. map_option node_content (nodes t a) = map_option node_content (nodes ?u a)"
      using touch_wf [OF w, of d] nd by auto
    moreover have "nodes t np = None" using calculation(4) by (metis (no_types, lifting) fun_upd_same option.map_disc_iff ramfs_free_node_simps(1))
    ultimately show ?thesis using True assms(2) dl(2) n by (auto simp: ramfs_remove_node_def node_content_def)
  next
    case False
    obtain xs p ys where p: "c # cs = xs @ p # np # ys" "find_prev (next_node s) s np c = Inr (Some p)"
      using find_prev_spec [OF dl(1,3), of np] assms(3) cs False by auto
    obtain pn where pn: "nodes s p = Some pn" using fs_wf_entry [OF assms(1,2), of p] cs p(1) by auto
    let ?u = "ramfs_free_node np (set_node p (pn\<lparr>rn_next := rn_next n\<rparr>) s)"
    have w: "fs_wf (L(d := remove1 np (L d))) ?u" "p \<noteq> d" "p \<noteq> np" using unlink_mid [OF assms(1,2) _ n pn] cs p(1) by auto
    obtain t where "touch_dir d ?u = Inr t" "fs_wf (L(d := remove1 np (L d))) t" "vns t = vns s"
      "\<forall>a. map_option node_content (nodes t a) = map_option node_content (nodes ?u a)"
      using touch_wf [OF w(1), of d] nd w assms(2) by auto
    moreover have "nodes t np = None" using calculation(4) by (metis (no_types, lifting) fun_upd_same option.map_disc_iff ramfs_free_node_simps(1))
    ultimately show ?thesis using False assms(2) dl(2) n p(2) pn by (auto simp: ramfs_remove_node_def node_content_def)
  qed
qed

lemma ramfs_remove_node_absent:
  assumes "fs_wf L s" "nodes s d = Some dn" "np \<notin> set (L d)"
  shows "ramfs_remove_node d np s = Inr (if L d = [] then EBUSY else ENOENT, s)"
proof (cases "L d")
  case Nil
  then show ?thesis using fs_wfD(3) [OF assms(1,2)] assms(2) by (simp add: ramfs_remove_node_def)
next
  case (Cons c cs)
  then have dl: "dirl s (Some c) (c # cs)" "rn_child dn = Some c" "length (c # cs) \<le> next_node s"
    using fs_wfD(3) [OF assms(1,2)] fs_wf_length [OF assms(1,2)] by auto
  have "np \<notin> set (c # cs)" using assms(3) Cons by simp
  moreover have "np \<in> set (c # cs)" if "c # cs = xs @ p # np # ys" for xs p ys using arg_cong [OF that, of set] by auto
  ultimately have "find_prev (next_node s) s np c = Inr None" "np \<noteq> c" using find_prev_spec [OF dl(1,3), of np]
    by (metis list.set_intros(1), metis list.set_intros(1))
  then show ?thesis using dl(2) assms(2) Cons by (simp add: ramfs_remove_node_def)
qed

section \<open>Directories as listings\<close>

definition entry :: "fs \<Rightarrow> node_addr \<Rightarrow> (name \<times> vtype) option" where
  "entry s a = map_option (\<lambda>n. (rn_name n, rn_type n)) (nodes s a)"

definition listing :: "layout \<Rightarrow> fs \<Rightarrow> node_addr \<Rightarrow> (name \<times> vtype) option list" where
  "listing L s d = map (entry s) (L d)"

text \<open>The vnode \<open>v\<close> stands for the node \<open>a\<close>.\<close>

definition stands_for :: "fs \<Rightarrow> vnode_addr \<Rightarrow> node_addr \<Rightarrow> bool" where
  "stands_for s v a \<longleftrightarrow> (case vnodes (vns s) v of None \<Rightarrow> False | Some vp \<Rightarrow> v_data vp = Some a) \<and> nodes s a \<noteq> None"

definition other_dirs_kept :: "layout \<Rightarrow> fs \<Rightarrow> layout \<Rightarrow> fs \<Rightarrow> node_addr \<Rightarrow> bool" where
  "other_dirs_kept L s L' t d \<longleftrightarrow> (\<forall>a. nodes s a \<noteq> None \<and> a \<noteq> d \<longrightarrow> listing L' t a = listing L s a)"

lemma stands_for_dir_of: "stands_for s v a \<Longrightarrow> dir_of v s = Inr a \<and> (\<exists>n. nodes s a = Some n)"
  by (auto simp: stands_for_def dir_of_def get_vnode_def RAMFS_NODE_def split: option.splits)

lemma entry_content: "map_option node_content (nodes t a) = map_option node_content (nodes s a) \<Longrightarrow> entry t a = entry s a"
  by (cases "nodes t a"; cases "nodes s a") (auto simp: entry_def node_content_def dest: arg_cong [of _ _ rn_name] arg_cong [of _ _ rn_type])

lemma add_node_listing:
  assumes "fs_wf L s" "nodes s d = Some dn" "room s" "length nm < 2 ^ 64"
  shows "\<exists>L' t. ramfs_add_node d nm ty s = Inr (Some (next_node s), t) \<and> fs_wf L' t \<and> vns t = vns s \<and> inode_count t = inode_count s \<and> nodes t d \<noteq> None \<and>
    nodes t (next_node s) = Some (fresh_node nm ty) \<and> L' d = L d @ [next_node s] \<and>
    listing L' t d = listing L s d @ [Some (nm, ty)] \<and> other_dirs_kept L s L' t d"
proof -
  let ?np = "next_node s" and ?L = "L(next_node s := [], d := L d @ [next_node s])"
  obtain t where t: "ramfs_add_node d nm ty s = Inr (Some ?np, t)" "fs_wf ?L t" "vns t = vns s" "inode_count t = inode_count s" "nodes t ?np = Some (fresh_node nm ty)"
    "\<And>a. a \<noteq> ?np \<Longrightarrow> map_option node_content (nodes t a) = map_option node_content (nodes s a)"
    using ramfs_add_node_spec [OF assms] by metis
  have fr: "nodes s ?np = None" using fs_wfD(1) [OF assms(1)] by (metis less_irrefl not_Some_eq)
  have e: "entry t x = entry s x" if "nodes s a = Some n" "x \<in> set (L a)" for a n x
    using entry_content [OF t(6)] fs_wf_entry [OF assms(1) that] fr by (metis option.distinct(1))
  have "listing ?L t d = listing L s d @ [Some (nm, ty)]" using e [OF assms(2)] t(5) by (simp add: listing_def entry_def)
  moreover have "other_dirs_kept L s ?L t d"
    using e fr by (auto simp: other_dirs_kept_def listing_def intro!: map_cong)
  moreover have "nodes t d \<noteq> None" using t(6) [of d] assms(2) fr by (metis map_option_is_None option.distinct(1))
  ultimately show ?thesis using t(1-5) by (intro exI [of _ ?L] exI [of _ t]) simp
qed

lemma remove_node_listing:
  assumes "fs_wf L s" "nodes s d = Some dn" "i < length (L d)"
  shows "\<exists>L' t. ramfs_remove_node d (L d ! i) s = Inr (SUCCESS, t) \<and> fs_wf L' t \<and> vns t = vns s \<and> nodes t (L d ! i) = None \<and>
    listing L' t d = take i (listing L s d) @ drop (Suc i) (listing L s d) \<and>
    (\<forall>a. nodes t a \<noteq> None \<and> a \<noteq> d \<longrightarrow> listing L' t a = listing L s a)"
proof -
  let ?np = "L d ! i" and ?L = "L(d := remove1 (L d ! i) (L d))"
  have np: "?np \<in> set (L d)" using assms(3) by simp
  obtain t where t: "ramfs_remove_node d ?np s = Inr (SUCCESS, t)" "fs_wf ?L t" "vns t = vns s" "nodes t ?np = None"
    "\<And>a. a \<noteq> ?np \<Longrightarrow> map_option node_content (nodes t a) = map_option node_content (nodes s a)"
    using ramfs_remove_node_found [OF assms(1,2) np] by metis
  have dis: "distinct (L d)" using dirl_distinct [OF fs_wfD(3) [OF assms(1,2)]] .
  have rm: "remove1 ?np (L d) = take i (L d) @ drop (Suc i) (L d)"
  proof -
    have "L d = take i (L d) @ ?np # drop (Suc i) (L d)" using assms(3) by (rule id_take_nth_drop)
    then show ?thesis using dis by (metis distinct_append not_distinct_conv_prefix remove1.simps(2) remove1_append append_Nil2 distinct.simps(2) not_Cons_self2 in_set_conv_decomp append.assoc append_Cons)
  qed
  have e: "map (entry t) xs = map (entry s) xs" if "?np \<notin> set xs" for xs using entry_content [OF t(5)] that by (metis (mono_tags, lifting) map_eq_conv)
  have ni: "?np \<notin> set (remove1 ?np (L d))" using dis by simp
  then have "listing ?L t d = map (entry s) (remove1 ?np (L d))" using e by (simp add: listing_def)
  then have "listing ?L t d = take i (listing L s d) @ drop (Suc i) (listing L s d)" by (simp add: rm listing_def take_map drop_map)
  moreover have "listing ?L t a = listing L s a" if a: "nodes t a \<noteq> None" "a \<noteq> d" for a
  proof -
    obtain n where "nodes s a = Some n" using t(4) t(5) [of a] a(1) by (cases "a = ?np"; cases "nodes s a") auto
    then have "?np \<notin> set (L a)" using fs_wf_disjoint [OF assms(1) _ assms(2) _ np] a(2) by metis
    then show ?thesis using e a(2) by (simp add: listing_def)
  qed
  ultimately show ?thesis using t(1-4) by (intro exI [of _ ?L] exI [of _ t]) simp
qed

section \<open>File contents\<close>

definition single_uio :: "uio_dir \<Rightarrow> nat \<Rightarrow> u8 list \<Rightarrow> uio" where
  "single_uio rw off bytes = \<lparr>uio_past = [], uio_iov = [\<lparr>iov_done = [], iov_mem = bytes\<rparr>], uio_offset = int off, uio_resid = int (length bytes), uio_rw = rw\<rparr>"

definition node_buf :: "ramfs_node \<Rightarrow> u8 list" where
  "node_buf n = (case rn_buf n of None \<Rightarrow> [] | Some b \<Rightarrow> b)"

definition buf_ok :: "ramfs_node \<Rightarrow> bool" where
  "buf_ok n \<longleftrightarrow> length (node_buf n) = unat (rn_bufsize n) \<and> unat (rn_size n) \<le> unat (rn_bufsize n) \<and> unat (rn_bufsize n) < 2 ^ 62"

text \<open>A regular file that a vnode stands for, with the size of the vnode that of the node.\<close>

definition file_ok :: "fs \<Rightarrow> vnode_addr \<Rightarrow> bool" where
  "file_ok s v \<longleftrightarrow> (case vnodes (vns s) v of None \<Rightarrow> False | Some vp \<Rightarrow> v_type vp = VREG \<and>
     (case v_data vp of None \<Rightarrow> False | Some np \<Rightarrow>
       (case nodes s np of None \<Rightarrow> False | Some n \<Rightarrow> buf_ok n \<and> v_size vp = int (unat (rn_size n)))))"

definition file_content :: "fs \<Rightarrow> vnode_addr \<Rightarrow> u8 list" where
  "file_content s v = (case vnodes (vns s) v of None \<Rightarrow> [] | Some vp \<Rightarrow>
     (case v_data vp of None \<Rightarrow> [] | Some np \<Rightarrow>
       (case nodes s np of None \<Rightarrow> [] | Some n \<Rightarrow> take (unat (rn_size n)) (node_buf n))))"

lemma file_okD:
  assumes "file_ok s v"
  obtains vp np n where "vnodes (vns s) v = Some vp" "v_type vp = VREG" "v_data vp = Some np" "nodes s np = Some n" "buf_ok n" "v_size vp = int (unat (rn_size n))"
  using assms by (auto simp: file_ok_def split: option.splits)

lemma sint_of_nat_small: "n < 2 ^ 31 \<Longrightarrow> sint (of_nat n :: u32) = int n" "n < 2 ^ 63 \<Longrightarrow> sint (of_nat n :: u64) = int n"
  by (simp_all add: signed_of_nat signed_take_bit_int_eq_self)

lemma unat_of_nat_small: "n < 2 ^ 63 \<Longrightarrow> unat (of_nat n :: u64) = n"
  by (simp add: unsigned_of_nat take_bit_nat_eq_self)

lemma sint_small: "unat (w :: u64) < 2 ^ 62 \<Longrightarrow> sint w = int (unat w)"
  using sint_of_nat_small(2) [of "unat w"] by simp

lemma move_len: "n < 2 ^ 31 \<Longrightarrow> unat (scast (ucast (of_nat n :: u64) :: u32) :: u64) = n"
proof -
  assume a: "n < 2 ^ 31"
  then have "unat (ucast (of_nat n :: u64) :: u32) = unat (of_nat n :: u32)" by (simp add: unsigned_ucast_eq unsigned_of_nat take_bit_nat_eq_self)
  then have u: "(ucast (of_nat n :: u64) :: u32) = of_nat n" by (rule word_unat_eq_iff [THEN iffD2])
  have "(scast (of_nat n :: u32) :: u64) = word_of_int (sint (of_nat n :: u32))" by simp
  then have "(scast (of_nat n :: u32) :: u64) = of_nat n" unfolding sint_of_nat_small(1) [OF a] by simp
  then show ?thesis unfolding u using a by (simp add: unsigned_of_nat take_bit_nat_eq_self)
qed

lemma uiomove_read:
  assumes "0 < n" "n \<le> length cp" "n \<le> length bytes" "n < 2 ^ 31"
  shows "vfscore_uiomove cp (of_nat n) (single_uio UIO_READ off bytes) = Inr (cp,
    \<lparr>uio_past = [], uio_iov = [\<lparr>iov_done = take n cp, iov_mem = drop n bytes\<rparr>], uio_offset = int off + int n, uio_resid = int (length bytes) - int n, uio_rw = UIO_READ\<rparr>)"
  unfolding vfscore_uiomove_def move_len [OF assms(4)]
  by (subst vfscore_uioforeach.simps, subst vfscore_uioforeach.simps) (use assms in \<open>auto simp: single_uio_def Let_def\<close>)

lemma uiomove_write:
  assumes "bytes \<noteq> []" "length bytes \<le> length cp" "length bytes < 2 ^ 31"
  shows "vfscore_uiomove cp (of_nat (length bytes)) (single_uio UIO_WRITE off bytes) = Inr (bytes @ drop (length bytes) cp,
    \<lparr>uio_past = [], uio_iov = [\<lparr>iov_done = bytes, iov_mem = []\<rparr>], uio_offset = int off + int (length bytes), uio_resid = 0, uio_rw = UIO_WRITE\<rparr>)"
  unfolding vfscore_uiomove_def move_len [OF assms(3)]
  by (subst vfscore_uioforeach.simps, subst vfscore_uioforeach.simps) (use assms in \<open>auto simp: single_uio_def Let_def\<close>)

lemma partition_up_of_nat:
  assumes "e < 2 ^ 31"
  shows "e \<le> unat (PARTITION_UP (of_nat e))" "unat (PARTITION_UP (of_nat e)) < 4294967296"
proof -
  have a: "unat (of_nat e + 0x1fffff :: u64) = e + 0x1fffff" by (subst unat_add_less) (use assms unat_of_nat_small [of e] in simp_all)
  show "e \<le> unat (PARTITION_UP (of_nat e))" "unat (PARTITION_UP (of_nat e)) < 4294967296"
    unfolding unat_PARTITION_UP a using assms [simplified] div_mult_mod_eq [of "e + 0x1fffff" "0x200000"] mod_less_divisor [of "0x200000" "e + 0x1fffff"] by linarith+
qed

lemma new_size_bounds:
  assumes "e < 2 ^ 31"
  shows "e \<le> unat (PARTITION_UP (of_nat e) + 100 * PARTITION_SIZE)" "unat (PARTITION_UP (of_nat e) + 100 * PARTITION_SIZE) < 2 ^ 62"
    "e \<le> unat (PAGE_UP (of_nat e))" "unat (PAGE_UP (of_nat e)) < 2 ^ 62"
proof -
  note p = partition_up_of_nat [OF assms]
  have "unat (PARTITION_UP (of_nat e) + 100 * PARTITION_SIZE) = unat (PARTITION_UP (of_nat e)) + 100 * 0x200000"
    by (subst unat_add_less) (use p in \<open>simp_all add: PARTITION_SIZE_def\<close>)
  then show "e \<le> unat (PARTITION_UP (of_nat e) + 100 * PARTITION_SIZE)" "unat (PARTITION_UP (of_nat e) + 100 * PARTITION_SIZE) < 2 ^ 62"
    using p by simp_all
  show "e \<le> unat (PAGE_UP (of_nat e))" "unat (PAGE_UP (of_nat e)) < 2 ^ 62" using PAGE_UP_bounds [of "of_nat e"] unat_of_nat_small [of e] assms by simp_all
qed

lemma new_size_bounds2:
  assumes "e < 2 ^ 31"
  shows "e \<le> unat (PARTITION_UP (of_nat e) + 2 * PARTITION_SIZE)"
proof -
  note p = partition_up_of_nat [OF assms]
  have "unat (PARTITION_UP (of_nat e) + 2 * PARTITION_SIZE) = unat (PARTITION_UP (of_nat e)) + 2 * 0x200000"
    by (subst unat_add_less) (use p in \<open>simp_all add: PARTITION_SIZE_def\<close>)
  then show ?thesis using p by simp
qed

text \<open>The buffer has room for \<open>e\<close> bytes and begins with the contents of the file.\<close>

lemma grow_buf_spec:
  assumes "buf_ok n" "v_size vp = int (unat (rn_size n))" "0 < e" "e < 2 ^ 31" "alloc_ok s (allocs s)"
  shows "\<exists>n' s' b w. grow_buf vp (int e) n s = Inr (Some n', s') \<and> n' = n\<lparr>rn_buf := Some b, rn_bufsize := w\<rparr> \<and>
    nodes s' = nodes s \<and> vns s' = vns s \<and> length b = unat w \<and> unat w < 2 ^ 62 \<and> e \<le> unat w \<and> unat (rn_bufsize n) \<le> unat w \<and>
    take (unat (rn_size n)) b = take (unat (rn_size n)) (node_buf n)"
proof -
  have c: "sint (rn_bufsize n) < int e \<longleftrightarrow> unat (rn_bufsize n) < e"
    using assms(1) sint_small [of "rn_bufsize n"] unfolding buf_ok_def by (metis of_nat_less_iff)
  show ?thesis
  proof (cases "e > unat (rn_bufsize n)")
    case False
    then obtain b where b: "rn_buf n = Some b" using assms(1,3) by (cases "rn_buf n") (auto simp: buf_ok_def node_buf_def)
    have "n = n\<lparr>rn_buf := Some b, rn_bufsize := rn_bufsize n\<rparr>" using b by simp
    moreover have "grow_buf vp (int e) n s = Inr (Some n, s)" using False c by (simp add: grow_buf_def)
    moreover have "length b = unat (rn_bufsize n)" "node_buf n = b" "unat (rn_bufsize n) < 2 ^ 62" using assms(1) b by (auto simp: buf_ok_def node_buf_def)
    ultimately show ?thesis using False by (metis leI order_refl)
  next
    case True
    define w where "w = (if rn_bufsize n \<noteq> 0 then PARTITION_UP (of_nat e) + 100 * PARTITION_SIZE else PAGE_UP (of_nat e))"
    have w: "e \<le> unat w" "unat w < 2 ^ 62" unfolding w_def using new_size_bounds [OF assms(4)] by auto
    define b where "b = take (unat (rn_size n)) (node_buf n) @ drop (unat (rn_size n)) (replicate (unat w) 0)"
    have le: "unat (rn_size n) \<le> length (node_buf n)" "unat (rn_size n) \<le> unat w" using assms(1) True w by (auto simp: buf_ok_def)
    have k: "unat (word_of_int (v_size vp) :: u64) = unat (rn_size n)" by (simp add: assms(2))
    have "copy_buf n (v_size vp) (replicate (unat w) 0) = Inr b"
      using le by (auto simp: copy_buf_def k Let_def b_def node_buf_def [symmetric])
    then have "grow_buf vp (int e) n s = Inr (Some (n\<lparr>rn_buf := Some b, rn_bufsize := w\<rparr>), s\<lparr>allocs := allocs s + 1\<rparr>)"
      using True c assms(5) by (simp add: grow_buf_def kmalloc_def w_def Let_def split: if_splits)
    moreover have "length b = unat w" "take (unat (rn_size n)) b = take (unat (rn_size n)) (node_buf n)" using le by (auto simp: b_def)
    ultimately show ?thesis using w True
      by (intro exI [of _ "n\<lparr>rn_buf := Some b, rn_bufsize := w\<rparr>"] exI [of _ "s\<lparr>allocs := allocs s + 1\<rparr>"] exI [of _ b] exI [of _ w]) simp
  qed
qed

lemma read_spec:
  assumes "file_ok s v" "bytes \<noteq> []" "off + length bytes \<le> length (file_content s v)" "length bytes < 2 ^ 31"
  shows "\<exists>u t. ramfs_read v (single_uio UIO_READ off bytes) s = Inr (SUCCESS, u, t) \<and> uio_resid u = 0 \<and>
    uio_iov u = [\<lparr>iov_done = take (length bytes) (drop off (file_content s v)), iov_mem = []\<rparr>]"
proof -
  obtain vp np n where f: "vnodes (vns s) v = Some vp" "v_type vp = VREG" "v_data vp = Some np" "nodes s np = Some n" "buf_ok n" "v_size vp = int (unat (rn_size n))"
    using file_okD [OF assms(1)] .
  have c: "file_content s v = take (unat (rn_size n)) (node_buf n)" using f by (simp add: file_content_def)
  have le: "off + length bytes \<le> unat (rn_size n)" "unat (rn_size n) \<le> length (node_buf n)" using assms(3) f(5) unfolding c by (auto simp: buf_ok_def)
  have b: "buf_at n (int off) = drop off (node_buf n)" by (simp add: buf_at_def node_buf_def split: option.splits)
  have tk: "take (length bytes) (drop off (file_content s v)) = take (length bytes) (drop off (node_buf n))"
    unfolding c drop_take take_take using le by (simp add: min_absorb1)
  have m: "vfscore_uiomove (buf_at n (int off)) (of_nat (length bytes)) (single_uio UIO_READ off bytes) = Inr (drop off (node_buf n),
    \<lparr>uio_past = [], uio_iov = [\<lparr>iov_done = take (length bytes) (drop off (node_buf n)), iov_mem = []\<rparr>], uio_offset = int off + int (length bytes), uio_resid = 0, uio_rw = UIO_READ\<rparr>)"
    unfolding b by (subst uiomove_read) (use assms le in auto)
  have "0 < length bytes" using assms(2) by simp
  then have lt: "int off < v_size vp" "\<not> v_size vp - int off < int (length bytes)" using le(1) unfolding f(6) by linarith+
  have "ramfs_read v (single_uio UIO_READ off bytes) s = copy_out vp (single_uio UIO_READ off bytes) s" using f by (simp add: ramfs_read_def get_vnode_def)
  also have "\<dots> = Inr (SUCCESS, \<lparr>uio_past = [], uio_iov = [\<lparr>iov_done = take (length bytes) (drop off (node_buf n)), iov_mem = []\<rparr>],
    uio_offset = int off + int (length bytes), uio_resid = 0, uio_rw = UIO_READ\<rparr>, set_node np (n\<lparr>rn_atime := now\<rparr>) s)"
    using assms(2) f m lt by (simp add: copy_out_def single_uio_def RAMFS_NODE_def)
  finally show ?thesis using tk by simp
qed

lemma overwrite:
  assumes "off + length data \<le> length b"
  shows "length (take off b @ data @ drop (length data) (drop off b)) = length b"
    "take (length data) (drop off (take off b @ data @ drop (length data) (drop off b))) = data"
  using assms by (auto simp: min_absorb2)

lemma overwrite_content:
  assumes "off \<le> sz" "off + length data \<le> length b" "sz \<le> length b"
  shows "take (max sz (off + length data)) (take off b @ data @ drop (length data) (drop off b)) =
    take off (take sz b) @ data @ drop (off + length data) (take sz b)"
proof -
  have o: "take off (take sz b) = take off b" "length (take off b) = off" using assms by (simp_all add: min_absorb1)
  have dd: "drop (length data) (drop off b) = drop (off + length data) b" by (simp add: add.commute)
  show ?thesis
  proof (cases "sz \<le> off + length data")
    case True
    then show ?thesis using o assms by (simp add: max_absorb2 min_absorb2)
  next
    case False
    then show ?thesis unfolding o(1) dd using o(2) assms by (simp add: max_absorb1 drop_take)
  qed
qed

definition done_uio :: "nat \<Rightarrow> u8 list \<Rightarrow> uio" where
  "done_uio off data = \<lparr>uio_past = [], uio_iov = [\<lparr>iov_done = data, iov_mem = []\<rparr>], uio_offset = int off + int (length data), uio_resid = 0, uio_rw = UIO_WRITE\<rparr>"

lemma copy_in_spec:
  assumes "rn_buf n = Some b" "off + length data \<le> length b" "data \<noteq> []" "length data < 2 ^ 31"
  shows "copy_in np (single_uio UIO_WRITE off data) n s = Inr (SUCCESS, done_uio off data,
    set_node np (n\<lparr>rn_buf := Some (take off b @ data @ drop (length data) (drop off b)), rn_mtime := now, rn_ctime := now\<rparr>) s)"
proof -
  have "buf_at n (int off) = drop off b" using assms(1) by (simp add: buf_at_def)
  then have "vfscore_uiomove (buf_at n (int off)) (of_nat (length data)) (single_uio UIO_WRITE off data) = Inr (data @ drop (length data) (drop off b), done_uio off data)"
    using uiomove_write [of data "drop off b" off] assms by (simp add: done_uio_def)
  then show ?thesis using assms(1) by (simp add: copy_in_def single_uio_def)
qed

text \<open>The state after a write: the buffer \<open>b\<close> overwritten at the offset, and the size of the file \<open>sz\<close>.\<close>

definition after_write :: "vnode_addr \<Rightarrow> vnode \<Rightarrow> node_addr \<Rightarrow> nat \<Rightarrow> u8 list \<Rightarrow> u8 list \<Rightarrow> nat \<Rightarrow> fs \<Rightarrow> bool" where
  "after_write v vp np off data b sz t \<longleftrightarrow> vnodes (vns t) v = Some (vp\<lparr>v_size := int sz\<rparr>) \<and>
     (case nodes t np of None \<Rightarrow> False | Some n \<Rightarrow> unat (rn_size n) = sz \<and> unat (rn_bufsize n) = length b \<and>
       rn_buf n = Some (take off b @ data @ drop (length data) (drop off b)))"

lemma after_write_ok:
  assumes "after_write v vp np off data b sz t" "v_type vp = VREG" "v_data vp = Some np" "off + length data \<le> sz" "sz \<le> length b" "length b < 2 ^ 62"
  shows "file_ok t v" "file_content t v = take sz (take off b @ data @ drop (length data) (drop off b))"
  using assms by (auto simp: after_write_def file_ok_def file_content_def buf_ok_def node_buf_def split: option.splits)

lemma write_after:
  assumes "vnodes (vns s) v = Some vp" "v_type vp = VREG" "v_data vp = Some np" "nodes s np = Some n" "buf_ok n" "v_size vp = int (unat (rn_size n))"
    "data \<noteq> []" "off + length data < 2 ^ 31" "alloc_ok s (allocs s)" "flag AND IO_APPEND = 0"
  shows "\<exists>u t b. ramfs_write v (single_uio UIO_WRITE off data) flag s = Inr (SUCCESS, u, t) \<and> uio_resid u = 0 \<and>
    after_write v vp np off data b (max (unat (rn_size n)) (off + length data)) t \<and> off + length data \<le> length b \<and>
    unat (rn_size n) \<le> length b \<and> length b < 2 ^ 62 \<and> take (unat (rn_size n)) b = take (unat (rn_size n)) (node_buf n)"
proof -
  let ?e = "off + length data" and ?u = "single_uio UIO_WRITE off data"
  have e0: "?e \<noteq> 0" "\<not> int off \<ge> 2 ^ 63 - 1" using assms(7,8) by auto
  have bo: "length (node_buf n) = unat (rn_bufsize n)" "unat (rn_size n) \<le> unat (rn_bufsize n)" "unat (rn_bufsize n) < 2 ^ 62" using assms(5) by (auto simp: buf_ok_def)
  have uo: "uio_offset ?u = int off" "uio_resid ?u = int (length data)" by (simp_all add: single_uio_def)
  have se: "sint (word_of_int (int off + int (length data)) :: u64) = int ?e" using sint_of_nat_small(2) [of ?e] assms(8) by simp
  have ue: "unat (of_nat off + of_nat (length data) :: u64) = ?e" using unat_of_nat_small [of ?e] assms(8) by simp
  have cmp: "(word_of_int (int off) + word_of_int (int (length data)) :: u64) > word_of_int (v_size vp) \<longleftrightarrow> ?e > unat (rn_size n)"
    using ue by (simp add: assms(6) word_less_nat_alt)
  show ?thesis
  proof (cases "?e > unat (rn_size n)")
    case True
    obtain s' b w where g: "grow_buf vp (int ?e) n s = Inr (Some (n\<lparr>rn_buf := Some b, rn_bufsize := w\<rparr>), s')" "nodes s' = nodes s" "vns s' = vns s"
      "length b = unat w" "unat w < 2 ^ 62" "?e \<le> unat w" "unat (rn_bufsize n) \<le> unat w" "take (unat (rn_size n)) b = take (unat (rn_size n)) (node_buf n)"
      using grow_buf_spec [OF assms(5,6), of ?e s] assms(8,9) e0(1) by auto
    let ?n = "n\<lparr>rn_buf := Some b, rn_bufsize := w, rn_size := word_of_int (int ?e), rn_owns_buf := True\<rparr>"
    let ?t = "set_node np (?n\<lparr>rn_buf := Some (take off b @ data @ drop (length data) (drop off b)), rn_mtime := now, rn_ctime := now\<rparr>)
      (set_vnode v (vp\<lparr>v_size := int ?e\<rparr>) s')"
    have mv: "copy_in np ?u ?n (set_vnode v (vp\<lparr>v_size := int ?e\<rparr>) s') = Inr (SUCCESS, done_uio off data, ?t)"
      by (rule copy_in_spec) (use g(4,6) assms(7,8) in simp_all)
    have "ramfs_write v ?u flag s = copy_in np ?u ?n (set_vnode v (vp\<lparr>v_size := int ?e\<rparr>) s')"
      using assms(1-4,7,10) e0 True g(1) se cmp by (simp add: ramfs_write_def uo get_vnode_def RAMFS_NODE_def)
    with mv have "ramfs_write v ?u flag s = Inr (SUCCESS, done_uio off data, ?t)" by (simp only:)
    moreover have "after_write v vp np off data b (max (unat (rn_size n)) ?e) ?t"
      using True ue g(4) by (simp add: after_write_def set_vnode_def max_absorb2)
    moreover have "uio_resid (done_uio off data) = 0" "unat (rn_size n) \<le> length b" using bo g(4,7) by (simp_all add: done_uio_def)
    ultimately show ?thesis using g(4-6,8) by (metis (no_types, lifting))
  next
    case False
    then obtain b where b: "rn_buf n = Some b" "node_buf n = b" using bo e0(1) by (cases "rn_buf n") (auto simp: node_buf_def)
    let ?n = "n\<lparr>rn_buf := Some (take off b @ data @ drop (length data) (drop off b)), rn_mtime := now, rn_ctime := now\<rparr>"
    have "copy_in np ?u n s = Inr (SUCCESS, done_uio off data, set_node np ?n s)"
      by (rule copy_in_spec) (use b bo False assms(7,8) in auto)
    moreover have "ramfs_write v ?u flag s = copy_in np ?u n s"
      using assms(1-4,7,10) e0 False cmp by (simp add: ramfs_write_def uo get_vnode_def RAMFS_NODE_def)
    ultimately have "ramfs_write v ?u flag s = Inr (SUCCESS, done_uio off data, set_node np ?n s)" by (simp only:)
    moreover have "after_write v vp np off data b (max (unat (rn_size n)) ?e) (set_node np ?n s)"
      using False assms(1,6) bo b by (simp add: after_write_def max_absorb1)
    moreover have "uio_resid (done_uio off data) = 0" "?e \<le> length b" "unat (rn_size n) \<le> length b" "length b < 2 ^ 62"
      using bo b False by (simp_all add: done_uio_def)
    ultimately show ?thesis using b(2) by (metis (no_types, lifting))
  qed
qed

section \<open>Lookup and enumeration\<close>

lemma node_name_entry: "node_name s a = (case entry s a of None \<Rightarrow> [] | Some e \<Rightarrow> fst e)"
  by (simp add: node_name_def entry_def split: option.splits)

lemma find_snoc: "\<forall>a \<in> set xs. \<not> P a \<Longrightarrow> P x \<Longrightarrow> find P (xs @ [x]) = Some x"
  by (induction xs) auto

lemma lookup_found:
  assumes "fs_wf L s" "vnodes (vns s) dvp = Some dv" "v_data dv = Some d" "nodes s d = Some dn" "nm \<noteq> []" "length nm < 2 ^ 64"
    "vc_inv (vns s)" "\<And>w. \<not> has_key (vns s) w (v_mount dv) (inode_count s)"
    "find (\<lambda>a. node_name s a = nm) (L d) = Some np" "nodes s np = Some n"
  shows "\<exists>v t vp. ramfs_lookup True dvp nm s = Inr (SUCCESS, Some v, t) \<and> nodes t = nodes s \<and> vnodes (vns t) v = Some vp \<and> v \<notin> live (vns s) \<and>
    v_data vp = Some np \<and> v_type vp = rn_type n \<and> v_size vp = sint (rn_size n)"
proof -
  have fc: "find_child (next_node s) s nm (rn_child dn) = Inr (Some np)"
    using find_child_spec [OF fs_wfD(3) [OF assms(1,4)] fs_wf_length [OF assms(1,4)] assms(6)] fs_wfD(2) [OF assms(1)] assms(9) by simp
  have fv: "find_vnode (vns s) (v_mount dv) (inode_count s) (vnode_table (vns s) (vn_hash (v_mount dv) (inode_count s))) = Inr None"
    using find_vnode_key [OF assms(7), of "v_mount dv" "inode_count s"] assms(8) by metis
  obtain vs v where vg: "vfscore_vget True SUCCESS (v_mount dv) (inode_count s) (vns s) = Inr (False, Some v, vs)"
    using fv by (simp add: vfscore_vget_def vn_lookup_def Let_def)
  obtain vp where vp: "vnodes vs v = Some vp" "v \<notin> live (vns s)" using vfscore_vget_spec(5) [OF assms(7) vg] by auto
  then show ?thesis using assms(2-5,10) fc vg
    by (simp add: ramfs_lookup_def get_vnode_def RAMFS_NODE_def set_vnode_def Let_def get_node_def)
qed

lemma readdir_entry:
  assumes "fs_wf L s" "stands_for s v d" "i < length (L d)" "i < 2 ^ 31" "listing L s d ! i = Some (nm, ty)"
  shows "\<exists>t. ramfs_readdir v (int i + 2) s = Inr (SUCCESS, Some \<lparr>d_fileno = int i + 2, d_type = dirent_type ty, d_name = take 255 nm\<rparr>, int i + 3, t) \<and>
    fs_wf L t \<and> stands_for t v d \<and> listing L t d = listing L s d"
proof -
  obtain dn where d: "dir_of v s = Inr d" "nodes s d = Some dn" using stands_for_dir_of [OF assms(2)] by blast
  let ?t = "set_node d (dn\<lparr>rn_atime := now\<rparr>) s"
  have wf: "fs_wf L ?t" by (rule fs_wf_set_node [OF assms(1) d(2)]) (simp add: skeleton_def)
  have td: "nodes ?t d = Some (dn\<lparr>rn_atime := now\<rparr>)" by simp
  obtain c cs where cs: "L d = c # cs" using assms(3) by (cases "L d") auto
  have c: "rn_child dn = Some c" "dirl ?t (Some c) (c # cs)" using fs_wfD(3) [OF wf td] cs by auto
  have nth: "dir_nth (next_node s) ?t 0 (int i) c = Inr (Some (L d ! i))"
    using dir_nth_spec [OF c(2), of "next_node ?t" i] fs_wf_length [OF wf td] assms(3,4) cs by simp
  obtain n where n: "nodes s (L d ! i) = Some n" "rn_name n = nm" "rn_type n = ty" using assms(3,5) by (auto simp: listing_def entry_def)
  then have "\<exists>n'. nodes ?t (L d ! i) = Some n' \<and> rn_name n' = nm \<and> rn_type n' = ty" using d(2) by auto
  then obtain n' where n': "nodes ?t (L d ! i) = Some n'" "rn_name n' = nm" "rn_type n' = ty" by blast
  have "ramfs_readdir v (int i + 2) s = Inr (SUCCESS, Some \<lparr>d_fileno = int i + 2, d_type = dirent_type ty, d_name = take 255 nm\<rparr>, int i + 3, ?t)"
    using d c(1) nth n' by (simp add: ramfs_readdir_def Let_def get_node_def)
  moreover have "stands_for ?t v d" "listing L ?t d = listing L s d"
    using assms(2) d(2) by (auto simp: stands_for_def listing_def entry_def)
  ultimately show ?thesis using wf by blast
qed

lemma readdir_dot:
  assumes "fs_wf L s" "stands_for s v d" "off = 0 \<or> off = 1"
  shows "\<exists>t. ramfs_readdir v off s = Inr (SUCCESS, Some \<lparr>d_fileno = off, d_type = DT_DIR, d_name = (if off = 0 then [46] else [46, 46])\<rparr>, off + 1, t) \<and>
    fs_wf L t \<and> stands_for t v d \<and> listing L t d = listing L s d"
proof -
  obtain dn where d: "dir_of v s = Inr d" "nodes s d = Some dn" using stands_for_dir_of [OF assms(2)] by blast
  let ?t = "set_node d (dn\<lparr>rn_atime := now\<rparr>) s"
  have "fs_wf L ?t" by (rule fs_wf_set_node [OF assms(1) d(2)]) (simp add: skeleton_def)
  moreover have "stands_for ?t v d" "listing L ?t d = listing L s d" using assms(2) d(2) by (auto simp: stands_for_def listing_def entry_def)
  moreover have "ramfs_readdir v off s = Inr (SUCCESS, Some \<lparr>d_fileno = off, d_type = DT_DIR, d_name = (if off = 0 then [46] else [46, 46])\<rparr>, off + 1, ?t)"
    using d assms(3) by (auto simp: ramfs_readdir_def Let_def)
  ultimately show ?thesis by blast
qed

lemma readdir_end:
  assumes "fs_wf L s" "stands_for s v d" "i = length (L d) \<or> i = 2 ^ 31"
  shows "\<exists>t. ramfs_readdir v (int i + 2) s = Inr (ENOENT, None, int i + 2, t)"
proof -
  obtain dn where d: "dir_of v s = Inr d" "nodes s d = Some dn" using stands_for_dir_of [OF assms(2)] by blast
  let ?t = "set_node d (dn\<lparr>rn_atime := now\<rparr>) s"
  have wf: "fs_wf L ?t" by (rule fs_wf_set_node [OF assms(1) d(2)]) (simp add: skeleton_def)
  have td: "nodes ?t d = Some (dn\<lparr>rn_atime := now\<rparr>)" by simp
  show ?thesis
  proof (cases "L d")
    case Nil
    then show ?thesis using d fs_wfD(3) [OF assms(1) d(2)] by (simp add: ramfs_readdir_def Let_def)
  next
    case (Cons c cs)
    then have c: "rn_child dn = Some c" "dirl ?t (Some c) (c # cs)" using fs_wfD(3) [OF wf td] by auto
    have "dir_nth (next_node s) ?t 0 (int i) c = Inr None"
      using dir_nth_spec [OF c(2), of "next_node ?t" i] fs_wf_length [OF wf td] assms(3) Cons by auto
    then show ?thesis using d c(1) by (simp add: ramfs_readdir_def Let_def)
  qed
qed

text \<open>A client that reads a directory until an error.\<close>

fun read_all :: "nat \<Rightarrow> vnode_addr \<Rightarrow> int \<Rightarrow> fs \<Rightarrow> dirent list res" where
  "read_all 0 v off s = Inl Diverge"
| "read_all (Suc k) v off s =
     rbind (ramfs_readdir v off s) (\<lambda>(error, d, off, s).
       case d of None \<Rightarrow> Inr [] | Some d \<Rightarrow> rbind (read_all k v off s) (\<lambda>ds. Inr (d # ds)))"

definition dirents :: "(name \<times> vtype) option list \<Rightarrow> nat \<Rightarrow> dirent list" where
  "dirents es i = concat (map (\<lambda>j. case es ! j of None \<Rightarrow> [] | Some (nm, ty) \<Rightarrow> [\<lparr>d_fileno = int j + 2, d_type = dirent_type ty, d_name = take 255 nm\<rparr>]) [i..<length es])"

lemma read_all_from:
  assumes "fs_wf L s" "stands_for s v d" "i \<le> min (length (L d)) (2 ^ 31)" "length (L d) - i < k"
  shows "read_all k v (int i + 2) s = Inr (dirents (take (2 ^ 31) (listing L s d)) i)"
  using assms
proof (induction k arbitrary: i s)
  case (Suc k)
  obtain dn where d: "nodes s d = Some dn" using stands_for_dir_of [OF Suc.prems(2)] by blast
  have len: "length (take (2 ^ 31) (listing L s d)) = min (length (L d)) (2 ^ 31)" by (simp add: listing_def min.commute)
  show ?case
  proof (cases "i = length (L d) \<or> i = 2 ^ 31")
    case True
    then have u: "[i..<min (length (L d)) (2 ^ 31)] = []" by auto
    have "dirents (take (2 ^ 31) (listing L s d)) i = []" unfolding dirents_def len u by simp
    then show ?thesis using readdir_end [OF Suc.prems(1,2) True] by auto
  next
    case False
    then have i: "i < length (L d)" "i < 2 ^ 31" using Suc.prems(3) by auto
    have "\<exists>e. listing L s d ! i = Some e" using fs_wf_entry [OF Suc.prems(1) d, of "L d ! i"] i by (auto simp: listing_def entry_def)
    then obtain nm ty where e: "listing L s d ! i = Some (nm, ty)" by auto
    obtain t where t: "ramfs_readdir v (int i + 2) s = Inr (SUCCESS, Some \<lparr>d_fileno = int i + 2, d_type = dirent_type ty, d_name = take 255 nm\<rparr>, int i + 3, t)"
      "fs_wf L t" "stands_for t v d" "listing L t d = listing L s d" using readdir_entry [OF Suc.prems(1,2) i e] by blast
    have eq: "int (Suc i) + 2 = int i + 3" by simp
    have "read_all k v (int (Suc i) + 2) t = Inr (dirents (take (2 ^ 31) (listing L t d)) (Suc i))"
      by (rule Suc.IH [OF t(2,3)]) (use i Suc.prems(4) in auto)
    then have "read_all k v (int i + 3) t = Inr (dirents (take (2 ^ 31) (listing L t d)) (Suc i))" unfolding eq .
    moreover have u: "[i..<min (length (L d)) (2 ^ 31)] = i # [Suc i..<min (length (L d)) (2 ^ 31)]" using i by (intro upt_conv_Cons) simp
    have "dirents (take (2 ^ 31) (listing L s d)) i =
        \<lparr>d_fileno = int i + 2, d_type = dirent_type ty, d_name = take 255 nm\<rparr> # dirents (take (2 ^ 31) (listing L s d)) (Suc i)"
      unfolding dirents_def len u using i(2) e by simp
    ultimately show ?thesis using t(1,4) by simp
  qed
qed simp

section \<open>Operations on listings\<close>

lemma name_fits: "length nm \<le> 255 \<Longrightarrow> length nm < 2 ^ 64 \<and> \<not> strlen nm > NAME_MAX"
  by (simp add: unat_strlen NAME_MAX_def word_less_nat_alt)

lemma create_listing:
  assumes "fs_wf L s" "stands_for s dvp d" "length nm \<le> 255" "room s" "S_ISREG m"
  shows "\<exists>L' t. ramfs_create dvp nm m s = Inr (SUCCESS, t) \<and> fs_wf L' t \<and>
    listing L' t d = listing L s d @ [Some (nm, VREG)] \<and> other_dirs_kept L s L' t d"
proof -
  obtain dn where d: "dir_of dvp s = Inr d" "nodes s d = Some dn" using stands_for_dir_of [OF assms(2)] by blast
  show ?thesis using add_node_listing [OF assms(1) d(2) assms(4), of nm VREG] name_fits [OF assms(3)] d(1) assms(5) by (fastforce simp: ramfs_create_def)
qed

lemma mkdir_listing:
  assumes "fs_wf L s" "stands_for s dvp d" "length nm \<le> 255" "room s" "S_ISDIR m"
  shows "\<exists>L' t. ramfs_mkdir dvp nm m s = Inr (SUCCESS, t) \<and> fs_wf L' t \<and>
    listing L' t d = listing L s d @ [Some (nm, VDIR)] \<and> other_dirs_kept L s L' t d"
proof -
  obtain dn where d: "dir_of dvp s = Inr d" "nodes s d = Some dn" using stands_for_dir_of [OF assms(2)] by blast
  obtain L' t where t: "ramfs_add_node d nm VDIR s = Inr (Some (next_node s), t)" "fs_wf L' t" "nodes t (next_node s) = Some (fresh_node nm VDIR)"
    "listing L' t d = listing L s d @ [Some (nm, VDIR)]" "other_dirs_kept L s L' t d"
    using add_node_listing [OF assms(1) d(2) assms(4), of nm VDIR] name_fits [OF assms(3)] by blast
  have "set_node (next_node s) ((fresh_node nm VDIR)\<lparr>rn_size := 0\<rparr>) t = t" using t(3) by (simp add: set_node_def fresh_node_def fun_upd_idem)
  then show ?thesis using t d(1) name_fits [OF assms(3)] assms(5) by (simp add: ramfs_mkdir_def) blast
qed

lemma create_full:
  assumes "fs_wf L s" "stands_for s dvp d" "length nm \<le> 255" "\<not> room s" "S_ISREG m"
  shows "\<exists>t. ramfs_create dvp nm m s = Inr (ENOMEM, t) \<and> fs_wf L t \<and> listing L t = listing L s"
proof -
  obtain k where "ramfs_allocate_node nm VREG s = (None, s\<lparr>allocs := k\<rparr>)" using ramfs_allocate_node_full [OF assms(4)] by blast
  moreover have "fs_wf L (s\<lparr>allocs := k\<rparr>)" by (rule fs_wf_skeleton [OF assms(1)]) simp_all
  moreover have "listing L (s\<lparr>allocs := k\<rparr>) = listing L s" by (rule ext) (simp add: listing_def entry_def)
  ultimately show ?thesis using stands_for_dir_of [OF assms(2)] name_fits [OF assms(3)] assms(5) by (simp add: ramfs_create_def ramfs_add_node_def)
qed

lemma remove_listing:
  assumes "fs_wf L s" "stands_for s dvp d" "stands_for s v (L d ! i)" "i < length (L d)"
  shows "\<exists>L' t. ramfs_remove dvp v s = Inr (SUCCESS, t) \<and> fs_wf L' t \<and>
    listing L' t d = take i (listing L s d) @ drop (Suc i) (listing L s d) \<and>
    (\<forall>a. nodes t a \<noteq> None \<and> a \<noteq> d \<longrightarrow> listing L' t a = listing L s a)"
proof -
  obtain dn where d: "dir_of dvp s = Inr d" "nodes s d = Some dn" using stands_for_dir_of [OF assms(2)] by blast
  show ?thesis using remove_node_listing [OF assms(1) d(2) assms(4)] stands_for_dir_of [OF assms(3)] d(1) by (simp add: ramfs_remove_def) blast
qed

lemma remove_absent:
  assumes "fs_wf L s" "stands_for s dvp d" "stands_for s v np" "np \<notin> set (L d)"
  shows "ramfs_remove dvp v s = Inr (if L d = [] then EBUSY else ENOENT, s)"
proof -
  obtain dn where d: "dir_of dvp s = Inr d" "nodes s d = Some dn" using stands_for_dir_of [OF assms(2)] by blast
  show ?thesis using ramfs_remove_node_absent [OF assms(1) d(2) assms(4)] stands_for_dir_of [OF assms(3)] d(1) by (simp add: ramfs_remove_def)
qed

section \<open>An example file system\<close>

text \<open>The root \<open>1\<close> with the directories \<open>2\<close>, which has the file \<open>3\<close>, and \<open>4\<close>; vnode \<open>i\<close> stands for node \<open>i\<close>.\<close>

definition small_vnode :: "nat \<Rightarrow> vtype \<Rightarrow> vnode" where
  "small_vnode a ty = \<lparr>v_ino = of_nat a, v_mount = 0, v_refcnt = 1, v_type = ty, v_mode = 0, v_size = 0, v_data = Some a\<rparr>"

definition small_fs :: fs where
  "small_fs = \<lparr>nodes = [1 \<mapsto> (fresh_node [47] VDIR)\<lparr>rn_child := Some 2\<rparr>, 2 \<mapsto> (fresh_node [97] VDIR)\<lparr>rn_child := Some 3, rn_next := Some 4\<rparr>,
     3 \<mapsto> fresh_node [98] VREG, 4 \<mapsto> fresh_node [99] VDIR],
     next_node = 5, inode_count = 9, allocs = 0, alloc_ok = (\<lambda>_. True), alloc_junk = (\<lambda>_ _. 170),
     vns = \<lparr>vnodes = [1 \<mapsto> small_vnode 1 VDIR, 2 \<mapsto> small_vnode 2 VDIR, 3 \<mapsto> small_vnode 3 VREG, 4 \<mapsto> small_vnode 4 VDIR],
       vnode_table = (\<lambda>b. if b = 1 then [1] else if b = 2 then [2] else if b = 3 then [3] else if b = 4 then [4] else []),
       next_vnode = 5, m_count = (\<lambda>mp. if mp = 0 then 4 else 0)\<rparr>\<rparr>"

definition small_layout :: layout where
  "small_layout = (\<lambda>_. [])(1 := [2, 4], 2 := [3])"

lemma small_fs_wf: "fs_wf small_layout small_fs"
  unfolding fs_wf_def by (auto simp: node_ok_def small_fs_def small_layout_def strlen_def split: if_splits)

lemma small_fs_stands: "stands_for small_fs 1 1" "stands_for small_fs 2 2" "stands_for small_fs 3 3" "stands_for small_fs 4 4"
  by (simp_all add: stands_for_def small_fs_def small_vnode_def)

lemma small_fs_file: "file_ok small_fs 3"
  by (simp add: file_ok_def small_fs_def small_vnode_def buf_ok_def node_buf_def)

lemma small_fs_simps:
  "room small_fs" "alloc_ok small_fs (allocs small_fs)" "next_node small_fs = 5" "nodes small_fs 1 \<noteq> None"
  "vnodes (vns small_fs) 1 = Some (small_vnode 1 VDIR)" "vnodes (vns small_fs) 3 = Some (small_vnode 3 VREG)"
  "nodes small_fs 3 = Some (fresh_node [98] VREG)" "entry small_fs 2 = Some ([97], VDIR)" "map_option rn_buf (nodes small_fs 2) = Some None"
  "node_name small_fs 2 = [97]" "node_name small_fs 4 = [99]" "inode_count small_fs = 9"
  by (simp_all add: small_fs_def room_def entry_def node_name_def)

lemma small_hash: "vn_hash 0 1 = 1" "vn_hash 0 2 = 2" "vn_hash 0 3 = 3" "vn_hash 0 4 = 4"
  by (simp_all add: vn_hash_def VNODE_BUCKETS_def)

lemma small_key: "has_key (vns small_fs) v mp ino \<longleftrightarrow> mp = 0 \<and> (v = 1 \<and> ino = 1 \<or> v = 2 \<and> ino = 2 \<or> v = 3 \<and> ino = 3 \<or> v = 4 \<and> ino = 4)"
  by (auto simp: has_key_def small_fs_def small_vnode_def)

lemma small_fs_cache: "vc_inv (vns small_fs)"
proof (rule vc_invI)
  have keys: "{v. \<exists>ino. has_key (vns small_fs) v mp ino} = (if mp = 0 then {1, 2, 3, 4} else {})" for mp by (auto simp: small_key)
  show "m_count (vns small_fs) mp = of_nat (card {v. \<exists>ino. has_key (vns small_fs) v mp ino})" for mp unfolding keys by (simp add: small_fs_def)
  show "v \<in> set (vnode_table (vns small_fs) b) \<longleftrightarrow> (\<exists>mp ino. has_key (vns small_fs) v mp ino \<and> vn_hash mp ino = b)" for b v
    unfolding small_key by (auto simp: small_hash small_fs_def)
  show "has_key (vns small_fs) v mp ino \<Longrightarrow> has_key (vns small_fs) w mp ino \<Longrightarrow> v = w" for v w mp ino by (auto simp: small_key)
qed (auto simp: live_def small_fs_def small_vnode_def split: if_splits)

section \<open>Properties\<close>

text \<open>
  C7. Directories are lists of names. In a well-formed file system creating a file, or a directory, appends its name to the entries of the
  directory and keeps the entries of every other directory; when memory runs out the result is \<open>ENOMEM\<close> and no listing changes. Removing the \<open>i\<close>-th entry
  takes exactly this one out, and removing a node that is no entry is an error that changes nothing. The file system stays well-formed and
  no operation faults or loops.
\<close>

lemma ramfs_directory_refines:
  assumes "fs_wf L s" "stands_for s dvp d" "length nm \<le> 255"
  shows "(room s \<and> S_ISREG m \<longrightarrow> (\<exists>L' t. ramfs_create dvp nm m s = Inr (SUCCESS, t) \<and> fs_wf L' t \<and>
      listing L' t d = listing L s d @ [Some (nm, VREG)] \<and> other_dirs_kept L s L' t d)) \<and>
    (room s \<and> S_ISDIR m \<longrightarrow> (\<exists>L' t. ramfs_mkdir dvp nm m s = Inr (SUCCESS, t) \<and> fs_wf L' t \<and>
      listing L' t d = listing L s d @ [Some (nm, VDIR)] \<and> other_dirs_kept L s L' t d)) \<and>
    (\<not> room s \<and> S_ISREG m \<longrightarrow> (\<exists>t. ramfs_create dvp nm m s = Inr (ENOMEM, t) \<and> fs_wf L t \<and> listing L t = listing L s)) \<and>
    (\<forall>v i. stands_for s v (L d ! i) \<and> i < length (L d) \<longrightarrow> (\<exists>L' t. ramfs_remove dvp v s = Inr (SUCCESS, t) \<and> fs_wf L' t \<and>
      listing L' t d = take i (listing L s d) @ drop (Suc i) (listing L s d) \<and>
      (\<forall>a. nodes t a \<noteq> None \<and> a \<noteq> d \<longrightarrow> listing L' t a = listing L s a))) \<and>
    (\<forall>v np. stands_for s v np \<and> np \<notin> set (L d) \<longrightarrow> ramfs_remove dvp v s = Inr (if L d = [] then EBUSY else ENOENT, s))"
  using create_listing [OF assms] mkdir_listing [OF assms] create_full [OF assms] remove_listing [OF assms(1,2)] remove_absent [OF assms(1,2)] by blast

lemma ramfs_directory_refines_witness:
  "(\<exists>L' t. ramfs_create 1 [100] S_IFREG small_fs = Inr (SUCCESS, t) \<and> fs_wf L' t \<and>
      listing L' t 1 = listing small_layout small_fs 1 @ [Some ([100], VREG)] \<and> other_dirs_kept small_layout small_fs L' t 1) \<and>
   (\<exists>L' t. ramfs_remove 1 4 small_fs = Inr (SUCCESS, t) \<and> fs_wf L' t \<and> listing L' t 1 = [Some ([97], VDIR)]) \<and>
   ramfs_remove 1 3 small_fs = Inr (ENOENT, small_fs)"
proof -
  have "length [100 :: u8] \<le> 255" by simp
  note r = ramfs_directory_refines [OF small_fs_wf small_fs_stands(1) this, of S_IFREG]
  have l: "listing small_layout small_fs 1 = [Some ([97], VDIR), Some ([99], VDIR)]" by (simp add: listing_def small_layout_def small_fs_def entry_def)
  have m: "S_ISREG S_IFREG" by (simp add: S_ISREG_def S_IFREG_def S_IFMT_def)
  have L: "small_layout 1 = [2, 4]" by (simp add: small_layout_def)
  note r1 = conjunct1 [OF r] and r4 = conjunct1 [OF conjunct2 [OF conjunct2 [OF conjunct2 [OF r]]]] and r5 = conjunct2 [OF conjunct2 [OF conjunct2 [OF conjunct2 [OF r]]]]
  have "stands_for small_fs 4 (small_layout 1 ! 1) \<and> 1 < length (small_layout 1)" unfolding L using small_fs_stands(4) by simp
  with r4 obtain L' t where "ramfs_remove 1 4 small_fs = Inr (SUCCESS, t)" "fs_wf L' t"
    "listing L' t 1 = take 1 (listing small_layout small_fs 1) @ drop (Suc 1) (listing small_layout small_fs 1)" by meson
  then have a: "\<exists>L' t. ramfs_remove 1 4 small_fs = Inr (SUCCESS, t) \<and> fs_wf L' t \<and> listing L' t 1 = [Some ([97], VDIR)]" unfolding l by auto
  have b: "ramfs_remove 1 3 small_fs = Inr (ENOENT, small_fs)" using spec [OF spec [OF r5, of 3], of 3] small_fs_stands(3) unfolding L by simp
  show ?thesis using r1 m small_fs_simps(1) a b by blast
qed

text \<open>
  C35. A name that was created is found: creating a file with a new name and then looking it up gives a vnode of an empty regular file that reads and writes
  can use, when the inode number that the lookup takes is not in use.
\<close>

lemma create_then_lookup:
  assumes "fs_wf L s" "vnodes (vns s) dvp = Some dv" "v_data dv = Some d" "nodes s d \<noteq> None" "room s" "S_ISREG m"
    "nm \<noteq> []" "length nm \<le> 255" "\<forall>a \<in> set (L d). node_name s a \<noteq> nm"
    "vc_inv (vns s)" "\<forall>w. \<not> has_key (vns s) w (v_mount dv) (inode_count s)"
  shows "\<exists>t v u. ramfs_create dvp nm m s = Inr (SUCCESS, t) \<and> ramfs_lookup True dvp nm t = Inr (SUCCESS, Some v, u) \<and>
    file_ok u v \<and> file_content u v = [] \<and> v \<notin> live (vns s)"
proof -
  obtain dn where dn: "nodes s d = Some dn" using assms(4) by blast
  have len: "length nm < 2 ^ 64" "\<not> strlen nm > NAME_MAX" using assms(8) by (simp_all add: unat_strlen NAME_MAX_def word_less_nat_alt)
  obtain L' t where t: "ramfs_add_node d nm VREG s = Inr (Some (next_node s), t)" "fs_wf L' t" "vns t = vns s" "nodes t (next_node s) = Some (fresh_node nm VREG)"
    "inode_count t = inode_count s" "nodes t d \<noteq> None" "L' d = L d @ [next_node s]" "listing L' t d = listing L s d @ [Some (nm, VREG)]" using add_node_listing [OF assms(1) dn assms(5) len(1), of VREG] by blast
  obtain dn' where dn': "nodes t d = Some dn'" using t(6) by blast
  have tv: "vnodes (vns t) dvp = Some dv" using assms(2) t(3) by simp
  have "map (entry t) (L d) = map (entry s) (L d)" using t(7,8) by (simp add: listing_def)
  then have "\<forall>a \<in> set (L d). node_name t a \<noteq> nm" using assms(9) by (simp add: node_name_entry)
  then have f: "find (\<lambda>a. node_name t a = nm) (L' d) = Some (next_node s)" unfolding t(7) by (rule find_snoc) (simp add: node_name_def t(4))
  obtain v u vp where u: "ramfs_lookup True dvp nm t = Inr (SUCCESS, Some v, u)" "nodes u = nodes t" "vnodes (vns u) v = Some vp" "v \<notin> live (vns t)"
    "v_data vp = Some (next_node s)" "v_type vp = VREG" "v_size vp = 0"
    using lookup_found [OF t(2) tv assms(3) dn' assms(7) len(1) _ _ f t(4)] assms(10,11) t(3,5) by auto
  have "ramfs_create dvp nm m s = Inr (SUCCESS, t)" using assms(2,3,6) t(1) len(2) by (simp add: ramfs_create_def dir_of_def get_vnode_def RAMFS_NODE_def)
  moreover have "file_ok u v" "file_content u v = []" using u t(4) by (simp_all add: file_ok_def file_content_def buf_ok_def node_buf_def)
  ultimately show ?thesis using u(1,4) t(3) by auto
qed

lemma create_then_lookup_witness:
  "\<exists>t v u. ramfs_create 1 [100] S_IFREG small_fs = Inr (SUCCESS, t) \<and> ramfs_lookup True 1 [100] t = Inr (SUCCESS, Some v, u) \<and>
    file_ok u v \<and> file_content u v = [] \<and> v \<notin> live (vns small_fs)"
proof -
  have "S_ISREG S_IFREG" by (simp add: S_ISREG_def S_IFREG_def S_IFMT_def)
  moreover have "\<forall>w. \<not> has_key (vns small_fs) w (v_mount (small_vnode 1 VDIR)) (inode_count small_fs)" by (simp add: small_key small_fs_simps)
  moreover have "\<forall>a \<in> set (small_layout 1). node_name small_fs a \<noteq> [100]" using small_fs_simps by (simp add: small_layout_def)
  ultimately show ?thesis using small_fs_simps(1,4,5)
    by (intro create_then_lookup [OF small_fs_wf, of 1 "small_vnode 1 VDIR" 1] small_fs_cache) (simp_all add: small_vnode_def)
qed

text \<open>
  C8. What is written is read back: a write of fewer than \<open>2^31\<close> bytes to a regular file, with memory for a larger buffer, writes everything and keeps the
  file consistent; a read of the same range gives the bytes written; and a write that begins inside the file changes only this range.
\<close>

lemma write_read_roundtrip:
  assumes "file_ok s v" "data \<noteq> []" "off + length data < 2 ^ 31" "alloc_ok s (allocs s)" "flag AND IO_APPEND = 0" "length bytes = length data"
  shows "\<exists>u t u' t'. ramfs_write v (single_uio UIO_WRITE off data) flag s = Inr (SUCCESS, u, t) \<and> uio_resid u = 0 \<and> file_ok t v \<and>
    length (file_content t v) = max (length (file_content s v)) (off + length data) \<and>
    (off \<le> length (file_content s v) \<longrightarrow> file_content t v = take off (file_content s v) @ data @ drop (off + length data) (file_content s v)) \<and>
    ramfs_read v (single_uio UIO_READ off bytes) t = Inr (SUCCESS, u', t') \<and> uio_resid u' = 0 \<and> uio_iov u' = [\<lparr>iov_done = data, iov_mem = []\<rparr>]"
proof -
  obtain vp np n where f: "vnodes (vns s) v = Some vp" "v_type vp = VREG" "v_data vp = Some np" "nodes s np = Some n" "buf_ok n" "v_size vp = int (unat (rn_size n))"
    using file_okD [OF assms(1)] .
  define sz c e where "sz = unat (rn_size n)" and "c = file_content s v" and "e = off + length data"
  have c: "c = take sz (node_buf n)" "length c = sz" using f by (auto simp: file_content_def buf_ok_def sz_def c_def)
  obtain u t b where w: "ramfs_write v (single_uio UIO_WRITE off data) flag s = Inr (SUCCESS, u, t)" "uio_resid u = 0"
    "after_write v vp np off data b (max sz e) t" "e \<le> length b" "sz \<le> length b" "length b < 2 ^ 62" "take sz b = c"
    using write_after [OF f assms(2-5)] unfolding sz_def [symmetric] e_def [symmetric] c(1) by blast
  define b' where "b' = take off b @ data @ drop (length data) (drop off b)"
  have b': "length b' = length b" "take (length data) (drop off b') = data" using overwrite [of off data b] w(4) by (auto simp: b'_def e_def)
  have t: "file_ok t v" "file_content t v = take (max sz e) b'" using after_write_ok [OF w(3) f(2,3)] w(4-6) by (auto simp: e_def b'_def)
  have len: "length (file_content t v) = max sz e" using t(2) b'(1) w(4,5) by simp
  have rd: "take (length data) (drop off (file_content t v)) = data" using b'(2) by (simp add: t(2) drop_take e_def min_absorb1)
  have ov: "file_content t v = take off c @ data @ drop e c" if "off \<le> sz"
    using overwrite_content [of off sz data b] that w(4,5) by (simp only: t(2) b'_def w(7) e_def)
  have "bytes \<noteq> []" using assms(2,6) by auto
  then obtain u' t' where "ramfs_read v (single_uio UIO_READ off bytes) t = Inr (SUCCESS, u', t')" "uio_resid u' = 0" "uio_iov u' = [\<lparr>iov_done = data, iov_mem = []\<rparr>]"
    using read_spec [OF t(1), of bytes off] assms(2,3,6) len rd by (auto simp: e_def)
  then show ?thesis using w(1,2) t(1) len ov c(2) by (auto simp: c_def e_def)
qed

lemma write_read_roundtrip_witness:
  "\<exists>u t u' t'. ramfs_write 3 (single_uio UIO_WRITE 0 [1, 2]) 0 small_fs = Inr (SUCCESS, u, t) \<and> file_content t 3 = [1, 2] \<and>
    ramfs_read 3 (single_uio UIO_READ 0 [0, 0]) t = Inr (SUCCESS, u', t') \<and> uio_iov u' = [\<lparr>iov_done = [1, 2], iov_mem = []\<rparr>]"
proof -
  have "file_content small_fs 3 = []" by (simp add: file_content_def small_fs_def small_vnode_def node_buf_def)
  then show ?thesis using write_read_roundtrip [OF small_fs_file, of "[1, 2]" 0 0 "[0, 0]"] small_fs_simps(2) by auto
qed

text \<open>
  C36. Reading a directory ends and lists everything once: a client that reads entries until an error gets the two dots, then the entries of the directory in order with
  their types and names, and then the end. Only the entries after the first \<open>2 ^ 31\<close> are out of reach of the counter of type \<^verbatim>\<open>int\<close>.
\<close>

lemma readdir_enumerates:
  assumes "fs_wf L s" "stands_for s v d"
  shows "read_all (length (L d) + 3) v 0 s =
    Inr (\<lparr>d_fileno = 0, d_type = DT_DIR, d_name = [46]\<rparr> # \<lparr>d_fileno = 1, d_type = DT_DIR, d_name = [46, 46]\<rparr> # dirents (take (2 ^ 31) (listing L s d)) 0)"
proof -
  obtain t where t: "ramfs_readdir v 0 s = Inr (SUCCESS, Some \<lparr>d_fileno = 0, d_type = DT_DIR, d_name = [46]\<rparr>, 1, t)"
    "fs_wf L t" "stands_for t v d" "listing L t d = listing L s d" using readdir_dot [OF assms, of 0] by auto
  obtain u where u: "ramfs_readdir v 1 t = Inr (SUCCESS, Some \<lparr>d_fileno = 1, d_type = DT_DIR, d_name = [46, 46]\<rparr>, 2, u)"
    "fs_wf L u" "stands_for u v d" "listing L u d = listing L s d" using readdir_dot [OF t(2,3), of 1] t(4) by auto
  have r: "read_all (Suc (length (L d))) v 2 u = Inr (dirents (take (2 ^ 31) (listing L s d)) 0)"
    using read_all_from [OF u(2,3), of 0 "Suc (length (L d))"] u(4) by (simp del: read_all.simps)
  have r1: "read_all (Suc (Suc (length (L d)))) v 1 t = Inr (\<lparr>d_fileno = 1, d_type = DT_DIR, d_name = [46, 46]\<rparr> # dirents (take (2 ^ 31) (listing L s d)) 0)"
    by (subst read_all.simps(2)) (simp add: u(1) r del: read_all.simps)
  have r0: "read_all (Suc (Suc (Suc (length (L d))))) v 0 s = Inr (\<lparr>d_fileno = 0, d_type = DT_DIR, d_name = [46]\<rparr> #
      \<lparr>d_fileno = 1, d_type = DT_DIR, d_name = [46, 46]\<rparr> # dirents (take (2 ^ 31) (listing L s d)) 0)"
    by (subst read_all.simps(2)) (simp add: t(1) r1 del: read_all.simps)
  then show ?thesis by (simp add: numeral_3_eq_3 del: read_all.simps)
qed

lemma readdir_enumerates_witness:
  "read_all 5 1 0 small_fs = Inr [\<lparr>d_fileno = 0, d_type = DT_DIR, d_name = [46]\<rparr>, \<lparr>d_fileno = 1, d_type = DT_DIR, d_name = [46, 46]\<rparr>,
    \<lparr>d_fileno = 2, d_type = DT_DIR, d_name = [97]\<rparr>, \<lparr>d_fileno = 3, d_type = DT_DIR, d_name = [99]\<rparr>]"
proof -
  have "listing small_layout small_fs 1 = [Some ([97], VDIR), Some ([99], VDIR)]" "length (small_layout 1) + 3 = 5"
    by (simp_all add: listing_def small_layout_def small_fs_def entry_def)
  then show ?thesis using readdir_enumerates [OF small_fs_wf small_fs_stands(1)] by (simp add: dirents_def upt_rec del: read_all.simps)
qed

text \<open>
  C37. Growing a file with \<open>ramfs_truncate\<close> shows memory that was never cleared: an empty file without a buffer that is set to a length has as contents the
  bytes that the allocator left in the new buffer.
\<close>

lemma truncate_exposes_memory:
  assumes "file_ok s v" "vnodes (vns s) v = Some vp" "v_data vp = Some np" "nodes s np = Some n" "rn_bufsize n = 0" "0 < k" "k < 2 ^ 31" "alloc_ok s (allocs s)"
  shows "\<exists>t. ramfs_truncate v (int k) s = Inr (SUCCESS, t) \<and> file_content t v = map (alloc_junk s (allocs s)) [0..<k]"
proof -
  let ?w = "PARTITION_UP (of_nat k) + 2 * PARTITION_SIZE" and ?j = "alloc_junk s (allocs s)"
  have n: "rn_size n = 0" using assms(1-5) by (auto simp: file_ok_def buf_ok_def unat_eq_0)
  have k: "unat (of_nat k :: u64) = k" using unat_of_nat_small [of k] assms(7) by simp
  have pos: "(0 :: u64) < of_nat k" using k assms(6) by (simp add: word_less_nat_alt)
  have le: "k \<le> unat ?w" using new_size_bounds2 [OF assms(7)] .
  have "copy_buf n (v_size vp) (map ?j [0..<unat ?w]) = Inr (map ?j [0..<unat ?w])" using n by (simp add: copy_buf_def)
  then have "\<exists>t. ramfs_truncate v (int k) s = Inr (SUCCESS, t) \<and> vnodes (vns t) v = Some (vp\<lparr>v_size := int k\<rparr>) \<and>
    (\<exists>n'. nodes t np = Some n' \<and> rn_size n' = of_nat k \<and> rn_buf n' = Some (map ?j [0..<unat ?w]))"
    using assms(2-6,8) pos by (simp add: ramfs_truncate_def get_vnode_def RAMFS_NODE_def kmalloc_def set_vnode_def Let_def get_node_def)
  then show ?thesis using assms(3) k le by (auto simp: file_content_def node_buf_def take_map)
qed

lemma truncate_exposes_memory_witness:
  "\<exists>t. ramfs_truncate 3 2 small_fs = Inr (SUCCESS, t) \<and> file_content t 3 = [170, 170]"
proof -
  have j: "map (alloc_junk small_fs (allocs small_fs)) [0..<2] = [170, 170]" by (simp add: small_fs_def upt_rec)
  have "\<exists>t. ramfs_truncate 3 (int 2) small_fs = Inr (SUCCESS, t) \<and> file_content t 3 = map (alloc_junk small_fs (allocs small_fs)) [0..<2]"
    by (rule truncate_exposes_memory [OF small_fs_file small_fs_simps(6) _ small_fs_simps(7)]) (simp_all add: small_vnode_def small_fs_simps)
  then show ?thesis unfolding j by simp
qed

text \<open>
  C38. Renaming a directory into another directory loses what is in it: the rename succeeds, the new entry is an empty directory, and the old node is freed with
  its list of entries.
\<close>

lemma rename_loses_entries:
  assumes "fs_wf L s" "stands_for s dvp1 d1" "stands_for s dvp2 d2" "stands_for s v a" "a \<in> set (L d1)" "dvp1 \<noteq> dvp2" "d1 \<noteq> d2"
    "entry s a = Some (old, VDIR)" "map_option rn_buf (nodes s a) = Some None" "room s" "length nm < 2 ^ 64"
  shows "\<exists>L' t. ramfs_rename dvp1 v dvp2 None nm s = Inr (SUCCESS, t) \<and> nodes t a = None \<and> fs_wf L' t \<and>
    L' d2 = L d2 @ [next_node s] \<and> entry t (next_node s) = Some (nm, VDIR) \<and> L' (next_node s) = []"
proof -
  obtain n1 n2 n where n: "dir_of dvp1 s = Inr d1" "nodes s d1 = Some n1" "dir_of dvp2 s = Inr d2" "nodes s d2 = Some n2" "dir_of v s = Inr a" "nodes s a = Some n"
    using stands_for_dir_of [OF assms(2)] stands_for_dir_of [OF assms(3)] stands_for_dir_of [OF assms(4)] by blast
  let ?np = "next_node s" and ?L = "L(next_node s := [], d2 := L d2 @ [next_node s])"
  have fr: "nodes s ?np = None" using fs_wfD(1) [OF assms(1)] by (metis less_irrefl not_Some_eq)
  obtain t where t: "ramfs_add_node d2 nm VDIR s = Inr (Some ?np, t)" "fs_wf ?L t" "vns t = vns s" "nodes t ?np = Some (fresh_node nm VDIR)"
    "\<And>x. x \<noteq> ?np \<Longrightarrow> map_option node_content (nodes t x) = map_option node_content (nodes s x)"
    using ramfs_add_node_spec [OF assms(1) n(4) assms(10,11), of VDIR] by metis
  have ne: "a \<noteq> ?np" "d1 \<noteq> ?np" "d2 \<noteq> ?np" using fr n by auto
  obtain m1 where m1: "nodes t d1 = Some m1" using t(5) [OF ne(2)] n(2) by auto
  obtain m where m: "nodes t a = Some m" "node_content m = node_content n" using t(5) [OF ne(1)] n(6) by auto
  have mb: "rn_buf m = None" using arg_cong [OF m(2), of rn_buf] assms(9) n(6) by (simp add: node_content_def)
  have td: "dir_of dvp1 t = Inr d1" using n(1) t(3) by (simp add: dir_of_def get_vnode_def)
  obtain u where u: "ramfs_remove_node d1 a t = Inr (SUCCESS, u)" "fs_wf (?L(d1 := remove1 a (?L d1))) u" "nodes u a = None"
    "\<And>x. x \<noteq> a \<Longrightarrow> map_option node_content (nodes u x) = map_option node_content (nodes t x)"
    using ramfs_remove_node_found [OF t(2) m1, of a] assms(5,7) ne by auto
  have ty: "rn_type n = VDIR" using assms(8) n(6) by (simp add: entry_def)
  have "ramfs_rename dvp1 v dvp2 None nm s = Inr (SUCCESS, u)"
    using n t(1) ty m mb td u(1) t(4) assms(6) by (simp add: ramfs_rename_def)
  moreover have "entry u ?np = Some (nm, VDIR)" using entry_content [OF u(4) [of ?np]] ne t(4) by (simp add: entry_def)
  ultimately show ?thesis using u(2,3) ne assms(7) by (intro exI [of _ "?L(d1 := remove1 a (?L d1))"] exI [of _ u]) simp
qed

lemma rename_loses_entries_witness:
  "listing small_layout small_fs 2 = [Some ([98], VREG)] \<and>
   (\<exists>L' t. ramfs_rename 1 2 4 None [101] small_fs = Inr (SUCCESS, t) \<and> fs_wf L' t \<and> L' 4 = [5] \<and> entry t 5 = Some ([101], VDIR) \<and> listing L' t 5 = [])"
proof -
  have "listing small_layout small_fs 2 = [Some ([98], VREG)]" "small_layout 4 = []" "2 \<in> set (small_layout 1)"
    by (simp_all add: listing_def small_layout_def small_fs_def entry_def)
  then show ?thesis using rename_loses_entries [OF small_fs_wf small_fs_stands(1,4,2), of "[97]" "[101]"] small_fs_simps
    by (auto simp: listing_def)
qed

end
